(* ===== verification/Prelude.thy ===== *)
theory Prelude
  imports Main "HOL-Library.Word"
begin

text \<open>
  What every component of the development shares: the outcome of a kernel function, sequencing of
  kernel calls, the identifiers of locks and sleep channels, the constants of \<open>param.h\<close>, and
  generic lemmas on lists and on \<open>find\<close>, the shape of the kernel's table scans.
\<close>

section \<open>Outcomes of kernel code\<close>

text \<open>
  A kernel function takes the machine state and has one of four outcomes:
  \<^item> \<open>Ret r s\<close>: it returns \<open>r\<close> in state \<open>s\<close>;
  \<^item> \<open>Panic msg\<close>: it calls \<open>panic(msg)\<close>, which halts the machine;
  \<^item> \<open>Block c s\<close>: the calling process has gone to sleep on channel \<open>c\<close>, and \<open>s\<close> is the
    state at the moment the scheduler takes over;
  \<^item> \<open>Fault\<close>: the C code has undefined behaviour (an index out of range, a null pointer
    dereferenced).
\<close>

type_synonym uint32 = "32 word"
type_synonym uchar = "8 word"

text \<open>
  Sleep channels are addresses of kernel objects; only equality matters. \<open>Chan0\<close> is the null
  pointer, \<open>ChProc i\<close> the address of the \<open>i\<close>-th slot of \<open>ptable.proc\<close>.
\<close>

datatype chan =
    Chan0
  | ChProc nat
  | ChTicks
  | ChNread uint32
  | ChNwrite uint32
  | ChLog
  | ChBuf nat
  | ChInode nat
  | ChInput

datatype lock =
    LkPtable
  | LkKmem
  | LkTicks
  | LkBcache
  | LkIcache
  | LkLog
  | LkFtable
  | LkCons
  | LkIde
  | LkPipe uint32
  | LkBuf nat
  | LkInode nat

datatype ('a, 's) outcome =
    Ret 'a 's
  | Panic string
  | Block chan 's
  | Fault

primrec kbind :: "('a, 's) outcome \<Rightarrow> ('a \<Rightarrow> 's \<Rightarrow> ('b, 's) outcome) \<Rightarrow> ('b, 's) outcome" where
  "kbind (Ret r s) f = f r s"
| "kbind (Panic msg) f = Panic msg"
| "kbind (Block c s) f = Block c s"
| "kbind Fault f = Fault"

text \<open>A loop over a fixed list of indices, stopped by the first outcome that is not a return.\<close>

fun kfor :: "'i list \<Rightarrow> ('i \<Rightarrow> 's \<Rightarrow> (unit, 's) outcome) \<Rightarrow> 's \<Rightarrow> (unit, 's) outcome" where
  "kfor [] f s = Ret () s"
| "kfor (i # is) f s = kbind (f i s) (\<lambda>_ s. kfor is f s)"

text \<open>A sequence of calls, as a list: the statements of a function one by one.\<close>

primrec kseq :: "('s \<Rightarrow> (unit, 's) outcome) list \<Rightarrow> 's \<Rightarrow> (unit, 's) outcome" where
  "kseq [] s = Ret () s"
| "kseq (f # fs) s = kbind (f s) (\<lambda>_ s. kseq fs s)"

text \<open>An outcome that is neither a halt nor undefined, and whose state satisfies a predicate.\<close>

primrec outcome_sat :: "('s \<Rightarrow> bool) \<Rightarrow> ('a, 's) outcome \<Rightarrow> bool" where
  "outcome_sat P (Ret r s) = P s"
| "outcome_sat P (Panic msg) = False"
| "outcome_sat P (Block c s) = P s"
| "outcome_sat P Fault = False"

section \<open>Signed integers\<close>

text \<open>
  A C \<open>int\<close> of the kernel's counters is an \<open>int\<close> in the range of 32 bits; an increment or a
  difference is the two's complement result of the machine instruction.
\<close>

definition int_wrap :: "int \<Rightarrow> int" where
  "int_wrap x = sint (word_of_int x :: uint32)"

lemma int_wrap_id: "- (2 ^ 31) \<le> x \<Longrightarrow> x < 2 ^ 31 \<Longrightarrow> int_wrap x = x"
  by (simp add: int_wrap_def signed_take_bit_int_eq_self sint_sbintrunc')

lemma int_wrap_range: "- (2 ^ 31) \<le> int_wrap x" "int_wrap x < 2 ^ 31"
  using sint_range_size [of "word_of_int x :: uint32"] by (simp_all add: int_wrap_def word_size)

lemma int_wrap_max: "int_wrap (2 ^ 31) = - (2 ^ 31)"
  by (simp add: int_wrap_def)

section \<open>Constants of param.h\<close>

definition NPROC :: nat where "NPROC = 64"
definition NOFILE :: nat where "NOFILE = 16"
definition NFILE :: nat where "NFILE = 100"
definition NINODE :: nat where "NINODE = 50"
definition NDEV :: nat where "NDEV = 10"
definition ROOTDEV :: nat where "ROOTDEV = 1"
definition MAXARG :: nat where "MAXARG = 32"
definition MAXOPBLOCKS :: nat where "MAXOPBLOCKS = 10"
definition LOGSIZE :: nat where "LOGSIZE = MAXOPBLOCKS * 3"
definition NBUF :: nat where "NBUF = MAXOPBLOCKS * 3"

lemmas param_defs = NPROC_def NOFILE_def NFILE_def NINODE_def NDEV_def ROOTDEV_def MAXARG_def
  MAXOPBLOCKS_def LOGSIZE_def NBUF_def

section \<open>Lemma collections\<close>

named_theorems kernel_defs \<open>definitions of kernel operations, for evaluation and functional lemmas\<close>
named_theorems frame_simps \<open>which fields an operation leaves alone\<close>

section \<open>Sequencing\<close>

lemma kbind_assoc: "kbind (kbind m f) g = kbind m (\<lambda>r s. kbind (f r s) g)"
  by (cases m) simp_all

lemma kbind_Ret_right: "kbind m Ret = m"
  by (cases m) simp_all

lemma kbind_eq_Ret:
  "kbind m f = Ret r s \<longleftrightarrow> (\<exists>r' s'. m = Ret r' s' \<and> f r' s' = Ret r s)"
  by (cases m) auto

lemma kbind_RetE:
  assumes "kbind m f = Ret r s"
  obtains r' s' where "m = Ret r' s'" and "f r' s' = Ret r s"
  using assms by (auto simp: kbind_eq_Ret)

lemma kbind_eq_Fault:
  "kbind m f = Fault \<longleftrightarrow> m = Fault \<or> (\<exists>r' s'. m = Ret r' s' \<and> f r' s' = Fault)"
  by (cases m) auto

lemma kbind_eq_Panic:
  "kbind m f = Panic msg \<longleftrightarrow> m = Panic msg \<or> (\<exists>r' s'. m = Ret r' s' \<and> f r' s' = Panic msg)"
  by (cases m) auto

lemma kbind_cong [fundef_cong]:
  "m = m' \<Longrightarrow> (\<And>r s. m' = Ret r s \<Longrightarrow> f r s = f' r s) \<Longrightarrow> kbind m f = kbind m' f'"
  by (cases m') simp_all

lemma kfor_invariant:
  assumes "P s" and "\<And>i s. i \<in> set is \<Longrightarrow> P s \<Longrightarrow> \<exists>s'. f i s = Ret () s' \<and> P s'"
  shows "\<exists>s'. kfor is f s = Ret () s' \<and> P s'"
  using assms
proof (induction "is" arbitrary: s)
  case Nil
  then show ?case by simp
next
  case (Cons i "is")
  then obtain s1 where "f i s = Ret () s1" "P s1"
    by (metis list.set_intros(1))
  with Cons.IH [of s1] Cons.prems(2) show ?case by simp
qed

section \<open>Table scans\<close>

text \<open>
  The kernel's scans over a fixed table, \<open>for(p = tab; p < &tab[N]; p++) if(P(p)) ...\<close>, are
  \<open>find P [0..<N]\<close>: the least index that satisfies \<open>P\<close>.
\<close>

lemma find_upt_Some:
  "find P [0..<n] = Some i \<longleftrightarrow> i < n \<and> P i \<and> (\<forall>j<i. \<not> P j)"
  by (auto simp: find_Some_iff)

lemma find_upt_None: "find P [0..<n] = None \<longleftrightarrow> (\<forall>i<n. \<not> P i)"
  by (auto simp: find_None_iff)

lemma find_upt_exists:
  assumes "i < n" "P i"
  obtains j where "find P [0..<n] = Some j" "j \<le> i" "P j"
proof (cases "find P [0..<n]")
  case None
  with assms show ?thesis by (auto simp: find_upt_None)
next
  case (Some j)
  with assms that show ?thesis by (metis find_upt_Some not_le)
qed

lemma distinct_map_upt_nth: "distinct xs \<Longrightarrow> i < length xs \<Longrightarrow> j < length xs \<Longrightarrow>
    xs ! i = xs ! j \<longleftrightarrow> i = j"
  by (simp add: nth_eq_iff_index_eq)

lemma fun_upd_self: "f x = y \<Longrightarrow> f(x := y) = f"
  by auto

lemma list_update_self: "xs ! i = x \<Longrightarrow> xs[i := x] = xs"
  by (metis list_update_id)

end
