(* ===== verification/Spinlock.thy ===== *)
theory Spinlock
  imports Prelude
begin

text \<open>
  The spin locks of \<open>spinlock.c\<close>. The first half models the code on a machine with several CPUs,
  each with its interrupt flag and its \<open>pushcli\<close> depth, and interleaves the steps of \<open>acquire\<close>
  and \<open>release\<close>: mutual exclusion, interrupts off while a lock is held, no CPU spinning on its own
  lock. The second half is the view one CPU has of its locks, the list of locks it holds, which
  the other components use; the first half refines it.
\<close>

section \<open>The code\<close>

record spinlock =
  locked :: bool
  lk_cpu :: "nat option"

record cpu =
  ncli :: int
  intena :: bool
  ifl :: bool

record machine =
  cpus :: "nat \<Rightarrow> cpu"
  lks :: "lock \<Rightarrow> spinlock"

text \<open>The names given to \<open>initlock\<close>; \<open>acquire\<close> panics with the name of the lock.\<close>

fun lock_name :: "lock \<Rightarrow> string" where
  "lock_name LkPtable = ''ptable''"
| "lock_name LkKmem = ''kmem''"
| "lock_name LkTicks = ''time''"
| "lock_name LkBcache = ''bcache''"
| "lock_name LkIcache = ''icache''"
| "lock_name LkLog = ''log''"
| "lock_name LkFtable = ''ftable''"
| "lock_name LkCons = ''console''"
| "lock_name LkIde = ''ide''"
| "lock_name (LkPipe a) = ''pipe''"
| "lock_name (LkBuf b) = ''sleep lock''"
| "lock_name (LkInode i) = ''sleep lock''"

definition initlock :: "lock \<Rightarrow> machine \<Rightarrow> (unit, machine) outcome" where
  "initlock lk m = Ret () (m\<lparr>lks := (lks m)(lk := \<lparr>locked = False, lk_cpu = None\<rparr>)\<rparr>)"

definition pushcli :: "nat \<Rightarrow> machine \<Rightarrow> (unit, machine) outcome" where
  "pushcli c m =
     (let eflags = ifl (cpus m c);
          k = (cpus m c)\<lparr>ifl := False\<rparr>;
          k = (if ncli k = 0 then k\<lparr>intena := eflags\<rparr> else k)
      in Ret () (m\<lparr>cpus := (cpus m)(c := k\<lparr>ncli := ncli k + 1\<rparr>)\<rparr>))"

definition popcli :: "nat \<Rightarrow> machine \<Rightarrow> (unit, machine) outcome" where
  "popcli c m =
     (if ifl (cpus m c) then Panic ''popcli - interruptible''
      else let k = (cpus m c)\<lparr>ncli := ncli (cpus m c) - 1\<rparr>
           in if ncli k < 0 then Panic ''popcli''
              else let k = (if ncli k = 0 \<and> intena k then k\<lparr>ifl := True\<rparr> else k)
                   in Ret () (m\<lparr>cpus := (cpus m)(c := k)\<rparr>))"

definition holding :: "nat \<Rightarrow> lock \<Rightarrow> machine \<Rightarrow> (bool, machine) outcome" where
  "holding c lk m =
     kbind (pushcli c m) (\<lambda>_ m.
       let r = locked (lks m lk) \<and> lk_cpu (lks m lk) = Some c
       in kbind (popcli c m) (\<lambda>_ m. Ret r m))"

text \<open>
  \<open>acquire\<close> in the pieces other CPUs can interleave with: up to the loop, one \<open>xchg\<close> of the loop,
  and the record of the holder. \<open>release\<close> likewise: up to clearing the holder, then the store
  of 0 and \<open>popcli\<close>.
\<close>

definition acquire_enter :: "nat \<Rightarrow> lock \<Rightarrow> machine \<Rightarrow> (unit, machine) outcome" where
  "acquire_enter c lk m =
     kbind (pushcli c m) (\<lambda>_ m.
     kbind (holding c lk m) (\<lambda>r m.
       if r then Panic (lock_name lk) else Ret () m))"

definition xchg_locked :: "lock \<Rightarrow> machine \<Rightarrow> bool \<times> machine" where
  "xchg_locked lk m = (locked (lks m lk), m\<lparr>lks := (lks m)(lk := (lks m lk)\<lparr>locked := True\<rparr>)\<rparr>)"

partial_function (option) acquire_spin :: "lock \<Rightarrow> machine \<Rightarrow> machine option" where
  "acquire_spin lk m =
     (case xchg_locked lk m of (old, m') \<Rightarrow> if old then acquire_spin lk m' else Some m')"

definition acquire_record :: "nat \<Rightarrow> lock \<Rightarrow> machine \<Rightarrow> machine" where
  "acquire_record c lk m = m\<lparr>lks := (lks m)(lk := (lks m lk)\<lparr>lk_cpu := Some c\<rparr>)\<rparr>"

text \<open>The whole of \<open>acquire\<close> with no other CPU moving: \<open>None\<close> is spinning for ever.\<close>

definition acquire_cpu :: "nat \<Rightarrow> lock \<Rightarrow> machine \<Rightarrow> (unit, machine) outcome option" where
  "acquire_cpu c lk m =
     (case acquire_enter c lk m of
        Ret _ m1 \<Rightarrow> map_option (\<lambda>m2. Ret () (acquire_record c lk m2)) (acquire_spin lk m1)
      | e \<Rightarrow> Some e)"

definition release_enter :: "nat \<Rightarrow> lock \<Rightarrow> machine \<Rightarrow> (unit, machine) outcome" where
  "release_enter c lk m =
     kbind (holding c lk m) (\<lambda>r m.
       if \<not> r then Panic ''release''
       else Ret () (m\<lparr>lks := (lks m)(lk := (lks m lk)\<lparr>lk_cpu := None\<rparr>)\<rparr>))"

definition release_exit :: "nat \<Rightarrow> lock \<Rightarrow> machine \<Rightarrow> (unit, machine) outcome" where
  "release_exit c lk m = popcli c (m\<lparr>lks := (lks m)(lk := (lks m lk)\<lparr>locked := False\<rparr>)\<rparr>)"

definition release_cpu :: "nat \<Rightarrow> lock \<Rightarrow> machine \<Rightarrow> (unit, machine) outcome" where
  "release_cpu c lk m = kbind (release_enter c lk m) (\<lambda>_ m. release_exit c lk m)"

section \<open>Interleaving of several CPUs\<close>

datatype lpc = Out | Spinning lock | Got lock | Releasing lock

record lsys =
  mach :: machine
  lpcs :: "nat \<Rightarrow> lpc"

definition init_lsys :: lsys where
  "init_lsys =
     \<lparr>mach = \<lparr>cpus = (\<lambda>_. \<lparr>ncli = 0, intena = False, ifl = False\<rparr>),
              lks = (\<lambda>_. \<lparr>locked = False, lk_cpu = None\<rparr>)\<rparr>,
      lpcs = (\<lambda>_. Out)\<rparr>"

text \<open>
  One rule per piece. \<open>flags\<close> is a CPU outside any critical section changing its interrupt flag
  (\<open>sti\<close> in \<open>scheduler\<close>, entry to and return from a trap).
\<close>

inductive lstep :: "lsys \<Rightarrow> lsys \<Rightarrow> bool" where
  enter: "lpcs \<sigma> c = Out \<Longrightarrow> acquire_enter c lk (mach \<sigma>) = Ret () m \<Longrightarrow>
     lstep \<sigma> (\<sigma>\<lparr>mach := m, lpcs := (lpcs \<sigma>)(c := Spinning lk)\<rparr>)"
| spin: "lpcs \<sigma> c = Spinning lk \<Longrightarrow> xchg_locked lk (mach \<sigma>) = (True, m) \<Longrightarrow>
     lstep \<sigma> (\<sigma>\<lparr>mach := m\<rparr>)"
| win: "lpcs \<sigma> c = Spinning lk \<Longrightarrow> xchg_locked lk (mach \<sigma>) = (False, m) \<Longrightarrow>
     lstep \<sigma> (\<sigma>\<lparr>mach := m, lpcs := (lpcs \<sigma>)(c := Got lk)\<rparr>)"
| stamp: "lpcs \<sigma> c = Got lk \<Longrightarrow>
     lstep \<sigma> (\<sigma>\<lparr>mach := acquire_record c lk (mach \<sigma>), lpcs := (lpcs \<sigma>)(c := Out)\<rparr>)"
| unlock: "lpcs \<sigma> c = Out \<Longrightarrow> release_enter c lk (mach \<sigma>) = Ret () m \<Longrightarrow>
     lstep \<sigma> (\<sigma>\<lparr>mach := m, lpcs := (lpcs \<sigma>)(c := Releasing lk)\<rparr>)"
| leave: "lpcs \<sigma> c = Releasing lk \<Longrightarrow> release_exit c lk (mach \<sigma>) = Ret () m \<Longrightarrow>
     lstep \<sigma> (\<sigma>\<lparr>mach := m, lpcs := (lpcs \<sigma>)(c := Out)\<rparr>)"
| flags: "lpcs \<sigma> c = Out \<Longrightarrow> ncli (cpus (mach \<sigma>) c) = 0 \<Longrightarrow>
     lstep \<sigma> (\<sigma>\<lparr>mach := (mach \<sigma>)\<lparr>cpus := (cpus (mach \<sigma>))(c := (cpus (mach \<sigma>) c)\<lparr>ifl := b\<rparr>)\<rparr>\<rparr>)"

inductive lreach :: "lsys \<Rightarrow> bool" where
  start: "lreach init_lsys"
| step: "lreach \<sigma> \<Longrightarrow> lstep \<sigma> \<sigma>' \<Longrightarrow> lreach \<sigma>'"

text \<open>A CPU owns a lock from the successful \<open>xchg\<close> to the store of 0.\<close>

definition owns :: "lsys \<Rightarrow> nat \<Rightarrow> lock \<Rightarrow> bool" where
  "owns \<sigma> c lk \<longleftrightarrow>
     lk_cpu (lks (mach \<sigma>) lk) = Some c \<or> lpcs \<sigma> c = Got lk \<or> lpcs \<sigma> c = Releasing lk"

section \<open>What one CPU sees of its locks\<close>

record kbase =
  held :: "lock list"

definition acquire :: "lock \<Rightarrow> 'a kbase_scheme \<Rightarrow> (unit, 'a kbase_scheme) outcome" where
  "acquire lk s =
     (if lk \<in> set (held s) then Panic (lock_name lk) else Ret () (s\<lparr>held := lk # held s\<rparr>))"

definition release :: "lock \<Rightarrow> 'a kbase_scheme \<Rightarrow> (unit, 'a kbase_scheme) outcome" where
  "release lk s =
     (if lk \<notin> set (held s) then Panic ''release'' else Ret () (s\<lparr>held := remove1 lk (held s)\<rparr>))"

text \<open>
  The relation between the two: the list holds exactly the locks of CPU \<open>c\<close>, its length is
  \<open>c->ncli\<close>, and interrupts are off while it is not empty.
\<close>

definition cpu_holds :: "nat \<Rightarrow> machine \<Rightarrow> lock list \<Rightarrow> bool" where
  "cpu_holds c m hs \<longleftrightarrow>
     distinct hs \<and>
     (\<forall>lk. lk \<in> set hs \<longleftrightarrow> locked (lks m lk) \<and> lk_cpu (lks m lk) = Some c) \<and>
     ncli (cpus m c) = int (length hs) \<and>
     (hs \<noteq> [] \<longrightarrow> \<not> ifl (cpus m c))"

section \<open>Lemmas\<close>

subsection \<open>pushcli, popcli and holding\<close>

lemma pushcli_Ret: "pushcli c m = Ret () (m\<lparr>cpus := (cpus m)(c :=
    \<lparr>ncli = ncli (cpus m c) + 1,
     intena = (if ncli (cpus m c) = 0 then ifl (cpus m c) else intena (cpus m c)),
     ifl = False\<rparr>)\<rparr>)"
  by (cases "cpus m c") (simp add: pushcli_def Let_def)

lemma popcli_Ret:
  assumes "\<not> ifl (cpus m c)" "ncli (cpus m c) > 0"
  shows "popcli c m = Ret () (m\<lparr>cpus := (cpus m)(c :=
    \<lparr>ncli = ncli (cpus m c) - 1, intena = intena (cpus m c),
     ifl = (ncli (cpus m c) = 1 \<and> intena (cpus m c))\<rparr>)\<rparr>)"
  using assms by (cases "cpus m c") (auto simp: popcli_def Let_def)

lemma popcli_RetD:
  assumes "popcli c m = Ret () m'"
  shows "\<not> ifl (cpus m c)" "ncli (cpus m c) > 0"
  using assms by (auto simp: popcli_def Let_def split: if_splits)

text \<open>\<open>pushcli\<close> and \<open>popcli\<close> are matched: a pair leaves depth and interrupt flag as they were.\<close>

lemma push_pop:
  assumes "ncli (cpus m c) \<ge> 0" "ncli (cpus m c) > 0 \<longrightarrow> \<not> ifl (cpus m c)"
  shows "kbind (pushcli c m) (\<lambda>_. popcli c) = Ret () (m\<lparr>cpus := (cpus m)(c := (cpus m c)
    \<lparr>intena := if ncli (cpus m c) = 0 then ifl (cpus m c) else intena (cpus m c)\<rparr>)\<rparr>)"
  using assms by (cases "cpus m c") (auto simp: pushcli_Ret popcli_Ret fun_upd_idem)

lemma holding_Ret:
  assumes "ncli (cpus m c) \<ge> 0" "ncli (cpus m c) > 0 \<longrightarrow> \<not> ifl (cpus m c)"
  shows "holding c lk m =
    Ret (locked (lks m lk) \<and> lk_cpu (lks m lk) = Some c)
      (m\<lparr>cpus := (cpus m)(c := (cpus m c)
        \<lparr>intena := if ncli (cpus m c) = 0 then ifl (cpus m c) else intena (cpus m c)\<rparr>)\<rparr>)"
  using push_pop [OF assms] by (simp add: holding_def pushcli_Ret Let_def)

lemma acquire_enter_Ret:
  assumes "ncli (cpus m c) \<ge> 0"
  shows "acquire_enter c lk m =
    (if locked (lks m lk) \<and> lk_cpu (lks m lk) = Some c then Panic (lock_name lk)
     else Ret () (m\<lparr>cpus := (cpus m)(c :=
    \<lparr>ncli = ncli (cpus m c) + 1,
     intena = (if ncli (cpus m c) = 0 then ifl (cpus m c) else intena (cpus m c)),
     ifl = False\<rparr>)\<rparr>))"
  using assms by (simp add: acquire_enter_def pushcli_Ret holding_Ret)

lemma release_enter_Ret:
  assumes "ncli (cpus m c) > 0" "\<not> ifl (cpus m c)"
  shows "release_enter c lk m =
    (if locked (lks m lk) \<and> lk_cpu (lks m lk) = Some c
     then Ret () (m\<lparr>lks := (lks m)(lk := (lks m lk)\<lparr>lk_cpu := None\<rparr>)\<rparr>)
     else Panic ''release'')"
  using assms by (simp add: release_enter_def holding_Ret)

lemma acquire_spin_free: "\<not> locked (lks m lk) \<Longrightarrow> acquire_spin lk m = Some (snd (xchg_locked lk m))"
  by (subst acquire_spin.simps) (simp add: xchg_locked_def)


subsection \<open>Invariant of the interleaving\<close>

definition lspin :: "lsys \<Rightarrow> nat \<Rightarrow> nat" where
  "lspin \<sigma> c = (case lpcs \<sigma> c of Spinning _ \<Rightarrow> 1 | _ \<Rightarrow> 0)"

definition linv :: "lsys \<Rightarrow> bool" where
  "linv \<sigma> \<longleftrightarrow>
     (\<forall>c lk. owns \<sigma> c lk \<longrightarrow> locked (lks (mach \<sigma>) lk)) \<and>
     (\<forall>c c' lk. owns \<sigma> c lk \<longrightarrow> owns \<sigma> c' lk \<longrightarrow> c = c') \<and>
     (\<forall>lk. locked (lks (mach \<sigma>) lk) \<longrightarrow> (\<exists>c. owns \<sigma> c lk)) \<and>
     (\<forall>c lk. lpcs \<sigma> c = Spinning lk \<longrightarrow> \<not> owns \<sigma> c lk) \<and>
     (\<forall>c lk. lpcs \<sigma> c = Got lk \<or> lpcs \<sigma> c = Releasing lk \<longrightarrow> lk_cpu (lks (mach \<sigma>) lk) = None) \<and>
     (\<forall>c. finite {lk. owns \<sigma> c lk} \<and>
          ncli (cpus (mach \<sigma>) c) = int (card {lk. owns \<sigma> c lk} + lspin \<sigma> c)) \<and>
     (\<forall>c. ncli (cpus (mach \<sigma>) c) > 0 \<longrightarrow> \<not> ifl (cpus (mach \<sigma>) c))"

lemma linv_init: "linv init_lsys"
  by (simp add: linv_def init_lsys_def owns_def lspin_def)

lemma linvD:
  assumes "linv \<sigma>"
  shows linv_locked: "owns \<sigma> c lk \<Longrightarrow> locked (lks (mach \<sigma>) lk)"
    and linv_unique: "owns \<sigma> c lk \<Longrightarrow> owns \<sigma> c' lk \<Longrightarrow> c = c'"
    and linv_owner: "locked (lks (mach \<sigma>) lk) \<Longrightarrow> \<exists>c. owns \<sigma> c lk"
    and linv_spin: "lpcs \<sigma> c = Spinning lk \<Longrightarrow> \<not> owns \<sigma> c lk"
    and linv_none: "lpcs \<sigma> c = Got lk \<or> lpcs \<sigma> c = Releasing lk \<Longrightarrow> lk_cpu (lks (mach \<sigma>) lk) = None"
    and linv_finite: "finite {lk. owns \<sigma> c lk}"
    and linv_ncli: "ncli (cpus (mach \<sigma>) c) = int (card {lk. owns \<sigma> c lk} + lspin \<sigma> c)"
    and linv_ifl: "ncli (cpus (mach \<sigma>) c) > 0 \<Longrightarrow> \<not> ifl (cpus (mach \<sigma>) c)"
  using assms unfolding linv_def by blast+

lemma linv_enter:
  assumes inv: "linv \<sigma>" and pc: "lpcs \<sigma> c = Out" and enter: "acquire_enter c lk (mach \<sigma>) = Ret () m"
  shows "linv (\<sigma>\<lparr>mach := m, lpcs := (lpcs \<sigma>)(c := Spinning lk)\<rparr>)" (is "linv ?\<sigma>'")
proof -
  have "ncli (cpus (mach \<sigma>) c) \<ge> 0"
    by (simp add: linv_ncli [OF inv])
  note eq = acquire_enter_Ret [OF this, of lk]
  from eq enter have m: "m = (mach \<sigma>)\<lparr>cpus := (cpus (mach \<sigma>))(c :=
      \<lparr>ncli = ncli (cpus (mach \<sigma>) c) + 1,
       intena = (if ncli (cpus (mach \<sigma>) c) = 0 then ifl (cpus (mach \<sigma>) c)
                 else intena (cpus (mach \<sigma>) c)),
       ifl = False\<rparr>)\<rparr>"
    and free: "\<not> (locked (lks (mach \<sigma>) lk) \<and> lk_cpu (lks (mach \<sigma>) lk) = Some c)"
    by (simp_all split: if_splits)
  from pc m have owns: "owns ?\<sigma>' = owns \<sigma>"
    by (auto simp: owns_def fun_eq_iff)
  from free pc have "\<not> owns \<sigma> c lk"
    using linv_locked [OF inv, of c lk] by (auto simp: owns_def)
  with inv show ?thesis
    unfolding linv_def owns using pc m by (auto simp: lspin_def)
qed

lemma linv_spin_step:
  assumes "linv \<sigma>" "xchg_locked lk (mach \<sigma>) = (True, m)"
  shows "linv (\<sigma>\<lparr>mach := m\<rparr>)"
proof -
  from assms(2) have "m = mach \<sigma>"
    by (cases "lks (mach \<sigma>) lk") (auto simp: xchg_locked_def fun_upd_idem)
  with assms(1) show ?thesis by simp
qed

lemma linv_win:
  assumes inv: "linv \<sigma>" and pc: "lpcs \<sigma> c = Spinning lk"
    and xchg: "xchg_locked lk (mach \<sigma>) = (False, m)"
  shows "linv (\<sigma>\<lparr>mach := m, lpcs := (lpcs \<sigma>)(c := Got lk)\<rparr>)" (is "linv ?\<sigma>'")
proof -
  from xchg have free: "\<not> locked (lks (mach \<sigma>) lk)"
    and m: "m = (mach \<sigma>)\<lparr>lks := (lks (mach \<sigma>))(lk := (lks (mach \<sigma>) lk)\<lparr>locked := True\<rparr>)\<rparr>"
    by (auto simp: xchg_locked_def)
  from m have lks: "lks m = (lks (mach \<sigma>))(lk := (lks (mach \<sigma>) lk)\<lparr>locked := True\<rparr>)"
    and cpus: "cpus m = cpus (mach \<sigma>)"
    by simp_all
  from free have none: "\<not> owns \<sigma> d lk" for d
    using linv_locked [OF inv] by blast
  have owns: "owns ?\<sigma>' d l \<longleftrightarrow> owns \<sigma> d l \<or> (d = c \<and> l = lk)" for d l
    using pc m by (auto simp: owns_def)
  have set: "{l. owns ?\<sigma>' d l} = (if d = c then insert lk {l. owns \<sigma> d l} else {l. owns \<sigma> d l})" for d
    by (auto simp: owns)
  have card: "card {l. owns ?\<sigma>' c l} = card {l. owns \<sigma> c l} + 1"
    using linv_finite [OF inv, of c] none [of c] by (simp add: set)
  have ncli: "ncli (cpus (mach ?\<sigma>') d) = int (card {l. owns ?\<sigma>' d l} + lspin ?\<sigma>' d)" for d
    using linv_ncli [OF inv, of d] card set [of d] pc m by (cases "d = c") (auto simp: lspin_def)
  have none': "lk_cpu (lks (mach \<sigma>) lk) = None"
    using none by (cases "lk_cpu (lks (mach \<sigma>) lk)") (auto simp: owns_def)
  show ?thesis
    unfolding linv_def
  proof (intro conjI)
    show "\<forall>d. finite {l. owns ?\<sigma>' d l} \<and> ncli (cpus (mach ?\<sigma>') d) = int (card {l. owns ?\<sigma>' d l} + lspin ?\<sigma>' d)"
      using ncli linv_finite [OF inv] by (simp add: set)
    show "\<forall>l. locked (lks (mach ?\<sigma>') l) \<longrightarrow> (\<exists>d. owns ?\<sigma>' d l)"
      using linv_owner [OF inv] lks by (auto simp: owns)
    show "\<forall>d l. lpcs ?\<sigma>' d = Got l \<or> lpcs ?\<sigma>' d = Releasing l \<longrightarrow> lk_cpu (lks (mach ?\<sigma>') l) = None"
      using linv_none [OF inv] lks none' by auto
  qed (use inv none lks cpus in \<open>auto simp: linv_def owns\<close>)
qed

lemma linv_stamp:
  assumes inv: "linv \<sigma>" and pc: "lpcs \<sigma> c = Got lk"
  shows "linv (\<sigma>\<lparr>mach := acquire_record c lk (mach \<sigma>), lpcs := (lpcs \<sigma>)(c := Out)\<rparr>)" (is "linv ?\<sigma>'")
proof -
  have none: "lk_cpu (lks (mach \<sigma>) lk) = None"
    using linv_none [OF inv] pc by blast
  have only: "d = c" if "lpcs \<sigma> d = Got lk \<or> lpcs \<sigma> d = Releasing lk" for d
    using linv_unique [OF inv, of d lk c] that pc by (auto simp: owns_def)
  have owns: "owns ?\<sigma>' = owns \<sigma>"
    using pc none only by (auto simp: owns_def acquire_record_def fun_eq_iff)
  have ncli: "ncli (cpus (mach ?\<sigma>') d) = int (card {l. owns \<sigma> d l} + lspin ?\<sigma>' d)" for d
    using linv_ncli [OF inv, of d] pc by (auto simp: lspin_def acquire_record_def)
  from inv show ?thesis
    unfolding linv_def owns using ncli only by (auto simp: acquire_record_def)
qed

lemma linv_unlock:
  assumes inv: "linv \<sigma>" and pc: "lpcs \<sigma> c = Out" and rel: "release_enter c lk (mach \<sigma>) = Ret () m"
  shows "linv (\<sigma>\<lparr>mach := m, lpcs := (lpcs \<sigma>)(c := Releasing lk)\<rparr>)" (is "linv ?\<sigma>'")
proof -
  have nonneg: "ncli (cpus (mach \<sigma>) c) \<ge> 0" "ncli (cpus (mach \<sigma>) c) > 0 \<longrightarrow> \<not> ifl (cpus (mach \<sigma>) c)"
    using linv_ncli [OF inv, of c] linv_ifl [OF inv, of c] by auto
  have mine: "lk_cpu (lks (mach \<sigma>) lk) = Some c"
    using rel by (auto simp: release_enter_def holding_Ret [OF nonneg] split: if_splits)
  then have "lk \<in> {l. owns \<sigma> c l}"
    by (simp add: owns_def)
  then have "card {l. owns \<sigma> c l} > 0"
    using linv_finite [OF inv, of c] by (auto simp: card_gt_0_iff)
  then have pos: "ncli (cpus (mach \<sigma>) c) > 0"
    using linv_ncli [OF inv, of c] by simp
  have m: "m = (mach \<sigma>)\<lparr>lks := (lks (mach \<sigma>))(lk := (lks (mach \<sigma>) lk)\<lparr>lk_cpu := None\<rparr>)\<rparr>"
    using rel release_enter_Ret [OF pos linv_ifl [OF inv pos], of lk] by (simp split: if_splits)
  have owns: "owns ?\<sigma>' = owns \<sigma>"
    using pc mine m by (auto simp: owns_def fun_eq_iff)
  have ncli: "ncli (cpus (mach ?\<sigma>') d) = int (card {l. owns \<sigma> d l} + lspin ?\<sigma>' d)" for d
    using linv_ncli [OF inv, of d] pc m by (auto simp: lspin_def)
  from inv show ?thesis
    unfolding linv_def owns using ncli m by auto
qed

lemma linv_leave:
  assumes inv: "linv \<sigma>" and pc: "lpcs \<sigma> c = Releasing lk"
    and rel: "release_exit c lk (mach \<sigma>) = Ret () m"
  shows "linv (\<sigma>\<lparr>mach := m, lpcs := (lpcs \<sigma>)(c := Out)\<rparr>)" (is "linv ?\<sigma>'")
proof -
  let ?k = "cpus (mach \<sigma>) c"
  from rel have "\<not> ifl ?k" "ncli ?k > 0"
    using popcli_RetD unfolding release_exit_def by fastforce+
  with rel have m: "m = (mach \<sigma>)\<lparr>lks := (lks (mach \<sigma>))(lk := (lks (mach \<sigma>) lk)\<lparr>locked := False\<rparr>),
      cpus := (cpus (mach \<sigma>))(c := \<lparr>ncli = ncli ?k - 1, intena = intena ?k,
        ifl = (ncli ?k = 1 \<and> intena ?k)\<rparr>)\<rparr>"
    by (simp add: release_exit_def popcli_Ret)
  from m have lks: "lks m = (lks (mach \<sigma>))(lk := (lks (mach \<sigma>) lk)\<lparr>locked := False\<rparr>)"
    and cpus: "cpus m = (cpus (mach \<sigma>))(c := \<lparr>ncli = ncli ?k - 1, intena = intena ?k,
        ifl = (ncli ?k = 1 \<and> intena ?k)\<rparr>)"
    by simp_all
  have none: "lk_cpu (lks (mach \<sigma>) lk) = None"
    using linv_none [OF inv] pc by blast
  have mine: "owns \<sigma> c lk"
    using pc by (simp add: owns_def)
  have others: "\<not> owns \<sigma> d lk" if "d \<noteq> c" for d
    using linv_unique [OF inv mine] that by blast
  have owns: "owns ?\<sigma>' d l \<longleftrightarrow> owns \<sigma> d l \<and> l \<noteq> lk" for d l
    using pc none others [of d] m by (cases "d = c") (auto simp: owns_def)
  have set: "{l. owns ?\<sigma>' d l} = {l. owns \<sigma> d l} - {lk}" for d
    by (auto simp: owns)
  have card: "card {l. owns ?\<sigma>' c l} = card {l. owns \<sigma> c l} - 1" "card {l. owns \<sigma> c l} > 0"
    using linv_finite [OF inv, of c] mine by (auto simp: set card_gt_0_iff)
  have same: "{l. owns ?\<sigma>' d l} = {l. owns \<sigma> d l}" if "d \<noteq> c" for d
    using others [OF that] by (auto simp: owns)
  have ncli: "ncli (cpus (mach ?\<sigma>') d) = int (card {l. owns ?\<sigma>' d l} + lspin ?\<sigma>' d)" for d
    using linv_ncli [OF inv, of d] card same [of d] pc m by (cases "d = c") (auto simp: lspin_def)
  show ?thesis
    unfolding linv_def
  proof (intro conjI)
    show "\<forall>d. finite {l. owns ?\<sigma>' d l} \<and> ncli (cpus (mach ?\<sigma>') d) = int (card {l. owns ?\<sigma>' d l} + lspin ?\<sigma>' d)"
      using ncli linv_finite [OF inv] by (simp add: set)
    show "\<forall>d. ncli (cpus (mach ?\<sigma>') d) > 0 \<longrightarrow> \<not> ifl (cpus (mach ?\<sigma>') d)"
      using linv_ifl [OF inv] cpus by auto
  qed (use inv lks in \<open>auto simp: linv_def owns\<close>)
qed

lemma linv_flags:
  assumes "linv \<sigma>" "ncli (cpus (mach \<sigma>) c) = 0"
  shows "linv (\<sigma>\<lparr>mach := (mach \<sigma>)\<lparr>cpus := (cpus (mach \<sigma>))(c := (cpus (mach \<sigma>) c)\<lparr>ifl := b\<rparr>)\<rparr>\<rparr>)"
    (is "linv ?\<sigma>'")
proof -
  have "owns ?\<sigma>' = owns \<sigma>" "lspin ?\<sigma>' = lspin \<sigma>"
    by (auto simp: owns_def lspin_def fun_eq_iff)
  with assms show ?thesis
    unfolding linv_def by auto
qed

lemma lstep_linv: "lstep \<sigma> \<sigma>' \<Longrightarrow> linv \<sigma> \<Longrightarrow> linv \<sigma>'"
  by (induction rule: lstep.induct)
    (blast intro: linv_enter linv_spin_step linv_win linv_stamp linv_unlock linv_leave linv_flags)+

lemma lreach_linv: "lreach \<sigma> \<Longrightarrow> linv \<sigma>"
  by (induction rule: lreach.induct) (blast intro: linv_init lstep_linv)+

subsection \<open>Refinement of the per-CPU view\<close>

lemma cpu_holdsD:
  assumes "cpu_holds c m hs"
  shows "ncli (cpus m c) \<ge> 0" "ncli (cpus m c) > 0 \<longrightarrow> \<not> ifl (cpus m c)"
  using assms by (auto simp: cpu_holds_def)

lemma acquire_cpu_free:
  assumes "cpu_holds c m hs" "\<not> locked (lks m lk)"
  obtains m' where "acquire_cpu c lk m = Some (Ret () m')" "cpu_holds c m' (lk # hs)"
proof
  let ?k = "cpus m c"
  let ?m1 = "m\<lparr>cpus := (cpus m)(c := \<lparr>ncli = ncli ?k + 1,
     intena = (if ncli ?k = 0 then ifl ?k else intena ?k), ifl = False\<rparr>)\<rparr>"
  let ?m2 = "?m1\<lparr>lks := (lks m)(lk := (lks m lk)\<lparr>locked := True, lk_cpu := Some c\<rparr>)\<rparr>"
  have "acquire_spin lk ?m1 = Some (snd (xchg_locked lk ?m1))"
    using assms(2) by (intro acquire_spin_free) simp
  then show "acquire_cpu c lk m = Some (Ret () ?m2)"
    using assms(2) by (simp add: acquire_cpu_def acquire_enter_Ret [OF cpu_holdsD(1) [OF assms(1)]]
        xchg_locked_def acquire_record_def)
  show "cpu_holds c ?m2 (lk # hs)"
    using assms by (auto simp: cpu_holds_def)
qed

lemma acquire_cpu_held:
  assumes "cpu_holds c m hs" "lk \<in> set hs"
  shows "acquire_cpu c lk m = Some (Panic (lock_name lk))"
proof -
  have "locked (lks m lk) \<and> lk_cpu (lks m lk) = Some c"
    using assms unfolding cpu_holds_def by blast
  then show ?thesis
    by (simp add: acquire_cpu_def acquire_enter_Ret [OF cpu_holdsD(1) [OF assms(1)]])
qed

lemma release_cpu_held:
  assumes "cpu_holds c m hs" "lk \<in> set hs"
  obtains m' where "release_cpu c lk m = Ret () m'" "cpu_holds c m' (remove1 lk hs)"
proof
  let ?k = "cpus m c"
  let ?m1 = "m\<lparr>lks := (lks m)(lk := (lks m lk)\<lparr>lk_cpu := None, locked := False\<rparr>)\<rparr>"
  let ?m2 = "?m1\<lparr>cpus := (cpus m)(c := \<lparr>ncli = ncli ?k - 1, intena = intena ?k,
     ifl = (ncli ?k = 1 \<and> intena ?k)\<rparr>)\<rparr>"
  have mine: "locked (lks m lk) \<and> lk_cpu (lks m lk) = Some c"
    using assms unfolding cpu_holds_def by blast
  have "hs \<noteq> []" "length hs > 0"
    using assms(2) by auto
  then have pos: "ncli ?k > 0" "\<not> ifl ?k"
    using assms(1) unfolding cpu_holds_def by auto
  with mine show "release_cpu c lk m = Ret () ?m2"
    by (simp add: release_cpu_def release_exit_def release_enter_Ret popcli_Ret)
  have "remove1 lk hs \<noteq> [] \<Longrightarrow> length hs \<noteq> 1"
    using assms(2) by (cases hs) auto
  with assms pos show "cpu_holds c ?m2 (remove1 lk hs)"
    by (auto simp: cpu_holds_def length_remove1 of_nat_diff Suc_le_eq)
qed

lemma release_cpu_not_held:
  assumes "cpu_holds c m hs" "lk \<notin> set hs"
  shows "release_cpu c lk m = Panic ''release''"
proof -
  have "\<not> (locked (lks m lk) \<and> lk_cpu (lks m lk) = Some c)"
    using assms unfolding cpu_holds_def by blast
  then show ?thesis
    by (auto simp: release_cpu_def release_enter_def holding_Ret [OF cpu_holdsD [OF assms(1)]])
qed

section \<open>Critical sections\<close>

text \<open>
  What the other components use of a lock: taking one that is not held succeeds and adds it to
  the held locks, giving back the last one taken restores them.
\<close>

locale lock_discipline =
  fixes acq :: "lock \<Rightarrow> 's \<Rightarrow> (unit, 's) outcome"
    and rel :: "lock \<Rightarrow> 's \<Rightarrow> (unit, 's) outcome"
    and locks_of :: "'s \<Rightarrow> lock list"
  assumes acq_free: "lk \<notin> set (locks_of s) \<Longrightarrow> \<exists>s'. acq lk s = Ret () s' \<and> locks_of s' = lk # locks_of s"
    and acq_twice: "lk \<in> set (locks_of s) \<Longrightarrow> acq lk s = Panic (lock_name lk)"
    and rel_top: "locks_of s = lk # hs \<Longrightarrow> \<exists>s'. rel lk s = Ret () s' \<and> locks_of s' = hs"
    and rel_free: "lk \<notin> set (locks_of s) \<Longrightarrow> rel lk s = Panic ''release''"
begin

definition critical :: "lock \<Rightarrow> ('s \<Rightarrow> ('r, 's) outcome) \<Rightarrow> 's \<Rightarrow> ('r, 's) outcome" where
  "critical lk body s =
     kbind (acq lk s) (\<lambda>_ s. kbind (body s) (\<lambda>r s. kbind (rel lk s) (\<lambda>_ s. Ret r s)))"

lemma critical_balanced:
  assumes "lk \<notin> set (locks_of s)"
    and body: "\<And>s. \<exists>r s'. body s = Ret r s' \<and> locks_of s' = locks_of s"
  shows "\<exists>r s'. critical lk body s = Ret r s' \<and> locks_of s' = locks_of s"
proof -
  from acq_free [OF assms(1)] obtain s1 where "acq lk s = Ret () s1" and 1: "locks_of s1 = lk # locks_of s"
    by blast
  moreover from body [of s1] obtain r s2 where "body s1 = Ret r s2" and 2: "locks_of s2 = locks_of s1"
    by blast
  moreover from rel_top [of s2 lk "locks_of s"] 1 2 obtain s3
    where "rel lk s2 = Ret () s3" "locks_of s3 = locks_of s"
    by auto
  ultimately show ?thesis
    by (simp add: critical_def)
qed

lemma critical_nested_panics:
  "lk \<in> set (locks_of s) \<Longrightarrow> critical lk body s = Panic (lock_name lk)"
  by (simp add: critical_def acq_twice)

end

interpretation kl: lock_discipline acquire release held
  by unfold_locales (auto simp: acquire_def release_def)

lemma acquire_Ret [simp]: "lk \<notin> set (held s) \<Longrightarrow> acquire lk s = Ret () (s\<lparr>held := lk # held s\<rparr>)"
  by (simp add: acquire_def)

lemma acquire_Panic [simp]: "lk \<in> set (held s) \<Longrightarrow> acquire lk s = Panic (lock_name lk)"
  by (simp add: acquire_def)

lemma release_Ret [simp]: "held s = lk # hs \<Longrightarrow> release lk s = Ret () (s\<lparr>held := hs\<rparr>)"
  by (simp add: release_def)

section \<open>Properties\<close>

text \<open>
  C1: In every reachable state of any number of CPUs interleaving the steps of acquire and
  release, two CPUs never own the same spin lock, a CPU that owns one runs with interrupts off,
  and a CPU spinning on a lock does not own it.
\<close>

theorem spinlock_mutual_exclusion:
  assumes "lreach \<sigma>" and "owns \<sigma> c lk"
  shows "(owns \<sigma> c' lk \<longrightarrow> c' = c) \<and> \<not> ifl (cpus (mach \<sigma>) c) \<and> lpcs \<sigma> c \<noteq> Spinning lk"
proof -
  note inv = lreach_linv [OF assms(1)]
  have "card {l. owns \<sigma> c l} > 0"
    using assms(2) linv_finite [OF inv, of c] by (auto simp: card_gt_0_iff)
  then have "ncli (cpus (mach \<sigma>) c) > 0"
    by (simp add: linv_ncli [OF inv])
  then show ?thesis
    using linv_ifl [OF inv] linv_unique [OF inv _ assms(2)] linv_spin [OF inv] assms(2) by blast
qed

lemma lreach_example:
  "lreach \<lparr>mach = \<lparr>cpus = (\<lambda>_. \<lparr>ncli = 0, intena = False, ifl = False\<rparr>)
                     (0 := \<lparr>ncli = 1, intena = False, ifl = False\<rparr>),
                    lks = (\<lambda>_. \<lparr>locked = False, lk_cpu = None\<rparr>)
                     (LkPtable := \<lparr>locked = True, lk_cpu = None\<rparr>)\<rparr>,
           lpcs = (\<lambda>_. Out)(0 := Got LkPtable)\<rparr>"
proof -
  let ?m1 = "(mach init_lsys)\<lparr>cpus := (cpus (mach init_lsys))
     (0 := \<lparr>ncli = 1, intena = False, ifl = False\<rparr>)\<rparr>"
  have "lstep init_lsys (init_lsys\<lparr>mach := ?m1, lpcs := (lpcs init_lsys)(0 := Spinning LkPtable)\<rparr>)"
    by (rule lstep.enter) (simp_all add: init_lsys_def acquire_enter_Ret)
  from lreach.step [OF lreach.start this]
  show ?thesis
    by (rule lreach.step)
      (use lstep.win [of "init_lsys\<lparr>mach := ?m1, lpcs := (lpcs init_lsys)(0 := Spinning LkPtable)\<rparr>" 0 LkPtable]
        in \<open>simp add: init_lsys_def xchg_locked_def\<close>)
qed

theorem spinlock_mutual_exclusion_witness:
  "\<exists>\<sigma>. lreach \<sigma> \<and> owns \<sigma> 0 LkPtable \<and> \<not> owns \<sigma> 1 LkPtable \<and> \<not> ifl (cpus (mach \<sigma>) 0)"
proof -
  note r = lreach_example
  have o: "owns \<lparr>mach = \<lparr>cpus = (\<lambda>_. \<lparr>ncli = 0, intena = False, ifl = False\<rparr>)
                     (0 := \<lparr>ncli = 1, intena = False, ifl = False\<rparr>),
                    lks = (\<lambda>_. \<lparr>locked = False, lk_cpu = None\<rparr>)
                     (LkPtable := \<lparr>locked = True, lk_cpu = None\<rparr>)\<rparr>,
           lpcs = (\<lambda>_. Out)(0 := Got LkPtable)\<rparr> 0 LkPtable"
    by (simp add: owns_def)
  from spinlock_mutual_exclusion [OF r o, of 1] r o show ?thesis
    by (metis zero_neq_one)
qed

text \<open>
  C2: The list of held locks that the other components work with is refined by the code: when a
  CPU's list agrees with the machine and no other CPU has the lock, acquire on the list and
  acquire in the code agree (success, and the panic on a lock already held), and so do release
  on the list and release in the code, panics included.
\<close>

theorem acquire_release_refine:
  assumes "cpu_holds c m (held s)" and "lk \<in> set (held s) \<or> \<not> locked (lks m lk)"
  shows "(case acquire lk s of
            Ret _ s' \<Rightarrow> \<exists>m'. acquire_cpu c lk m = Some (Ret () m') \<and> cpu_holds c m' (held s')
          | Panic msg \<Rightarrow> acquire_cpu c lk m = Some (Panic msg)
          | _ \<Rightarrow> False) \<and>
         (case release lk s of
            Ret _ s' \<Rightarrow> \<exists>m'. release_cpu c lk m = Ret () m' \<and> cpu_holds c m' (held s')
          | Panic msg \<Rightarrow> release_cpu c lk m = Panic msg
          | _ \<Rightarrow> False)"
proof (cases "lk \<in> set (held s)")
  case True
  with assms(1) release_cpu_held [OF assms(1) True] show ?thesis
    by (auto simp: acquire_cpu_held release_def)
next
  case False
  with assms acquire_cpu_free [OF assms(1)] show ?thesis
    by (auto simp: release_cpu_not_held release_def)
qed

theorem acquire_release_refine_witness:
  "\<exists>m. cpu_holds 0 (mach init_lsys) [] \<and>
     acquire_cpu 0 LkKmem (mach init_lsys) = Some (Ret () m) \<and> cpu_holds 0 m [LkKmem]"
proof -
  have h: "cpu_holds 0 (mach init_lsys) (held \<lparr>held = []\<rparr>)"
    by (simp add: cpu_holds_def init_lsys_def)
  have f: "LkKmem \<in> set (held \<lparr>held = []\<rparr>) \<or> \<not> locked (lks (mach init_lsys) LkKmem)"
    by (simp add: init_lsys_def)
  from acquire_release_refine [OF h f] h show ?thesis
    by auto
qed

end
