(* ===== verification/Kalloc.thy ===== *)
theory Kalloc
  imports Spinlock
begin

unbundle bit_operations_syntax

text \<open>
  The physical page allocator of \<open>kalloc.c\<close> and the address macros of \<open>memlayout.h\<close> and
  \<open>mmu.h\<close> it uses. Kernel memory is a store of 32-bit words; the free list is threaded through the
  first word of each free page, as \<open>struct run\<close> is. The invariant says that the list the code
  walks is a list of distinct, valid pages, and the interface of the allocator is the locale
  \<open>page_pool\<close>.
\<close>

section \<open>Addresses\<close>

definition KERNBASE :: uint32 where "KERNBASE = 0x80000000"
definition PHYSTOP :: uint32 where "PHYSTOP = 0xE000000"
definition EXTMEM :: uint32 where "EXTMEM = 0x100000"
definition DEVSPACE :: uint32 where "DEVSPACE = 0xFE000000"
definition PGSIZE :: uint32 where "PGSIZE = 4096"

definition V2P :: "uint32 \<Rightarrow> uint32" where "V2P a = a - KERNBASE"
definition P2V :: "uint32 \<Rightarrow> uint32" where "P2V a = a + KERNBASE"
definition PGROUNDUP :: "uint32 \<Rightarrow> uint32" where "PGROUNDUP sz = (sz + PGSIZE - 1) AND NOT (PGSIZE - 1)"
definition PGROUNDDOWN :: "uint32 \<Rightarrow> uint32" where "PGROUNDDOWN a = a AND NOT (PGSIZE - 1)"

lemmas layout_defs = KERNBASE_def PHYSTOP_def EXTMEM_def DEVSPACE_def PGSIZE_def V2P_def P2V_def

lemma PGROUNDDOWN_mask: "PGROUNDDOWN a = a AND NOT (mask 12)"
proof -
  have "PGSIZE - 1 = mask 12"
    by (simp add: PGSIZE_def mask_eq_exp_minus_1)
  then show ?thesis by (simp only: PGROUNDDOWN_def)
qed

lemma mod_PGSIZE: "a mod PGSIZE = take_bit 12 a"
  by (simp add: PGSIZE_def take_bit_eq_mod)

lemma div_PGSIZE: "a div PGSIZE = drop_bit 12 a"
  by (simp add: PGSIZE_def drop_bit_eq_div)

lemma PGROUNDDOWN_aligned: "PGROUNDDOWN a mod PGSIZE = 0"
  unfolding PGROUNDDOWN_mask mod_PGSIZE by (rule bit_eqI) (simp add: bit_simps)

lemma PGROUNDUP_aligned: "PGROUNDUP a mod PGSIZE = 0"
  using PGROUNDDOWN_aligned [of "a + PGSIZE - 1"] by (simp only: PGROUNDUP_def PGROUNDDOWN_def)

lemma PGROUNDDOWN_split: "PGROUNDDOWN a + a mod PGSIZE = a"
proof -
  have "(a AND NOT (mask 12)) + take_bit 12 a = (a AND NOT (mask 12)) OR take_bit 12 a"
    by (rule disjunctive_add_eq_or, rule bit_eqI) (auto simp: bit_simps)
  also have "\<dots> = a"
    by (rule bit_eqI) (auto simp: bit_simps)
  finally show ?thesis
    by (simp only: PGROUNDDOWN_mask mod_PGSIZE)
qed

lemma PGROUNDDOWN_div: "PGROUNDDOWN a div PGSIZE = a div PGSIZE"
  unfolding PGROUNDDOWN_mask div_PGSIZE
  by (rule bit_eqI) (auto simp: bit_simps dest: bit_imp_le_length)

section \<open>State and operations\<close>

text \<open>\<open>kend\<close> is the linker symbol \<open>end\<close>, the first address after the kernel.\<close>

record kmem_state = kbase +
  use_lock :: bool
  freelist :: uint32
  mem :: "uint32 \<Rightarrow> uint32"
  kend :: uint32

text \<open>\<open>memset(v, c, PGSIZE)\<close> on a page, each of its words set to \<open>w\<close> (four copies of the byte).\<close>

definition memset_page :: "(uint32 \<Rightarrow> uint32) \<Rightarrow> uint32 \<Rightarrow> uint32 \<Rightarrow> uint32 \<Rightarrow> uint32" where
  "memset_page m v w = (\<lambda>a. if a div PGSIZE = v div PGSIZE then w else m a)"

definition kfree :: "uint32 \<Rightarrow> 'a kmem_state_scheme \<Rightarrow> (unit, 'a kmem_state_scheme) outcome" where
  "kfree v s =
     (if v mod PGSIZE \<noteq> 0 \<or> v < kend s \<or> V2P v \<ge> PHYSTOP then Panic ''kfree''
      else
        let s = s\<lparr>mem := memset_page (mem s) v 0x01010101\<rparr>
        in kbind (if use_lock s then acquire LkKmem s else Ret () s) (\<lambda>_ s.
             let s = s\<lparr>mem := (mem s)(v := freelist s)\<rparr>;
                 s = s\<lparr>freelist := v\<rparr>
             in if use_lock s then release LkKmem s else Ret () s))"

definition kalloc :: "'a kmem_state_scheme \<Rightarrow> (uint32, 'a kmem_state_scheme) outcome" where
  "kalloc s =
     kbind (if use_lock s then acquire LkKmem s else Ret () s) (\<lambda>_ s.
       let r = freelist s;
           s = (if r \<noteq> 0 then s\<lparr>freelist := mem s r\<rparr> else s)
       in kbind (if use_lock s then release LkKmem s else Ret () s) (\<lambda>_ s. Ret r s))"

lemma kfree_RetD:
  assumes "kfree v s = Ret r s'"
  shows "v mod PGSIZE = 0" "kend s \<le> v" "V2P v < PHYSTOP"
  using assms by (auto simp: kfree_def not_less not_le split: if_splits)

lemma V2P_below_PHYSTOP:
  assumes "V2P v < PHYSTOP"
  shows "KERNBASE \<le> v" "unat v < 0x8E000000"
proof -
  have less: "unat (V2P v) < 0xE000000"
    using assms by (simp add: word_less_nat_alt PHYSTOP_def)
  have "unat v = unat (V2P v + KERNBASE)"
    by (simp add: V2P_def)
  also have "\<dots> = (unat (V2P v) + 0x80000000) mod 2 ^ 32"
    by (simp only: unat_word_ariths KERNBASE_def) simp
  also have "\<dots> = unat (V2P v) + 0x80000000"
    using less by simp
  finally have eq: "unat v = unat (V2P v) + 0x80000000" .
  with less show "KERNBASE \<le> v" "unat v < 0x8E000000"
    by (simp_all add: KERNBASE_def word_le_nat_alt)
qed

lemma page_step:
  assumes "V2P v < PHYSTOP"
  shows "unat (v + PGSIZE) = unat v + 4096"
proof -
  have "unat v + unat PGSIZE < 2 ^ LENGTH(32)"
    using V2P_below_PHYSTOP(2) [OF assms] by (simp add: PGSIZE_def)
  then show ?thesis
    by (simp add: unat_add_lem [THEN iffD1] PGSIZE_def)
qed

text \<open>
  The loop of \<open>freerange\<close>. It ends because \<open>kfree\<close> returns only for pages below
  \<open>P2V(PHYSTOP)\<close>, so the pointer never wraps around.
\<close>

function freerange_loop :: "uint32 \<Rightarrow> uint32 \<Rightarrow> 'a kmem_state_scheme \<Rightarrow> (unit, 'a kmem_state_scheme) outcome"
where
  "freerange_loop p vend s =
     (if p + PGSIZE \<le> vend then kbind (kfree p s) (\<lambda>_ s. freerange_loop (p + PGSIZE) vend s)
      else Ret () s)"
  by pat_completeness auto
termination
proof (relation "measure (\<lambda>(p, vend, s). 2 ^ 32 - unat p)")
  fix p vend :: uint32 and s :: "'a kmem_state_scheme" and r s'
  assume "kfree p s = Ret r s'"
  then have "V2P p < PHYSTOP" by (rule kfree_RetD)
  then have "unat (p + PGSIZE) = unat p + 4096" "unat p < 0x8E000000"
    by (rule page_step, rule V2P_below_PHYSTOP)
  then show "((p + PGSIZE, vend, s'), (p, vend, s)) \<in> measure (\<lambda>(p, vend, s). 2 ^ 32 - unat p)"
    by simp
qed simp

declare freerange_loop.simps [simp del]

definition freerange :: "uint32 \<Rightarrow> uint32 \<Rightarrow> 'a kmem_state_scheme \<Rightarrow> (unit, 'a kmem_state_scheme) outcome" where
  "freerange vstart vend s = freerange_loop (PGROUNDUP vstart) vend s"

definition kinit1 :: "uint32 \<Rightarrow> uint32 \<Rightarrow> 'a kmem_state_scheme \<Rightarrow> (unit, 'a kmem_state_scheme) outcome" where
  "kinit1 vstart vend s = freerange vstart vend (s\<lparr>use_lock := False\<rparr>)"

definition kinit2 :: "uint32 \<Rightarrow> uint32 \<Rightarrow> 'a kmem_state_scheme \<Rightarrow> (unit, 'a kmem_state_scheme) outcome" where
  "kinit2 vstart vend s = kbind (freerange vstart vend s) (\<lambda>_ s. Ret () (s\<lparr>use_lock := True\<rparr>))"

section \<open>The free list\<close>

fun chain :: "(uint32 \<Rightarrow> uint32) \<Rightarrow> uint32 \<Rightarrow> uint32 list \<Rightarrow> bool" where
  "chain m p [] \<longleftrightarrow> p = 0"
| "chain m p (x # xs) \<longleftrightarrow> p = x \<and> x \<noteq> 0 \<and> chain m (m x) xs"

definition good_page :: "'a kmem_state_scheme \<Rightarrow> uint32 \<Rightarrow> bool" where
  "good_page s v \<longleftrightarrow> v mod PGSIZE = 0 \<and> kend s \<le> v \<and> V2P v < PHYSTOP"

text \<open>The list \<open>xs\<close> is what a walk from \<open>kmem.freelist\<close> visits: distinct valid pages.\<close>

definition free_pages :: "'a kmem_state_scheme \<Rightarrow> uint32 list \<Rightarrow> bool" where
  "free_pages s xs \<longleftrightarrow> chain (mem s) (freelist s) xs \<and> distinct xs \<and> (\<forall>x\<in>set xs. good_page s x)"

text \<open>The lock may be taken: \<open>kmem.lock\<close> is not held by the caller, or is not in use yet.\<close>

definition kmem_unlocked :: "'a kmem_state_scheme \<Rightarrow> bool" where
  "kmem_unlocked s \<longleftrightarrow> (use_lock s \<longrightarrow> LkKmem \<notin> set (held s))"

lemma good_page_nonzero: "good_page s v \<Longrightarrow> v \<noteq> 0"
  by (auto simp: good_page_def layout_defs)

lemma good_page_simps [simp]:
  "good_page (s\<lparr>mem := m\<rparr>) = good_page s" "good_page (s\<lparr>freelist := f\<rparr>) = good_page s"
  "good_page (s\<lparr>held := h\<rparr>) = good_page s" "good_page (s\<lparr>use_lock := u\<rparr>) = good_page s"
  by (simp_all add: good_page_def fun_eq_iff)

lemma good_page_div_inj:
  assumes "good_page s v" "good_page s w" "v div PGSIZE = w div PGSIZE"
  shows "v = w"
  by (metis assms good_page_def div_mult_mod_eq)

lemma chain_cong: "(\<And>x. x \<in> set xs \<Longrightarrow> m x = m' x) \<Longrightarrow> chain m p xs = chain m' p xs"
  by (induction xs arbitrary: p) auto

lemma chain_head: "chain m p xs \<Longrightarrow> p = (case xs of [] \<Rightarrow> 0 | x # _ \<Rightarrow> x)"
  by (cases xs) auto

lemma chain_unique: "chain m p xs \<Longrightarrow> chain m p ys \<Longrightarrow> xs = ys"
proof (induction xs arbitrary: p ys)
  case Nil
  then show ?case by (cases ys) auto
next
  case (Cons x xs)
  then show ?case by (cases ys) auto
qed

text \<open>The free list survives any write outside the free pages.\<close>

lemma free_pages_write:
  assumes "free_pages s xs" "\<And>x. x \<in> set xs \<Longrightarrow> m x = mem s x"
  shows "free_pages (s\<lparr>mem := m\<rparr>) xs"
  using assms chain_cong [of xs "mem s" m] by (simp add: free_pages_def)

section \<open>Functional behaviour\<close>

lemma kfree_Panic: "\<not> good_page s v \<Longrightarrow> kfree v s = Panic ''kfree''"
  by (auto simp: kfree_def good_page_def not_less not_le)

lemma kfree_Ret:
  assumes "good_page s v" "kmem_unlocked s"
  shows "kfree v s =
    Ret () (s\<lparr>mem := (memset_page (mem s) v 0x01010101)(v := freelist s), freelist := v\<rparr>)"
  using assms by (auto simp: kfree_def good_page_def kmem_unlocked_def Let_def)

lemma kalloc_Ret:
  assumes "kmem_unlocked s"
  shows "kalloc s =
    Ret (freelist s) (if freelist s = 0 then s else s\<lparr>freelist := mem s (freelist s)\<rparr>)"
  using assms by (auto simp: kalloc_def kmem_unlocked_def Let_def)

lemma kmem_unlocked_simps [simp]:
  "kmem_unlocked (s\<lparr>mem := m\<rparr>) = kmem_unlocked s"
  "kmem_unlocked (s\<lparr>freelist := f\<rparr>) = kmem_unlocked s"
  by (simp_all add: kmem_unlocked_def)

lemma free_pages_kfree:
  assumes "free_pages s xs" "good_page s v" "v \<notin> set xs"
  shows "free_pages (s\<lparr>mem := (memset_page (mem s) v 0x01010101)(v := freelist s), freelist := v\<rparr>) (v # xs)"
proof -
  let ?m = "(memset_page (mem s) v 0x01010101)(v := freelist s)"
  have "?m x = mem s x" if "x \<in> set xs" for x
  proof -
    have "good_page s x" "x \<noteq> v"
      using that assms by (auto simp: free_pages_def)
    with good_page_div_inj [OF _ assms(2)] show ?thesis
      by (auto simp: memset_page_def)
  qed
  with chain_cong [of xs ?m "mem s"] have "chain ?m (freelist s) xs"
    using assms(1) by (simp add: free_pages_def)
  with assms good_page_nonzero [OF assms(2)] show ?thesis
    by (simp add: free_pages_def)
qed

lemma free_pages_kalloc:
  assumes "free_pages s (x # xs)"
  shows "freelist s = x" "x \<noteq> 0" "free_pages (s\<lparr>freelist := mem s x\<rparr>) xs"
  using assms by (auto simp: free_pages_def)

section \<open>The allocator as an interface\<close>

locale page_pool =
  fixes palloc :: "'s \<Rightarrow> (uint32, 's) outcome"
    and pfree :: "uint32 \<Rightarrow> 's \<Rightarrow> (unit, 's) outcome"
    and pool :: "'s \<Rightarrow> uint32 list \<Rightarrow> bool"
    and okpage :: "'s \<Rightarrow> uint32 \<Rightarrow> bool"
    and ready :: "'s \<Rightarrow> bool"
  assumes pool_pages: "pool s xs \<Longrightarrow> x \<in> set xs \<Longrightarrow> okpage s x \<and> x \<noteq> 0"
    and pool_distinct: "pool s xs \<Longrightarrow> distinct xs"
    and palloc_empty: "ready s \<Longrightarrow> pool s [] \<Longrightarrow> palloc s = Ret 0 s"
    and palloc_page: "ready s \<Longrightarrow> pool s (x # xs) \<Longrightarrow>
      \<exists>s'. palloc s = Ret x s' \<and> pool s' xs \<and> ready s' \<and> okpage s' = okpage s"
    and pfree_page: "ready s \<Longrightarrow> pool s xs \<Longrightarrow> okpage s v \<Longrightarrow> v \<notin> set xs \<Longrightarrow>
      \<exists>s'. pfree v s = Ret () s' \<and> pool s' (v # xs) \<and> ready s' \<and> okpage s' = okpage s"
    and pfree_bad: "\<not> okpage s v \<Longrightarrow> pfree v s = Panic ''kfree''"
begin

text \<open>Freeing a page right after allocating it gives the pool back.\<close>

lemma palloc_pfree:
  assumes "ready s" "pool s xs" "xs \<noteq> []"
  shows "\<exists>v s1 s2. palloc s = Ret v s1 \<and> v \<noteq> 0 \<and> pfree v s1 = Ret () s2 \<and> pool s2 xs"
proof -
  from assms(3) obtain x ys where xs: "xs = x # ys" by (cases xs) auto
  with palloc_page assms obtain s1 where s1: "palloc s = Ret x s1" "pool s1 ys" "ready s1" "okpage s1 = okpage s"
    by blast
  moreover have "okpage s x" "x \<noteq> 0" "x \<notin> set ys"
    using pool_pages [OF assms(2)] pool_distinct [OF assms(2)] xs by auto
  ultimately show ?thesis
    using pfree_page [of s1 ys x] xs by auto
qed

text \<open>A client that gives back a list of pages one by one.\<close>

fun pfree_all :: "uint32 list \<Rightarrow> 's \<Rightarrow> (unit, 's) outcome" where
  "pfree_all [] s = Ret () s"
| "pfree_all (v # vs) s = kbind (pfree v s) (\<lambda>_ s. pfree_all vs s)"

lemma pfree_all_pool:
  assumes "ready s" "pool s xs" "distinct vs" "set vs \<inter> set xs = {}" "\<And>v. v \<in> set vs \<Longrightarrow> okpage s v"
  shows "\<exists>s'. pfree_all vs s = Ret () s' \<and> pool s' (rev vs @ xs) \<and> ready s' \<and> okpage s' = okpage s"
  using assms
proof (induction vs arbitrary: s xs)
  case Nil
  then show ?case by simp
next
  case (Cons v vs)
  then obtain s1 where s1: "pfree v s = Ret () s1" "pool s1 (v # xs)" "ready s1" "okpage s1 = okpage s"
    using pfree_page [of s xs v] by auto
  moreover from Cons.prems have "distinct vs" "set vs \<inter> set (v # xs) = {}"
    by auto
  moreover have "okpage s1 w" if "w \<in> set vs" for w
    using Cons.prems(5) that s1(4) by simp
  ultimately obtain s' where "pfree_all vs s1 = Ret () s'" "pool s' (rev vs @ v # xs)" "ready s'"
      "okpage s' = okpage s1"
    using Cons.IH [of s1 "v # xs"] by blast
  with s1 show ?case by auto
qed

end

interpretation kpool: page_pool kalloc kfree free_pages good_page kmem_unlocked
proof unfold_locales
  fix s :: "'a kmem_state_scheme" and xs x v
  show "free_pages s xs \<Longrightarrow> x \<in> set xs \<Longrightarrow> good_page s x \<and> x \<noteq> 0"
    using good_page_nonzero by (fastforce simp: free_pages_def)
  show "free_pages s xs \<Longrightarrow> distinct xs"
    by (simp add: free_pages_def)
  show "kmem_unlocked s \<Longrightarrow> free_pages s [] \<Longrightarrow> kalloc s = Ret 0 s"
    by (simp add: kalloc_Ret free_pages_def)
  show "\<exists>s'. kalloc s = Ret x s' \<and> free_pages s' xs \<and> kmem_unlocked s' \<and> good_page s' = good_page s"
    if "kmem_unlocked s" "free_pages s (x # xs)"
    using that free_pages_kalloc [OF that(2)] by (simp add: kalloc_Ret)
  show "\<exists>s'. kfree v s = Ret () s' \<and> free_pages s' (v # xs) \<and> kmem_unlocked s' \<and> good_page s' = good_page s"
    if "kmem_unlocked s" "free_pages s xs" "good_page s v" "v \<notin> set xs"
    using that free_pages_kfree [of s xs v] by (simp add: kfree_Ret)
  show "\<not> good_page s v \<Longrightarrow> kfree v s = Panic ''kfree''"
    by (rule kfree_Panic)
qed

section \<open>Histories of allocations\<close>

text \<open>
  The pages in use are tracked beside the state: \<open>kalloc\<close> adds the page it returns, \<open>kfree\<close> of a page in
  use removes it, and the owner of a page may store anything in it.
\<close>

inductive kmem_step :: "kmem_state \<times> uint32 set \<Rightarrow> kmem_state \<times> uint32 set \<Rightarrow> bool" where
  alloc: "kalloc s = Ret v s' \<Longrightarrow> v \<noteq> 0 \<Longrightarrow> kmem_step (s, A) (s', insert v A)"
| exhausted: "kalloc s = Ret 0 s' \<Longrightarrow> kmem_step (s, A) (s', A)"
| free: "v \<in> A \<Longrightarrow> kfree v s = Ret () s' \<Longrightarrow> kmem_step (s, A) (s', A - {v})"
| store: "v \<in> A \<Longrightarrow> a div PGSIZE = v div PGSIZE \<Longrightarrow>
     kmem_step (s, A) (s\<lparr>mem := (mem s)(a := w)\<rparr>, A)"

definition kmem_inv :: "uint32 set \<Rightarrow> kmem_state \<times> uint32 set \<Rightarrow> bool" where
  "kmem_inv P sA \<longleftrightarrow> (case sA of (s, A) \<Rightarrow>
     kmem_unlocked s \<and>
     (\<exists>xs. free_pages s xs \<and> set xs \<inter> A = {} \<and> set xs \<union> A = P) \<and> (\<forall>v\<in>A. good_page s v))"

lemma kmem_inv_step:
  assumes "kmem_step sA sA'" "kmem_inv P sA"
  shows "kmem_inv P sA'"
  using assms
proof (induction rule: kmem_step.induct)
  case (alloc s v s' A)
  then obtain xs where inv: "kmem_unlocked s" "free_pages s xs" "set xs \<inter> A = {}" "set xs \<union> A = P"
      "\<forall>v\<in>A. good_page s v"
    by (auto simp: kmem_inv_def)
  with alloc(1,2) obtain ys where xs: "xs = v # ys"
    by (cases xs) (auto simp: kalloc_Ret free_pages_def)
  with inv alloc(1) obtain "free_pages s' ys" "kmem_unlocked s'" "good_page s' = good_page s"
    using kpool.palloc_page [of s v ys] by auto
  moreover have "v \<notin> set ys" "good_page s v"
    using inv(2) xs kpool.pool_distinct kpool.pool_pages by fastforce+
  ultimately show ?case
    using inv xs by (auto simp: kmem_inv_def intro!: exI [of _ ys])
next
  case (exhausted s s' A)
  then show ?case
    by (auto simp: kmem_inv_def kalloc_Ret split: if_splits)
next
  case (free v A s s')
  then obtain xs where inv: "kmem_unlocked s" "free_pages s xs" "set xs \<inter> A = {}" "set xs \<union> A = P"
      "\<forall>v\<in>A. good_page s v"
    by (auto simp: kmem_inv_def)
  with free(1,2) obtain "free_pages s' (v # xs)" "kmem_unlocked s'" "good_page s' = good_page s"
    using kpool.pfree_page [of s xs v] by auto
  with inv free(1) show ?case
    by (auto simp: kmem_inv_def intro!: exI [of _ "v # xs"])
next
  case (store v A a s w)
  then obtain xs where inv: "kmem_unlocked s" "free_pages s xs" "set xs \<inter> A = {}" "set xs \<union> A = P"
      "\<forall>v\<in>A. good_page s v"
    by (auto simp: kmem_inv_def)
  have "((mem s)(a := w)) x = mem s x" if "x \<in> set xs" for x
  proof -
    have "x \<noteq> a"
    proof
      assume "x = a"
      with store(2) good_page_div_inj [of s x v] that inv store(1) have "x = v"
        by (auto simp: free_pages_def)
      with that inv store(1) show False by blast
    qed
    then show ?thesis by simp
  qed
  with free_pages_write [OF inv(2)] have "free_pages (s\<lparr>mem := (mem s)(a := w)\<rparr>) xs"
    by blast
  with inv show ?case
    by (auto simp: kmem_inv_def)
qed

lemma kmem_inv_steps: "kmem_step\<^sup>*\<^sup>* sA sA' \<Longrightarrow> kmem_inv P sA \<Longrightarrow> kmem_inv P sA'"
  by (induction rule: rtranclp_induct) (blast intro: kmem_inv_step)+

section \<open>Pages of a range\<close>

primrec pages_from :: "uint32 \<Rightarrow> nat \<Rightarrow> uint32 list" where
  "pages_from p 0 = []"
| "pages_from p (Suc n) = p # pages_from (p + PGSIZE) n"

lemma aligned_unat: "p mod PGSIZE = 0 \<longleftrightarrow> 4096 dvd unat p"
proof -
  have "unat (p mod PGSIZE) = unat p mod 4096"
    by (simp add: unat_mod PGSIZE_def)
  then show ?thesis
    by (metis dvd_eq_mod_eq_0 unat_0 word_unat_eq_iff)
qed

lemma V2P_less_PHYSTOP: "KERNBASE \<le> v \<Longrightarrow> unat v < 0x8E000000 \<Longrightarrow> V2P v < PHYSTOP"
  by (simp add: V2P_def KERNBASE_def PHYSTOP_def word_less_nat_alt word_le_nat_alt unat_sub_if')

lemma page_add: "unat p \<le> 0x8E000000 \<Longrightarrow> unat (p + PGSIZE) = unat p + 4096"
  by (subst unat_add_lem [THEN iffD1]) (simp_all add: PGSIZE_def)

lemma aligned_add: "p mod PGSIZE = 0 \<Longrightarrow> unat p \<le> 0x8E000000 \<Longrightarrow> (p + PGSIZE) mod PGSIZE = 0"
  by (simp add: aligned_unat page_add)

lemma pages_from_bounds:
  assumes "unat p + 4096 * n \<le> 0x8E000000" "p mod PGSIZE = 0" "KERNBASE \<le> p" "kend s \<le> p"
  shows "distinct (pages_from p n) \<and>
    (\<forall>x\<in>set (pages_from p n). unat p \<le> unat x \<and> unat x < unat p + 4096 * n \<and> good_page s x)"
  using assms
proof (induction n arbitrary: p)
  case 0
  then show ?case by simp
next
  case (Suc n)
  then have add: "unat (p + PGSIZE) = unat p + 4096" "(p + PGSIZE) mod PGSIZE = 0"
    by (simp_all add: page_add aligned_add)
  with Suc.prems have le: "KERNBASE \<le> p + PGSIZE" "kend s \<le> p + PGSIZE"
    by (simp_all add: word_le_nat_alt)
  have "good_page s p"
    using Suc.prems by (simp add: good_page_def V2P_less_PHYSTOP)
  have IH: "distinct (pages_from (p + PGSIZE) n) \<and>
    (\<forall>x\<in>set (pages_from (p + PGSIZE) n).
       unat p + 4096 \<le> unat x \<and> unat x < unat p + 4096 * Suc n \<and> good_page s x)"
    using Suc.IH [of "p + PGSIZE"] Suc.prems add le by (simp add: add.assoc)
  then have "p \<notin> set (pages_from (p + PGSIZE) n)"
    by (metis not_add_less1 le_imp_less_or_eq less_add_same_cancel1 linorder_not_less zero_less_numeral)
  with IH \<open>good_page s p\<close> show ?case
    by (auto dest: bspec)
qed

lemma freerange_loop_pfree_all:
  assumes "unat vend \<le> 0x8E000000" "kmem_unlocked s" "p mod PGSIZE = 0" "kend s \<le> p" "KERNBASE \<le> p"
    "unat p \<le> 0x8E000000"
  shows "freerange_loop p vend s = kpool.pfree_all (pages_from p ((unat vend - unat p) div 4096)) s"
  using assms
proof (induction "(unat vend - unat p) div 4096" arbitrary: p s)
  case 0
  then have "\<not> p + PGSIZE \<le> vend"
    by (simp add: word_le_nat_alt page_add)
  with 0 show ?case
    by (simp add: freerange_loop.simps [of p])
next
  case (Suc n)
  have room: "unat p + 4096 \<le> unat vend"
  proof (rule ccontr)
    assume "\<not> unat p + 4096 \<le> unat vend"
    then have "(unat vend - unat p) div 4096 = 0" by simp
    with Suc.hyps(2) show False by simp
  qed
  have n: "n = (unat vend - unat (p + PGSIZE)) div 4096"
  proof -
    have "unat vend - unat p = (unat vend - unat (p + PGSIZE)) + 4096"
      using room Suc.prems by (simp add: page_add)
    with Suc.hyps(2) show ?thesis by simp
  qed
  let ?s = "s\<lparr>mem := (memset_page (mem s) p 0x01010101)(p := freelist s), freelist := p\<rparr>"
  have "good_page s p"
    using Suc.prems room by (simp add: good_page_def V2P_less_PHYSTOP)
  with Suc.prems have free: "kfree p s = Ret () ?s"
    by (simp add: kfree_Ret)
  have "freerange_loop (p + PGSIZE) vend ?s =
      kpool.pfree_all (pages_from (p + PGSIZE) ((unat vend - unat (p + PGSIZE)) div 4096)) ?s"
    using Suc.prems room n
    by (intro Suc.hyps(1)) (simp_all add: page_add aligned_add word_le_nat_alt)
  moreover have "p + PGSIZE \<le> vend"
    using room Suc.prems by (simp add: word_le_nat_alt page_add)
  ultimately show ?case
    using free n by (simp add: freerange_loop.simps [of p] Suc.hyps(2) [symmetric])
qed

lemma free_pages_disjoint_range:
  assumes "unat p + 4096 * n \<le> 0x8E000000" "p mod PGSIZE = 0" "KERNBASE \<le> p" "kend s \<le> p"
    and "kmem_unlocked s" "free_pages s xs" "set (pages_from p n) \<inter> set xs = {}"
  shows "\<exists>s'. kpool.pfree_all (pages_from p n) s = Ret () s' \<and> free_pages s' (rev (pages_from p n) @ xs)
    \<and> kmem_unlocked s'"
  using kpool.pfree_all_pool [of s xs "pages_from p n"] pages_from_bounds [OF assms(1-4)] assms(5-) by blast

section \<open>Properties\<close>

text \<open>
  C3: However kalloc, kfree of pages in use, and stores into pages in use are interleaved, the free
  list stays a list of distinct valid pages, the free pages and the pages in use partition the
  pages the history started with, and kalloc never hands out a page that is in use.
\<close>

theorem kalloc_exclusive:
  assumes "free_pages s0 xs0" "kmem_unlocked s0" "kmem_step\<^sup>*\<^sup>* (s0, {}) (s, A)"
  shows "\<exists>xs. free_pages s xs \<and> set xs \<inter> A = {} \<and> set xs \<union> A = set xs0 \<and>
    (\<forall>v s'. kalloc s = Ret v s' \<and> v \<noteq> 0 \<longrightarrow> v \<notin> A \<and> good_page s v) \<and>
    (\<forall>v\<in>A. kfree v s \<noteq> Panic ''kfree'')"
proof -
  have "kmem_inv (set xs0) (s0, {})"
    using assms(1,2) by (auto simp: kmem_inv_def)
  from kmem_inv_steps [OF assms(3) this]
  obtain xs where inv: "kmem_unlocked s" "free_pages s xs" "set xs \<inter> A = {}" "set xs \<union> A = set xs0"
      "\<forall>v\<in>A. good_page s v"
    by (auto simp: kmem_inv_def)
  have "v \<in> set xs" if "kalloc s = Ret v s'" "v \<noteq> 0" for v s'
    using that inv(1,2) by (cases xs) (auto simp: kalloc_Ret free_pages_def)
  with inv show ?thesis
    by (auto simp: kfree_Ret free_pages_def intro!: exI [of _ xs])
qed

definition kmem_example :: kmem_state where
  "kmem_example = \<lparr>held = [], use_lock = True, freelist = 0x80101000,
     mem = (\<lambda>_. 0)(0x80101000 := 0x80100000), kend = 0x80100000\<rparr>"

lemma kmem_example_ok: "free_pages kmem_example [0x80101000, 0x80100000]" "kmem_unlocked kmem_example"
  by (simp_all add: kmem_example_def free_pages_def good_page_def layout_defs kmem_unlocked_def)

theorem kalloc_exclusive_witness:
  "\<exists>s xs. kmem_step\<^sup>*\<^sup>* (kmem_example, {}) (s, {0x80101000}) \<and> free_pages s xs \<and>
     set xs = {0x80100000}"
proof -
  have "kmem_step (kmem_example, {}) (kmem_example\<lparr>freelist := 0x80100000\<rparr>, {0x80101000})"
    using kmem_step.alloc [of kmem_example "0x80101000" "kmem_example\<lparr>freelist := 0x80100000\<rparr>" "{}"]
    by (simp add: kalloc_Ret kmem_example_ok) (simp add: kmem_example_def)
  then have step: "kmem_step\<^sup>*\<^sup>* (kmem_example, {}) (kmem_example\<lparr>freelist := 0x80100000\<rparr>, {0x80101000})"
    by blast
  from kalloc_exclusive [OF kmem_example_ok step]
  obtain xs where xs: "free_pages (kmem_example\<lparr>freelist := 0x80100000\<rparr>) xs"
    "set xs \<inter> {0x80101000} = {}" "set xs \<union> {0x80101000} = {0x80101000, 0x80100000}"
    by auto
  then have "set xs = {0x80101000, 0x80100000} - {0x80101000}" by blast
  then have "set xs = {0x80100000}" by simp
  with step xs(1) show ?thesis by blast
qed

text \<open>
  C4: freerange over a range of physical memory above the kernel adds exactly the whole pages of
  the range to the free list, the last page first, and takes no other page; it neither panics nor
  wraps around at the top of memory.
\<close>

theorem freerange_frees_range:
  assumes "unat vend \<le> 0x8E000000" "kmem_unlocked s" "free_pages s xs"
    and "kend s \<le> PGROUNDUP vstart" "KERNBASE \<le> PGROUNDUP vstart"
    and "unat (PGROUNDUP vstart) \<le> unat vend"
    and "n = (unat vend - unat (PGROUNDUP vstart)) div 4096"
    and "set (pages_from (PGROUNDUP vstart) n) \<inter> set xs = {}"
  shows "\<exists>s'. freerange vstart vend s = Ret () s' \<and>
    free_pages s' (rev (pages_from (PGROUNDUP vstart) n) @ xs)"
proof -
  have "unat (PGROUNDUP vstart) + 4096 * n \<le> 0x8E000000"
    using assms(1,6,7) times_div_less_eq_dividend [of 4096 "unat vend - unat (PGROUNDUP vstart)"] by linarith
  from free_pages_disjoint_range [OF this PGROUNDUP_aligned assms(5,4,2,3,8)] show ?thesis
    using freerange_loop_pfree_all [OF assms(1,2) PGROUNDUP_aligned assms(4,5)] assms(1,6,7) by (auto simp: freerange_def)
qed


theorem freerange_frees_range_witness:
  "\<exists>s'. freerange 0x80102001 0x80105000 kmem_example = Ret () s' \<and>
     free_pages s' [0x80104000, 0x80103000, 0x80101000, 0x80100000]"
proof -
  have up: "PGROUNDUP 0x80102001 = 0x80103000"
    by (simp add: PGROUNDUP_def PGSIZE_def)
  have pages: "pages_from 0x80103000 (Suc (Suc 0)) = [0x80103000, 0x80104000]"
    by (simp add: PGSIZE_def)
  have 1: "unat (0x80105000::uint32) \<le> 0x8E000000" by simp
  have 2: "kend kmem_example \<le> PGROUNDUP 0x80102001"
    by (simp only: up kmem_example_def kmem_state.simps) simp
  have 3: "KERNBASE \<le> PGROUNDUP 0x80102001" by (simp only: up KERNBASE_def) simp
  have 5: "unat (PGROUNDUP 0x80102001) \<le> unat (0x80105000::uint32)" by (simp only: up) simp
  have 6: "Suc (Suc 0) = (unat (0x80105000::uint32) - unat (PGROUNDUP 0x80102001)) div 4096"
    by (simp only: up) simp
  have 7: "set (pages_from (PGROUNDUP 0x80102001) (Suc (Suc 0))) \<inter> set [0x80101000, 0x80100000] = {}"
    by (simp only: up pages) simp
  from freerange_frees_range [OF 1 kmem_example_ok(2,1) 2 3 5 6 7] show ?thesis
    by (simp only: up pages) simp
qed

end
