(* ===== verification/Proc_State.thy ===== *)
theory Proc_State
  imports Kalloc
begin

text \<open>
  The data of \<open>proc.h\<close> and the globals of \<open>proc.c\<close>: process states, the process structure with the
  fields the scheduler extensions add, the process table, the queues of the multi-level feedback
  scheduler and the clock. Pointers to processes are indices into \<open>ptable.proc\<close>; the scheduler
  chosen at build time (the \<open>-D\<close> flag of the Makefile) is the field \<open>sched_cfg\<close>.
\<close>

datatype sched_type = RR | FCFS | PBS | MLFQ

datatype procstate = UNUSED | EMBRYO | SLEEPING | RUNNABLE | RUNNING | ZOMBIE

text \<open>
  The trap frame: the registers the kernel reads or writes by name, and the remaining saved
  registers as one list (in the order edi, esi, ebp, oesp, ebx, edx, ecx, gs, fs).
\<close>

record trapframe =
  tf_eax :: uint32
  tf_es :: uint32
  tf_ds :: uint32
  tf_trapno :: uint32
  tf_err :: uint32
  tf_eip :: uint32
  tf_cs :: uint32
  tf_eflags :: uint32
  tf_esp :: uint32
  tf_ss :: uint32
  tf_regs :: "uint32 list"

text \<open>The trap frame that lies in memory at an address, by the layout of the C structure.\<close>

definition tf_at :: "(uint32 \<Rightarrow> uint32) \<Rightarrow> uint32 \<Rightarrow> trapframe" where
  "tf_at m a =
     \<lparr>tf_eax = m (a + 28), tf_es = m (a + 40) AND 0xFFFF, tf_ds = m (a + 44) AND 0xFFFF,
      tf_trapno = m (a + 48), tf_err = m (a + 52), tf_eip = m (a + 56), tf_cs = m (a + 60) AND 0xFFFF,
      tf_eflags = m (a + 64), tf_esp = m (a + 68), tf_ss = m (a + 72) AND 0xFFFF,
      tf_regs = [m a, m (a + 4), m (a + 8), m (a + 12), m (a + 16), m (a + 20), m (a + 24),
        m (a + 32) AND 0xFFFF, m (a + 36) AND 0xFFFF]\<rparr>"

text \<open>Where the kernel thread of a process continues when the scheduler switches to it.\<close>

datatype kcontext = CtxNone | CtxForkret | CtxSched

record proc =
  p_sz :: uint32
  p_pgdir :: uint32
  p_kstack :: uint32
  p_state :: procstate
  p_pid :: int
  p_parent :: "nat option"
  p_tf :: trapframe
  p_context :: kcontext
  p_chan :: chan
  p_killed :: bool
  p_ofile :: "nat option list"
  p_cwd :: "nat option"
  p_name :: string
  p_creation_time :: int
  p_end_time :: int
  p_tot_run_time :: int
  p_curr_wait_time :: int
  p_tot_sleep_time :: int
  p_curr_priority :: int
  p_pbs_chances :: int
  p_should_demote :: int
  p_enter :: int
  p_curr_queue_id :: int
  p_num_times_scheduled :: int
  p_tot_ticks_got :: "int list"
  p_curr_ticks_got :: int

text \<open>Messages the code prints that a user of the system reads back (\<open>logs == 1\<close>).\<close>

datatype msg =
    MsgInsert uint32 int int
  | MsgPromote uint32 int int
  | MsgDemote uint32 int int
  | MsgExit uint32 string int int int int
  | MsgWaitx int

text \<open>
  The fields \<open>trapret_addr\<close> and \<open>forkret_addr\<close> are the addresses the linker gives the two routines;
  like \<open>kend\<close> they never change.
\<close>

record proc_state = kmem_state +
  sched_cfg :: sched_type
  ptable :: "proc list"
  nextpid :: int
  initproc :: "nat option"
  ticks :: uint32
  cpu_proc :: "nat option"
  cr3 :: uint32
  kpgdir :: uint32
  ts_esp0 :: uint32
  trapret_addr :: uint32
  forkret_addr :: uint32
  queue_ptr :: "nat option list list"
  q_latest_idx :: "int list"
  klog :: "msg list"

definition patience_threshold :: "int list" where
  "patience_threshold = [60, 20, 25, 30, 35]"

definition runtime_limit :: "int list" where
  "runtime_limit = [1, 2, 4, 8, 16]"

text \<open>A slot of the table as it is before its first use: all zero.\<close>

definition trapframe0 :: trapframe where
  "trapframe0 = \<lparr>tf_eax = 0, tf_es = 0, tf_ds = 0, tf_trapno = 0, tf_err = 0, tf_eip = 0, tf_cs = 0,
     tf_eflags = 0, tf_esp = 0, tf_ss = 0, tf_regs = replicate 9 0\<rparr>"

definition proc0 :: proc where
  "proc0 = \<lparr>p_sz = 0, p_pgdir = 0, p_kstack = 0, p_state = UNUSED, p_pid = 0, p_parent = None,
     p_tf = trapframe0, p_context = CtxNone, p_chan = Chan0, p_killed = False,
     p_ofile = replicate NOFILE None, p_cwd = None, p_name = [], p_creation_time = 0,
     p_end_time = 0, p_tot_run_time = 0, p_curr_wait_time = 0, p_tot_sleep_time = 0,
     p_curr_priority = 0, p_pbs_chances = 0, p_should_demote = 0, p_enter = 0,
     p_curr_queue_id = 0, p_num_times_scheduled = 0, p_tot_ticks_got = replicate 6 0,
     p_curr_ticks_got = 0\<rparr>"

text \<open>The boot state: an empty table, the queues empty (\<open>q_latest_idx\<close> is all -1).\<close>

definition boot_state :: "sched_type \<Rightarrow> proc_state" where
  "boot_state cfg = \<lparr>held = [], use_lock = True, freelist = 0, mem = (\<lambda>_. 0), kend = 0x80100000,
     sched_cfg = cfg, ptable = replicate NPROC proc0, nextpid = 1, initproc = None, ticks = 0,
     cpu_proc = None, cr3 = 0, kpgdir = 0, ts_esp0 = 0,
     trapret_addr = 0x80105E00, forkret_addr = 0x80103A00, queue_ptr = replicate 5 (replicate 65 None),
     q_latest_idx = replicate 5 (-1), klog = []\<rparr>"

text \<open>Reading and updating one slot.\<close>

abbreviation slot :: "'a proc_state_scheme \<Rightarrow> nat \<Rightarrow> proc" where
  "slot s i \<equiv> ptable s ! i"

definition upd_proc :: "nat \<Rightarrow> (proc \<Rightarrow> proc) \<Rightarrow> 'a proc_state_scheme \<Rightarrow> 'a proc_state_scheme" where
  "upd_proc i f s = s\<lparr>ptable := (ptable s)[i := f (ptable s ! i)]\<rparr>"

definition print :: "msg \<Rightarrow> 'a proc_state_scheme \<Rightarrow> 'a proc_state_scheme" where
  "print m s = s\<lparr>klog := klog s @ [m]\<rparr>"

section \<open>Lemmas on single slots\<close>

lemma ptable_upd_proc [simp]: "ptable (upd_proc i f s) = (ptable s)[i := f (ptable s ! i)]"
  by (simp add: upd_proc_def)

lemma slot_upd_proc: "i < length (ptable s) \<Longrightarrow>
    slot (upd_proc i f s) j = (if j = i then f (slot s i) else slot s j)"
  by (simp add: upd_proc_def nth_list_update)

lemma upd_proc_frame [simp]:
  "held (upd_proc i f s) = held s" "use_lock (upd_proc i f s) = use_lock s"
  "freelist (upd_proc i f s) = freelist s" "mem (upd_proc i f s) = mem s"
  "kend (upd_proc i f s) = kend s" "sched_cfg (upd_proc i f s) = sched_cfg s"
  "nextpid (upd_proc i f s) = nextpid s" "initproc (upd_proc i f s) = initproc s"
  "ticks (upd_proc i f s) = ticks s" "cpu_proc (upd_proc i f s) = cpu_proc s"
  "cr3 (upd_proc i f s) = cr3 s" "kpgdir (upd_proc i f s) = kpgdir s"
  "ts_esp0 (upd_proc i f s) = ts_esp0 s" "trapret_addr (upd_proc i f s) = trapret_addr s"
  "forkret_addr (upd_proc i f s) = forkret_addr s" "queue_ptr (upd_proc i f s) = queue_ptr s"
  "q_latest_idx (upd_proc i f s) = q_latest_idx s" "klog (upd_proc i f s) = klog s"
  by (simp_all add: upd_proc_def)

lemma print_frame [simp]:
  "held (print m s) = held s" "use_lock (print m s) = use_lock s"
  "freelist (print m s) = freelist s" "mem (print m s) = mem s"
  "kend (print m s) = kend s" "sched_cfg (print m s) = sched_cfg s" "ptable (print m s) = ptable s"
  "nextpid (print m s) = nextpid s" "initproc (print m s) = initproc s"
  "ticks (print m s) = ticks s" "cpu_proc (print m s) = cpu_proc s"
  "cr3 (print m s) = cr3 s" "kpgdir (print m s) = kpgdir s"
  "ts_esp0 (print m s) = ts_esp0 s" "trapret_addr (print m s) = trapret_addr s"
  "forkret_addr (print m s) = forkret_addr s" "queue_ptr (print m s) = queue_ptr s"
  "q_latest_idx (print m s) = q_latest_idx s" "klog (print m s) = klog s @ [m]"
  by (simp_all add: print_def)

end
