(* ===== verification/Run_Queue.thy ===== *)
theory Run_Queue
  imports Proc_State
begin

text \<open>
  The run queues of the multi-level feedback scheduler: \<open>queue_ptr\<close>, an array of five rows of
  65 process pointers, \<open>q_latest_idx\<close>, the index of the last entry of each row, and the two
  operations on them, \<open>push_back_process\<close> and \<open>delete_process\<close>. An access outside the arrays or
  through a null entry is \<open>Fault\<close>. The abstraction \<open>qlist\<close> reads a row as a list of processes;
  the interface other components rely on is the locale \<open>run_queue\<close>.
\<close>

section \<open>Operations\<close>

text \<open>
  The scan both operations start with: the first index at which the entry has the given pid.
  \<open>None\<close> is a null entry dereferenced, \<open>Some None\<close> no match.
\<close>

primrec q_scan :: "proc list \<Rightarrow> int \<Rightarrow> nat \<Rightarrow> nat option list \<Rightarrow> nat option option" where
  "q_scan tab pid i [] = Some None"
| "q_scan tab pid i (x # xs) =
     (case x of
        None \<Rightarrow> None
      | Some j \<Rightarrow> if p_pid (tab ! j) = pid then Some (Some i) else q_scan tab pid (Suc i) xs)"

definition push_back_process ::
  "nat \<Rightarrow> int \<Rightarrow> 'a proc_state_scheme \<Rightarrow> (int, 'a proc_state_scheme) outcome" where
  "push_back_process p q_id s =
     (if \<not> (0 \<le> q_id \<and> q_id < 5) then Fault
      else
        let row = queue_ptr s ! nat q_id; n = q_latest_idx s ! nat q_id
        in case q_scan (ptable s) (p_pid (slot s p)) 0 (take (nat n) row) of
             None \<Rightarrow> Fault
           | Some (Some i) \<Rightarrow> Ret (-1) s
           | Some None \<Rightarrow>
               if \<not> (0 \<le> n + 1 \<and> n + 1 < 65) then Fault
               else
                 let s = s\<lparr>q_latest_idx := (q_latest_idx s)[nat q_id := n + 1]\<rparr>;
                     s = s\<lparr>queue_ptr := (queue_ptr s)[nat q_id := row[nat (n + 1) := Some p]]\<rparr>;
                     s = upd_proc p (\<lambda>r. r\<lparr>p_curr_queue_id := q_id\<rparr>) s
                 in Ret 1 s)"

function shift_down :: "nat option list \<Rightarrow> nat \<Rightarrow> nat \<Rightarrow> nat option list" where
  "shift_down row i n = (if i < n then shift_down (row[i := row ! (i + 1)]) (Suc i) n else row)"
  by pat_completeness auto
termination
  by (relation "measure (\<lambda>(row, i, n). n - i)") auto

declare shift_down.simps [simp del]

definition delete_process ::
  "nat \<Rightarrow> int \<Rightarrow> 'a proc_state_scheme \<Rightarrow> (int, 'a proc_state_scheme) outcome" where
  "delete_process p q_id s =
     (if \<not> (0 \<le> q_id \<and> q_id < 5) then Fault
      else
        let row = queue_ptr s ! nat q_id; n = q_latest_idx s ! nat q_id
        in case q_scan (ptable s) (p_pid (slot s p)) 0 (take (nat (n + 1)) row) of
             None \<Rightarrow> Fault
           | Some None \<Rightarrow> Ret 0 s
           | Some (Some i) \<Rightarrow>
               let row = shift_down row i (nat n);
                   row = row[nat n := None];
                   s = s\<lparr>queue_ptr := (queue_ptr s)[nat q_id := row]\<rparr>;
                   s = s\<lparr>q_latest_idx := (q_latest_idx s)[nat q_id := n - 1]\<rparr>
               in Ret 1 s)"

section \<open>Queues as lists\<close>

definition qlist :: "'a proc_state_scheme \<Rightarrow> nat \<Rightarrow> nat list" where
  "qlist s q = map the (take (nat (q_latest_idx s ! q + 1)) (queue_ptr s ! q))"

definition row_of :: "nat list \<Rightarrow> nat option list" where
  "row_of xs = map Some xs @ replicate (65 - length xs) None"

definition wf_queues :: "'a proc_state_scheme \<Rightarrow> bool" where
  "wf_queues s \<longleftrightarrow>
     length (queue_ptr s) = 5 \<and> length (q_latest_idx s) = 5 \<and>
     (\<forall>q<5. length (qlist s q) \<le> 65 \<and> set (qlist s q) \<subseteq> {..<length (ptable s)} \<and>
        queue_ptr s ! q = row_of (qlist s q) \<and> q_latest_idx s ! q = int (length (qlist s q)) - 1)"

section \<open>Lemmas\<close>

lemma find_Suc_upt: "find P [0..<Suc n] =
    (if P 0 then Some 0 else map_option Suc (find (P \<circ> Suc) [0..<n]))"
proof -
  have map: "find P (map Suc ys) = map_option Suc (find (P \<circ> Suc) ys)" for ys
    by (induction ys) simp_all
  have "[0..<Suc n] = 0 # map Suc [0..<n]"
    by (simp add: upt_conv_Cons map_Suc_upt del: upt_Suc)
  then show ?thesis by (simp add: map del: upt_Suc)
qed

lemma q_scan_map_Some:
  "q_scan tab pid i (map Some xs) =
     Some (map_option (\<lambda>k. i + k) (find (\<lambda>k. p_pid (tab ! (xs ! k)) = pid) [0..<length xs]))"
  by (induction xs arbitrary: i)
    (auto simp: find_Suc_upt comp_def option.map_comp simp del: upt_Suc intro!: option.map_cong)

lemma length_shift_down [simp]: "length (shift_down row k n) = length row"
proof (induction row k n rule: shift_down.induct)
  case (1 row i n)
  then show ?case by (simp add: shift_down.simps [of row i n])
qed

lemma nth_shift_down:
  assumes "n < length row"
  shows "shift_down row k n ! j = (if k \<le> j \<and> j < n then row ! Suc j else row ! j)"
  using assms
proof (induction row k n rule: shift_down.induct)
  case (1 row i n)
  show ?case
  proof (cases "i < n")
    case True
    with 1 have "shift_down row i n ! j =
        (if Suc i \<le> j \<and> j < n then row[i := row ! Suc i] ! Suc j else row[i := row ! Suc i] ! j)"
      by (simp add: shift_down.simps [of row i n])
    also have "\<dots> = (if i \<le> j \<and> j < n then row ! Suc j else row ! j)"
      using True "1.prems" by (cases "j = i") (auto simp: nth_list_update)
    finally show ?thesis .
  next
    case False
    then show ?thesis by (auto simp: shift_down.simps [of row i n])
  qed
qed

text \<open>Removing the \<open>k\<close>-th entry of a row removes the \<open>k\<close>-th element of its list.\<close>

lemma nth_row_of: "i < 65 \<Longrightarrow> row_of xs ! i = (if i < length xs then Some (xs ! i) else None)"
  by (auto simp: row_of_def nth_append)

lemma length_row_of [simp]: "length xs \<le> 65 \<Longrightarrow> length (row_of xs) = 65"
  by (simp add: row_of_def)

lemma shift_down_row:
  assumes "k < length xs" "length xs \<le> 65"
  shows "(shift_down (row_of xs) k (length xs - 1))[length xs - 1 := None] = row_of (take k xs @ drop (Suc k) xs)"
proof (rule nth_equalityI)
  show "length ((shift_down (row_of xs) k (length xs - 1))[length xs - 1 := None]) =
      length (row_of (take k xs @ drop (Suc k) xs))"
    using assms by simp
next
  fix i assume "i < length ((shift_down (row_of xs) k (length xs - 1))[length xs - 1 := None])"
  then have i: "i < 65" using assms by simp
  have less: "length xs - 1 < length (row_of xs)"
    using assms by simp
  consider "i < k" | "k \<le> i" "i < length xs - 1" | "i = length xs - 1" | "length xs - 1 < i"
    using assms by linarith
  then show "(shift_down (row_of xs) k (length xs - 1))[length xs - 1 := None] ! i =
      row_of (take k xs @ drop (Suc k) xs) ! i"
    by cases (use assms i less in \<open>auto simp: nth_row_of nth_append nth_list_update nth_shift_down\<close>)
qed

lemma row_of_push:
  "length xs \<le> 64 \<Longrightarrow> (row_of xs)[length xs := Some p] = row_of (xs @ [p])"
  by (cases "65 - length xs") (auto simp: row_of_def list_update_append)

lemma qlist_row:
  assumes "queue_ptr s ! q = row_of xs" "q_latest_idx s ! q = int (length xs) - 1"
  shows "qlist s q = xs"
  using assms by (simp add: qlist_def row_of_def comp_def)

lemma wf_queuesD:
  assumes "wf_queues s" "q < 5"
  shows "length (queue_ptr s) = 5" "length (q_latest_idx s) = 5" "length (qlist s q) \<le> 65"
    "set (qlist s q) \<subseteq> {..<length (ptable s)}" "queue_ptr s ! q = row_of (qlist s q)"
    "q_latest_idx s ! q = int (length (qlist s q)) - 1"
  using assms by (auto simp: wf_queues_def)

text \<open>Only the two arrays and the length of the table matter for the queues.\<close>

lemma qlist_cong: "queue_ptr s' = queue_ptr s \<Longrightarrow> q_latest_idx s' = q_latest_idx s \<Longrightarrow> qlist s' = qlist s"
  by (simp add: qlist_def fun_eq_iff)

lemma wf_queues_cong:
  assumes "queue_ptr s' = queue_ptr s" "q_latest_idx s' = q_latest_idx s" "length (ptable s') = length (ptable s)"
  shows "wf_queues s' = wf_queues s"
  using assms qlist_cong [OF assms(1,2)] by (simp add: wf_queues_def)

definition set_queue :: "nat \<Rightarrow> nat list \<Rightarrow> 'a proc_state_scheme \<Rightarrow> 'a proc_state_scheme" where
  "set_queue q xs s = s\<lparr>queue_ptr := (queue_ptr s)[q := row_of xs],
     q_latest_idx := (q_latest_idx s)[q := int (length xs) - 1]\<rparr>"

lemma set_queue_frame [simp]:
  "held (set_queue q xs s) = held s" "use_lock (set_queue q xs s) = use_lock s"
  "freelist (set_queue q xs s) = freelist s" "mem (set_queue q xs s) = mem s"
  "kend (set_queue q xs s) = kend s" "sched_cfg (set_queue q xs s) = sched_cfg s"
  "ptable (set_queue q xs s) = ptable s"
  "nextpid (set_queue q xs s) = nextpid s" "initproc (set_queue q xs s) = initproc s"
  "ticks (set_queue q xs s) = ticks s" "cpu_proc (set_queue q xs s) = cpu_proc s"
  "cr3 (set_queue q xs s) = cr3 s" "kpgdir (set_queue q xs s) = kpgdir s"
  "ts_esp0 (set_queue q xs s) = ts_esp0 s" "trapret_addr (set_queue q xs s) = trapret_addr s"
  "forkret_addr (set_queue q xs s) = forkret_addr s" "klog (set_queue q xs s) = klog s"
  by (simp_all add: set_queue_def)

lemma qlist_set_queue:
  assumes "wf_queues s" "q < 5" "length xs \<le> 65" "q' < 5"
  shows "qlist (set_queue q xs s) q' = (if q' = q then xs else qlist s q')"
proof (cases "q' = q")
  case True
  with assms show ?thesis
    by (auto simp: set_queue_def wf_queues_def intro!: qlist_row)
next
  case False
  then show ?thesis
    by (simp add: set_queue_def qlist_def)
qed

lemma wf_set_queue:
  assumes "wf_queues s" "q < 5" "length xs \<le> 65" "set xs \<subseteq> {..<length (ptable s)}"
  shows "wf_queues (set_queue q xs s)"
  using assms qlist_set_queue [OF assms(1-3)] unfolding wf_queues_def
  by (auto simp: set_queue_def nth_list_update)

lemma wf_upd_proc [simp]: "wf_queues (upd_proc i f s) = wf_queues s"
  by (rule wf_queues_cong) simp_all

lemma qlist_upd_proc [simp]: "qlist (upd_proc i f s) = qlist s"
  by (rule qlist_cong) simp_all

subsection \<open>The operations on lists\<close>

abbreviation pid_of :: "'a proc_state_scheme \<Rightarrow> nat \<Rightarrow> int" where
  "pid_of s i \<equiv> p_pid (slot s i)"

lemma take_row_of: "n \<le> length xs \<Longrightarrow> take n (row_of xs) = map Some (take n xs)"
  by (simp add: row_of_def take_map)

lemma push_back_scan:
  assumes "wf_queues s" "q < 5"
  shows "q_scan (ptable s) pid 0 (take (nat (q_latest_idx s ! q)) (queue_ptr s ! q)) =
    Some (find (\<lambda>k. pid_of s (qlist s q ! k) = pid) [0..<length (qlist s q) - 1])"
proof -
  have "nat (q_latest_idx s ! q) = length (qlist s q) - 1"
    using wf_queuesD(6) [OF assms] by simp
  then show ?thesis
    using wf_queuesD [OF assms]
    by (simp add: take_row_of q_scan_map_Some option.map_ident_strong)
       (rule find_cong, auto)
qed

lemma queue_updates_commute:
  "s\<lparr>q_latest_idx := a, queue_ptr := b\<rparr> = s\<lparr>queue_ptr := b, q_latest_idx := a\<rparr>"
  by simp

lemma push_back_new:
  assumes "wf_queues s" "q < 5" "length (qlist s q) \<le> 64"
    and "\<And>x. x \<in> set (butlast (qlist s q)) \<Longrightarrow> pid_of s x \<noteq> pid_of s p"
  shows "push_back_process p (int q) s =
    Ret 1 (upd_proc p (\<lambda>r. r\<lparr>p_curr_queue_id := int q\<rparr>) (set_queue q (qlist s q @ [p]) s))"
proof -
  note wf = wf_queuesD [OF assms(1,2)]
  have "pid_of s (qlist s q ! k) \<noteq> pid_of s p" if "k < length (qlist s q) - 1" for k
  proof -
    have "butlast (qlist s q) ! k \<in> set (butlast (qlist s q))"
      using that by (intro nth_mem) simp
    with assms(4) that show ?thesis by (simp add: nth_butlast)
  qed
  then have "find (\<lambda>k. pid_of s (qlist s q ! k) = pid_of s p) [0..<length (qlist s q) - 1] = None"
    by (simp add: find_upt_None)
  with push_back_scan [OF assms(1,2)]
  have scan: "q_scan (ptable s) (pid_of s p) 0 (take (nat (q_latest_idx s ! q)) (queue_ptr s ! q)) = Some None"
    by simp
  have n: "q_latest_idx s ! q + 1 = int (length (qlist s q))"
    using wf(6) by simp
  have row: "(queue_ptr s ! q)[length (qlist s q) := Some p] = row_of (qlist s q @ [p])"
    using wf(5) row_of_push [OF assms(3)] by simp
  from assms(2,3) show ?thesis
    by (simp add: push_back_process_def Let_def scan n row set_queue_def queue_updates_commute)
qed

lemma push_back_dup:
  assumes "wf_queues s" "q < 5" "x \<in> set (butlast (qlist s q))" "pid_of s x = pid_of s p"
  shows "push_back_process p (int q) s = Ret (-1) s"
proof -
  from assms(3) obtain k where "k < length (qlist s q) - 1" "qlist s q ! k = x"
    by (auto simp: in_set_conv_nth nth_butlast)
  with assms(4) obtain i where
    "find (\<lambda>k. pid_of s (qlist s q ! k) = pid_of s p) [0..<length (qlist s q) - 1] = Some i"
    by (metis (mono_tags, lifting) find_upt_exists)
  then show ?thesis
    using push_back_scan [OF assms(1,2)] assms(2) by (simp add: push_back_process_def)
qed

lemma delete_scan:
  assumes "wf_queues s" "q < 5"
  shows "q_scan (ptable s) pid 0 (take (nat (q_latest_idx s ! q + 1)) (queue_ptr s ! q)) =
    Some (find (\<lambda>k. pid_of s (qlist s q ! k) = pid) [0..<length (qlist s q)])"
  using wf_queuesD [OF assms] by (simp add: take_row_of q_scan_map_Some option.map_ident_strong)

lemma delete_missing:
  assumes "wf_queues s" "q < 5" "\<And>x. x \<in> set (qlist s q) \<Longrightarrow> pid_of s x \<noteq> pid_of s p"
  shows "delete_process p (int q) s = Ret 0 s"
proof -
  have "find (\<lambda>k. pid_of s (qlist s q ! k) = pid_of s p) [0..<length (qlist s q)] = None"
    using assms(3) by (auto simp: find_upt_None)
  then show ?thesis
    using delete_scan [OF assms(1,2)] assms(2) by (simp add: delete_process_def)
qed

lemma remove1_take_drop:
  "k < length xs \<Longrightarrow> xs ! k = x \<Longrightarrow> (\<And>j. j < k \<Longrightarrow> xs ! j \<noteq> x) \<Longrightarrow> remove1 x xs = take k xs @ drop (Suc k) xs"
proof (induction xs arbitrary: k)
  case Nil
  then show ?case by simp
next
  case (Cons y ys)
  show ?case
  proof (cases k)
    case 0
    with Cons.prems show ?thesis by simp
  next
    case (Suc j)
    with Cons.prems(3) [of 0] have "y \<noteq> x" by simp
    moreover have "remove1 x ys = take j ys @ drop (Suc j) ys"
      using Cons.prems Suc by (intro Cons.IH) force+
    ultimately show ?thesis using Suc by simp
  qed
qed

lemma delete_member:
  assumes "wf_queues s" "q < 5" "p \<in> set (qlist s q)" "inj_on (pid_of s) (set (qlist s q))"
  shows "delete_process p (int q) s = Ret 1 (set_queue q (remove1 p (qlist s q)) s)"
proof -
  let ?xs = "qlist s q"
  note wf = wf_queuesD [OF assms(1,2)]
  obtain k where k: "find (\<lambda>k. pid_of s (?xs ! k) = pid_of s p) [0..<length ?xs] = Some k"
    using assms(3) by (metis (mono_tags, lifting) find_upt_exists in_set_conv_nth)
  then have less: "k < length ?xs" and pid: "pid_of s (?xs ! k) = pid_of s p"
    and before: "\<And>j. j < k \<Longrightarrow> pid_of s (?xs ! j) \<noteq> pid_of s p"
    by (auto simp: find_upt_Some)
  have at: "?xs ! k = p" "\<And>j. j < k \<Longrightarrow> ?xs ! j \<noteq> p"
     apply (rule inj_onD [OF assms(4) pid nth_mem [OF less] assms(3)])
    using before by force
  have row: "(shift_down (row_of ?xs) k (length ?xs - 1))[length ?xs - 1 := None] = row_of (remove1 p ?xs)"
    using shift_down_row [OF less wf(3)] remove1_take_drop [OF less at] by simp
  have "nat (q_latest_idx s ! q) = length ?xs - 1"
    using wf(6) by simp
  moreover have "q_latest_idx s ! q - 1 = int (length (remove1 p ?xs)) - 1"
    using wf(6) assms(3) length_pos_if_in_set [OF assms(3)]
    by (simp add: length_remove1 of_nat_diff [of 1, simplified] Suc_le_eq)
  ultimately show ?thesis
    using wf(5) assms(2) delete_scan [OF assms(1,2)] k row
    by (simp add: delete_process_def set_queue_def Let_def)
qed

lemma length_fresh:
  assumes "distinct xs" "set xs \<subseteq> {..<n}" "p < n" "p \<notin> set xs"
  shows "length xs < n"
proof -
  have "length (p # xs) = card (set (p # xs))"
    using assms(1,4) by (simp add: distinct_card)
  also have "\<dots> \<le> card {..<n}"
    using assms(2,3) by (intro card_mono) auto
  finally show ?thesis by simp
qed

section \<open>The queues as an interface\<close>

text \<open>
  What the scheduler and the sleep and wake-up code rely on: pushing a process that is in no place
  of the queue appends it and records its level, deleting one that is there removes it, and nothing
  else changes.
\<close>

locale run_queue =
  fixes push :: "nat \<Rightarrow> int \<Rightarrow> 's \<Rightarrow> (int, 's) outcome"
    and del :: "nat \<Rightarrow> int \<Rightarrow> 's \<Rightarrow> (int, 's) outcome"
    and ok :: "'s \<Rightarrow> bool"
    and valid :: "'s \<Rightarrow> nat \<Rightarrow> bool"
    and key :: "'s \<Rightarrow> nat \<Rightarrow> int"
    and items :: "'s \<Rightarrow> nat \<Rightarrow> nat list"
    and level :: "'s \<Rightarrow> nat \<Rightarrow> int"
  assumes push_fresh: "ok s \<Longrightarrow> q < 5 \<Longrightarrow> valid s p \<Longrightarrow> (\<And>x. x \<in> set (items s q) \<Longrightarrow> key s x \<noteq> key s p) \<Longrightarrow>
      distinct (items s q) \<Longrightarrow>
      \<exists>s'. push p (int q) s = Ret 1 s' \<and> ok s' \<and> valid s' = valid s \<and> key s' = key s \<and>
        (\<forall>r<5. items s' r = (if r = q then items s q @ [p] else items s r)) \<and>
        level s' = (level s)(p := int q)"
    and del_present: "ok s \<Longrightarrow> q < 5 \<Longrightarrow> p \<in> set (items s q) \<Longrightarrow> inj_on (key s) (set (items s q)) \<Longrightarrow>
      \<exists>s'. del p (int q) s = Ret 1 s' \<and> ok s' \<and> valid s' = valid s \<and> key s' = key s \<and>
        (\<forall>r<5. items s' r = (if r = q then remove1 p (items s q) else items s r)) \<and>
        level s' = level s"
    and del_absent: "ok s \<Longrightarrow> q < 5 \<Longrightarrow> (\<And>x. x \<in> set (items s q) \<Longrightarrow> key s x \<noteq> key s p) \<Longrightarrow> del p (int q) s = Ret 0 s"
    and items_valid: "ok s \<Longrightarrow> q < 5 \<Longrightarrow> x \<in> set (items s q) \<Longrightarrow> valid s x"
begin

text \<open>Deleting from one queue and pushing on another moves the process: the step of the aging code.\<close>

lemma move:
  assumes "ok s" "q < 5" "r < 5" "q \<noteq> r" "p \<in> set (items s q)" "inj_on (key s) (set (items s q) \<union> set (items s r))"
    and "p \<notin> set (items s r)" "distinct (items s r)"
  shows "\<exists>s1 s2. del p (int q) s = Ret 1 s1 \<and> push p (int r) s1 = Ret 1 s2 \<and> ok s2 \<and>
    items s2 q = remove1 p (items s q) \<and> items s2 r = items s r @ [p] \<and> level s2 p = int r"
proof -
  have "inj_on (key s) (set (items s q))"
    using assms(6) by (rule inj_on_subset) simp
  from del_present [OF assms(1,2,5) this]
  obtain s1 where s1: "del p (int q) s = Ret 1 s1" "ok s1" "key s1 = key s" "valid s1 = valid s"
    "\<And>x. x < 5 \<Longrightarrow> items s1 x = (if x = q then remove1 p (items s q) else items s x)"
    by blast
  have "key s x \<noteq> key s p" if "x \<in> set (items s r)" for x
    using assms(5-7) that inj_onD [OF assms(6), of x p] by auto
  moreover have "items s1 r = items s r"
    using s1(5) assms(3,4) by simp
  moreover have "valid s1 p"
    using items_valid [OF assms(1,2,5)] s1(4) by simp
  ultimately obtain s2 where "push p (int r) s1 = Ret 1 s2" "ok s2" "level s2 = (level s1)(p := int r)"
    "\<And>x. x < 5 \<Longrightarrow> items s2 x = (if x = r then items s1 r @ [p] else items s1 x)"
    using push_fresh [of s1 r p] s1 assms(3,8) by auto
  with s1 assms show ?thesis by auto
qed

end

definition ok_queues :: "'a proc_state_scheme \<Rightarrow> bool" where
  "ok_queues s \<longleftrightarrow> wf_queues s \<and> length (ptable s) = NPROC"

lemma push_back_fresh:
  assumes "ok_queues s" "q < 5" "p < length (ptable s)" "distinct (qlist s q)"
    "\<And>x. x \<in> set (qlist s q) \<Longrightarrow> pid_of s x \<noteq> pid_of s p"
  shows "push_back_process p (int q) s =
    Ret 1 (upd_proc p (\<lambda>r. r\<lparr>p_curr_queue_id := int q\<rparr>) (set_queue q (qlist s q @ [p]) s))"
    and "wf_queues (set_queue q (qlist s q @ [p]) s)"
    and "length (qlist s q) \<le> 63"
proof -
  have wf: "wf_queues s" and len: "length (ptable s) = 64"
    using assms(1) by (auto simp: ok_queues_def NPROC_def)
  have "p \<notin> set (qlist s q)"
    using assms(5) by blast
  then show small: "length (qlist s q) \<le> 63"
    using length_fresh [of "qlist s q" 64 p] assms(3,4) wf_queuesD(4) [OF wf assms(2)] len by simp
  then show "push_back_process p (int q) s =
    Ret 1 (upd_proc p (\<lambda>r. r\<lparr>p_curr_queue_id := int q\<rparr>) (set_queue q (qlist s q @ [p]) s))"
    using push_back_new [OF wf assms(2), of p] assms(5) by (simp add: in_set_butlastD)
  show "wf_queues (set_queue q (qlist s q @ [p]) s)"
    using wf_set_queue [OF wf assms(2)] small assms(3) wf_queuesD(4) [OF wf assms(2)] by simp
qed

interpretation rq: run_queue push_back_process delete_process ok_queues
  "\<lambda>s i. i < length (ptable s)" pid_of qlist "\<lambda>s i. p_curr_queue_id (slot s i)"
proof unfold_locales
  fix s :: "'a proc_state_scheme" and q p
  assume a: "ok_queues s" "q < 5" "p < length (ptable s)" "distinct (qlist s q)"
    "\<And>x. x \<in> set (qlist s q) \<Longrightarrow> pid_of s x \<noteq> pid_of s p"
  note push = push_back_fresh [OF a]
  have "wf_queues s" "length (qlist s q @ [p]) \<le> 65"
    using a(1) push(3) by (simp_all add: ok_queues_def)
  note items = qlist_set_queue [OF this(1) a(2) this(2)]
  show "\<exists>s'. push_back_process p (int q) s = Ret 1 s' \<and> ok_queues s' \<and>
      (\<lambda>i. i < length (ptable s')) = (\<lambda>i. i < length (ptable s)) \<and> pid_of s' = pid_of s \<and>
      (\<forall>r<5. qlist s' r = (if r = q then qlist s q @ [p] else qlist s r)) \<and>
      (\<lambda>i. p_curr_queue_id (slot s' i)) = (\<lambda>i. p_curr_queue_id (slot s i))(p := int q)"
    using push a(1,3) items by (auto simp: ok_queues_def fun_eq_iff nth_list_update)
next
  fix s :: "'a proc_state_scheme" and q p
  assume a: "ok_queues s" "q < 5" "p \<in> set (qlist s q)" "inj_on (pid_of s) (set (qlist s q))"
  then have wf: "wf_queues s" by (simp add: ok_queues_def)
  have len: "length (remove1 p (qlist s q)) \<le> 65" "set (remove1 p (qlist s q)) \<subseteq> {..<length (ptable s)}"
    using wf_queuesD(3,4) [OF wf a(2)] set_remove1_subset [of p "qlist s q"] by (auto simp: length_remove1)
  show "\<exists>s'. delete_process p (int q) s = Ret 1 s' \<and> ok_queues s' \<and>
      (\<lambda>i. i < length (ptable s')) = (\<lambda>i. i < length (ptable s)) \<and> pid_of s' = pid_of s \<and>
      (\<forall>r<5. qlist s' r = (if r = q then remove1 p (qlist s q) else qlist s r)) \<and>
      (\<lambda>i. p_curr_queue_id (slot s' i)) = (\<lambda>i. p_curr_queue_id (slot s i))"
    using delete_member [OF wf a(2-4)] wf_set_queue [OF wf a(2) len] qlist_set_queue [OF wf a(2) len(1)] a(1)
    by (simp add: ok_queues_def)
next
  fix s :: "'a proc_state_scheme" and q p
  assume "ok_queues s" "q < 5" "\<And>x. x \<in> set (qlist s q) \<Longrightarrow> pid_of s x \<noteq> pid_of s p"
  then show "delete_process p (int q) s = Ret 0 s"
    by (intro delete_missing) (auto simp: ok_queues_def)
next
  fix s :: "'a proc_state_scheme" and q x
  assume "ok_queues s" "q < 5" "x \<in> set (qlist s q)"
  then show "x < length (ptable s)"
    using wf_queuesD(4) [of s q] by (auto simp: ok_queues_def)
qed

section \<open>Properties\<close>

text \<open>
  C5: On queues whose processes have distinct pids, the array operations behave like list
  operations: pushing a process that is not in the queue appends it to that queue, records the
  level and leaves the other queues alone, deleting a process removes it from its queue, deleting
  one that is absent changes nothing and returns 0; no access leaves the arrays.
\<close>

theorem run_queues_refine_lists:
  assumes "ok_queues s" "q < 5" "p < NPROC" "distinct (qlist s q)"
    and "inj_on (pid_of s) (insert p (set (qlist s q)))"
  shows "(p \<notin> set (qlist s q) \<longrightarrow>
      delete_process p (int q) s = Ret 0 s \<and>
      (\<exists>s'. push_back_process p (int q) s = Ret 1 s' \<and> ok_queues s' \<and>
         p_curr_queue_id (slot s' p) = int q \<and>
         (\<forall>r<5. qlist s' r = (if r = q then qlist s q @ [p] else qlist s r)))) \<and>
    (p \<in> set (qlist s q) \<longrightarrow>
      (\<exists>s'. delete_process p (int q) s = Ret 1 s' \<and> ok_queues s' \<and> ptable s' = ptable s \<and>
         (\<forall>r<5. qlist s' r = (if r = q then remove1 p (qlist s q) else qlist s r))))"
proof (intro conjI impI)
  assume new: "p \<notin> set (qlist s q)"
  have other: "pid_of s x \<noteq> pid_of s p" if "x \<in> set (qlist s q)" for x
    using inj_onD [OF assms(5), of x p] that new by auto
  have valid: "p < length (ptable s)"
    using assms(1,3) by (simp add: ok_queues_def)
  show "delete_process p (int q) s = Ret 0 s"
    using rq.del_absent [OF assms(1,2) other] .
  show "\<exists>s'. push_back_process p (int q) s = Ret 1 s' \<and> ok_queues s' \<and>
      p_curr_queue_id (slot s' p) = int q \<and>
      (\<forall>r<5. qlist s' r = (if r = q then qlist s q @ [p] else qlist s r))"
    using rq.push_fresh [OF assms(1,2) valid other assms(4)] by (auto simp: fun_eq_iff)
next
  assume old: "p \<in> set (qlist s q)"
  have inj: "inj_on (pid_of s) (set (qlist s q))"
    using assms(5) by (rule inj_on_subset) auto
  have "wf_queues s" using assms(1) by (simp add: ok_queues_def)
  from delete_member [OF this assms(2) old inj] rq.del_present [OF assms(1,2) old inj]
  show "\<exists>s'. delete_process p (int q) s = Ret 1 s' \<and> ok_queues s' \<and> ptable s' = ptable s \<and>
      (\<forall>r<5. qlist s' r = (if r = q then remove1 p (qlist s q) else qlist s r))"
    by auto
qed

definition queue_example :: proc_state where
  "queue_example = (boot_state MLFQ)\<lparr>ptable := (replicate NPROC proc0)[1 := proc0\<lparr>p_pid := 7\<rparr>, 2 := proc0\<lparr>p_pid := 9\<rparr>],
     queue_ptr := replicate 5 (replicate 65 None), q_latest_idx := replicate 5 (-1)\<rparr>"

lemma queue_example_ok: "ok_queues queue_example" "q < 5 \<Longrightarrow> qlist queue_example q = []"
proof -
  show q: "qlist queue_example q = []" if "q < 5" for q
    using that by (simp add: queue_example_def qlist_def)
  show "ok_queues queue_example"
    using q by (simp add: ok_queues_def wf_queues_def) (simp add: queue_example_def row_of_def)
qed

theorem run_queues_refine_lists_witness:
  "\<exists>s'. push_back_process 1 2 queue_example = Ret 1 s' \<and> qlist s' 2 = [1] \<and> qlist s' 3 = []"
proof -
  have "inj_on (pid_of queue_example) (insert 1 (set (qlist queue_example 2)))"
    by (simp add: queue_example_ok)
  from run_queues_refine_lists [OF queue_example_ok(1) _ _ _ this] show ?thesis
    by (auto simp: queue_example_ok NPROC_def)
qed

text \<open>
  C6: The duplicate check of push_back_process stops one entry early (its loop runs to
  q_latest_idx exclusive), so pushing the process that is already last in the queue succeeds and
  leaves it in the queue twice.
\<close>

theorem push_back_misses_last:
  assumes "wf_queues s" "q < 5" "qlist s q = xs @ [p]" "length xs \<le> 63"
    and "\<And>x. x \<in> set xs \<Longrightarrow> pid_of s x \<noteq> pid_of s p"
  shows "\<exists>s'. push_back_process p (int q) s = Ret 1 s' \<and> qlist s' q = xs @ [p, p]"
proof -
  have "push_back_process p (int q) s =
      Ret 1 (upd_proc p (\<lambda>r. r\<lparr>p_curr_queue_id := int q\<rparr>) (set_queue q (xs @ [p, p]) s))"
    using push_back_new [OF assms(1,2), of p] assms(3-5) by simp
  moreover have "qlist (set_queue q (xs @ [p, p]) s) q = xs @ [p, p]"
    using qlist_set_queue [OF assms(1,2)] assms(2,4) by simp
  ultimately show ?thesis by simp
qed

theorem push_back_misses_last_witness:
  "\<exists>(s :: proc_state) s'. qlist s 0 = [1] \<and> push_back_process 1 0 s = Ret 1 s' \<and> qlist s' 0 = [1, 1]"
proof -
  let ?s = "set_queue 0 [1] queue_example"
  have wf: "wf_queues queue_example"
    using queue_example_ok(1) by (simp add: ok_queues_def)
  have "set [1::nat] \<subseteq> {..<length (ptable queue_example)}"
    by (simp add: queue_example_def NPROC_def)
  then have wf': "wf_queues ?s"
    using wf_set_queue [OF wf, of 0 "[1]"] by simp
  have q: "qlist ?s 0 = [] @ [1]"
    using qlist_set_queue [OF wf, of 0 "[1]" 0] by simp
  from push_back_misses_last [OF wf' _ q] q show ?thesis
    by auto
qed

end
