(* ===== verification/Proc.thy ===== *)
theory Proc
  imports Run_Queue
begin

text \<open>
  The operations of \<open>proc.c\<close> on the process table other than the schedulers and the operations that
  need the file system: allocation of a slot, sleep and wake-up, kill, priorities, accounting and
  the listings. \<open>sched\<close> returns in the state the scheduler loop finds; what a process does when
  it is switched to again is a definition of its own (\<open>sleep_resume\<close>, \<open>yield_resume\<close>). The trap
  frame of a process lies at the top of its kernel stack in the C code and is the field \<open>p_tf\<close> here;
  \<open>allocproc\<close> reads it from the new page. The switch frame below it is the field \<open>p_context\<close>, and the
  words \<open>allocproc\<close> puts there are also written to memory.
\<close>

section \<open>Operations\<close>

definition setup_demotion :: "nat \<Rightarrow> 'a proc_state_scheme \<Rightarrow> (unit, 'a proc_state_scheme) outcome" where
  "setup_demotion p s =
     kbind (acquire LkPtable s) (\<lambda>_ s.
     let s = upd_proc p (\<lambda>r. r\<lparr>p_should_demote := 1\<rparr>) s
     in release LkPtable s)"

definition states_str :: "procstate \<Rightarrow> string" where
  "states_str st =
     (case st of
        UNUSED \<Rightarrow> ''unused   '' | EMBRYO \<Rightarrow> ''embryo   '' | SLEEPING \<Rightarrow> ''sleep    ''
      | RUNNABLE \<Rightarrow> ''runable  '' | RUNNING \<Rightarrow> ''running  '' | ZOMBIE \<Rightarrow> ''zombie   '')"

text \<open>One line of \<open>ps\<close>: pid, priority, state, run time, wait time, times scheduled, queue, ticks.\<close>

record ps_row =
  ps_pid :: int
  ps_priority :: int
  ps_state :: string
  ps_rtime :: int
  ps_wtime :: int
  ps_nrun :: int
  ps_cur_q :: int
  ps_ticks :: "int list"

definition get_ps_data ::
  "'a proc_state_scheme \<Rightarrow> (int \<times> ps_row list, 'a proc_state_scheme) outcome" where
  "get_ps_data s =
     kbind (acquire LkPtable s) (\<lambda>_ s.
     let rows = map (\<lambda>p. \<lparr>ps_pid = p_pid p, ps_priority = p_curr_priority p,
                    ps_state = states_str (p_state p), ps_rtime = p_tot_run_time p,
                    ps_wtime = p_curr_wait_time p, ps_nrun = p_num_times_scheduled p,
                    ps_cur_q = p_curr_queue_id p, ps_ticks = take 5 (p_tot_ticks_got p)\<rparr>)
                  (filter (\<lambda>p. p_state p \<noteq> UNUSED) (map (slot s) [0..<NPROC]))
     in kbind (release LkPtable s) (\<lambda>_ s. Ret (0, rows) s))"

text \<open>\<open>mycpu\<close>, as the index into \<open>cpus\<close>; the interrupt flag, the local APIC id and the ids of the
  CPUs are what it reads from the hardware.\<close>

definition mycpu :: "bool \<Rightarrow> nat \<Rightarrow> nat list \<Rightarrow> 's \<Rightarrow> (nat, 's) outcome" where
  "mycpu intr_on apicid apicids s =
     (if intr_on then Panic (''mycpu called with interrupts enabled'' @ [CHR 0x0A])
      else case find (\<lambda>i. apicids ! i = apicid) [0..<length apicids] of
             Some i \<Rightarrow> Ret i s
           | None \<Rightarrow> Panic (''unknown apicid'' @ [CHR 0x0A]))"

definition myproc :: "'a proc_state_scheme \<Rightarrow> nat option" where
  "myproc s = cpu_proc s"

definition get_maxima :: "int \<Rightarrow> int \<Rightarrow> int" where
  "get_maxima a b = (if a > b then a else b)"

fun reset_loop :: "int \<Rightarrow> int \<Rightarrow> nat list \<Rightarrow> 'a proc_state_scheme \<Rightarrow> (int, 'a proc_state_scheme) outcome" where
  "reset_loop new_priority max_chances_yet [] s = Ret 0 s"
| "reset_loop new_priority max_chances_yet (i # is) s =
     (if p_curr_priority (slot s i) = new_priority then
        let s = upd_proc i (\<lambda>r. r\<lparr>p_pbs_chances := int_wrap (p_pbs_chances r - max_chances_yet)\<rparr>) s
        in if p_pbs_chances (slot s i) \<noteq> 0 \<and> p_pbs_chances (slot s i) \<noteq> 1 then Ret (-1) s
           else reset_loop new_priority max_chances_yet is s
      else reset_loop new_priority max_chances_yet is s)"

definition reset_pbs_chances :: "int \<Rightarrow> 'a proc_state_scheme \<Rightarrow> (int, 'a proc_state_scheme) outcome" where
  "reset_pbs_chances new_priority s =
     (let max_chances_yet =
        fold (\<lambda>i m. if p_curr_priority (slot s i) = new_priority
                    then get_maxima m (p_pbs_chances (slot s i)) else m) [0..<NPROC] 0
      in reset_loop new_priority max_chances_yet [0..<NPROC] s)"

definition initialize_new_fields :: "nat \<Rightarrow> 'a proc_state_scheme \<Rightarrow> 'a proc_state_scheme" where
  "initialize_new_fields p s =
     (let s = upd_proc p (\<lambda>r. r\<lparr>p_creation_time := sint (ticks s), p_tot_sleep_time := 0,
                 p_tot_run_time := 0, p_num_times_scheduled := 0, p_end_time := 0,
                 p_curr_wait_time := 0, p_curr_priority := 60, p_pbs_chances := 0\<rparr>) s;
          s = (if sched_cfg s \<noteq> PBS then upd_proc p (\<lambda>r. r\<lparr>p_curr_priority := -1\<rparr>) s else s);
          s = (if sched_cfg s = MLFQ
               then upd_proc p (\<lambda>r. r\<lparr>p_curr_ticks_got := 0, p_curr_queue_id := 0,
                      p_enter := sint (ticks s),
                      p_tot_ticks_got := (p_tot_ticks_got r)[0 := 0, 1 := 0, 2 := 0, 3 := 0, 4 := 0]\<rparr>) s
               else s)
      in s)"

definition KSTACKSIZE :: uint32 where "KSTACKSIZE = 4096"

text \<open>The part of \<open>allocproc\<close> that lays out the new kernel stack \<open>a\<close>.\<close>

definition setup_kstack :: "nat \<Rightarrow> uint32 \<Rightarrow> 'a proc_state_scheme \<Rightarrow> 'a proc_state_scheme" where
  "setup_kstack p a s =
     (let sp = a + KSTACKSIZE;
          sp = sp - 76;
          s = upd_proc p (\<lambda>r. r\<lparr>p_tf := tf_at (mem s) sp\<rparr>) s;
          sp = sp - 4;
          s = s\<lparr>mem := (mem s)(sp := trapret_addr s)\<rparr>;
          sp = sp - 20;
          s = upd_proc p (\<lambda>r. r\<lparr>p_context := CtxForkret\<rparr>) s;
          s = s\<lparr>mem := (mem s)(sp := 0, sp + 4 := 0, sp + 8 := 0, sp + 12 := 0, sp + 16 := 0)\<rparr>
      in s\<lparr>mem := (mem s)(sp + 16 := forkret_addr s)\<rparr>)"

definition allocproc :: "'a proc_state_scheme \<Rightarrow> (nat option, 'a proc_state_scheme) outcome" where
  "allocproc s =
     kbind (acquire LkPtable s) (\<lambda>_ s.
     case find (\<lambda>i. p_state (slot s i) = UNUSED) [0..<NPROC] of
       None \<Rightarrow> kbind (release LkPtable s) (\<lambda>_ s. Ret None s)
     | Some p \<Rightarrow>
         let s = upd_proc p (\<lambda>r. r\<lparr>p_state := EMBRYO, p_pid := nextpid s, p_curr_priority := 60\<rparr>) s;
             s = s\<lparr>nextpid := int_wrap (nextpid s + 1)\<rparr>
         in kbind (release LkPtable s) (\<lambda>_ s.
            kbind (kalloc s) (\<lambda>a s.
              let s = upd_proc p (\<lambda>r. r\<lparr>p_kstack := a\<rparr>) s
              in if a = 0 then Ret None (upd_proc p (\<lambda>r. r\<lparr>p_state := UNUSED\<rparr>) s)
                 else
                   let s = setup_kstack p a s
                   in Ret (Some p) (initialize_new_fields p s))))"

text \<open>One step of the loop of \<open>wakeup1\<close>.\<close>

definition wake_one :: "chan \<Rightarrow> nat \<Rightarrow> 'a proc_state_scheme \<Rightarrow> (unit, 'a proc_state_scheme) outcome" where
  "wake_one c i s =
     (if p_state (slot s i) = SLEEPING \<and> p_chan (slot s i) = c then
        let s = upd_proc i (\<lambda>r. r\<lparr>p_state := RUNNABLE\<rparr>) s
        in if sched_cfg s = MLFQ then
             let s = upd_proc i (\<lambda>r. r\<lparr>p_curr_ticks_got := 0\<rparr>) s
             in kbind (push_back_process i (p_curr_queue_id (slot s i)) s) (\<lambda>_ s. Ret () s)
           else Ret () s
      else Ret () s)"

definition wakeup1 :: "chan \<Rightarrow> 'a proc_state_scheme \<Rightarrow> (unit, 'a proc_state_scheme) outcome" where
  "wakeup1 c s = kfor [0..<NPROC] (wake_one c) s"

definition wakeup :: "chan \<Rightarrow> 'a proc_state_scheme \<Rightarrow> (unit, 'a proc_state_scheme) outcome" where
  "wakeup c s =
     kbind (acquire LkPtable s) (\<lambda>_ s. kbind (wakeup1 c s) (\<lambda>_ s. release LkPtable s))"

definition kill :: "int \<Rightarrow> 'a proc_state_scheme \<Rightarrow> (int, 'a proc_state_scheme) outcome" where
  "kill pid s =
     kbind (acquire LkPtable s) (\<lambda>_ s.
     case find (\<lambda>i. p_pid (slot s i) = pid) [0..<NPROC] of
       None \<Rightarrow> kbind (release LkPtable s) (\<lambda>_ s. Ret (-1) s)
     | Some i \<Rightarrow>
         let s = upd_proc i (\<lambda>r. r\<lparr>p_killed := True\<rparr>) s
         in kbind (if p_state (slot s i) = SLEEPING then
                     kbind (if sched_cfg s = MLFQ
                            then push_back_process i (p_curr_queue_id (slot s i)) s
                            else Ret 0 s) (\<lambda>_ s.
                     Ret () (upd_proc i (\<lambda>r. r\<lparr>p_state := RUNNABLE\<rparr>) s))
                   else Ret () s) (\<lambda>_ s.
            kbind (release LkPtable s) (\<lambda>_ s. Ret 0 s)))"

definition sched :: "'a proc_state_scheme \<Rightarrow> (unit, 'a proc_state_scheme) outcome" where
  "sched s =
     (case myproc s of
        None \<Rightarrow> Fault
      | Some p \<Rightarrow>
          if LkPtable \<notin> set (held s) then Panic ''sched ptable.lock''
          else if length (held s) \<noteq> 1 then Panic ''sched locks''
          else if p_state (slot s p) = RUNNING then Panic ''sched running''
          else Ret () (upd_proc p (\<lambda>r. r\<lparr>p_context := CtxSched\<rparr>) s))"

definition yield :: "'a proc_state_scheme \<Rightarrow> (unit, 'a proc_state_scheme) outcome" where
  "yield s =
     kbind (acquire LkPtable s) (\<lambda>_ s.
     case myproc s of
       None \<Rightarrow> Fault
     | Some p \<Rightarrow> sched (upd_proc p (\<lambda>r. r\<lparr>p_state := RUNNABLE\<rparr>) s))"

definition yield_resume :: "'a proc_state_scheme \<Rightarrow> (unit, 'a proc_state_scheme) outcome" where
  "yield_resume s = release LkPtable s"

text \<open>
  The statements of \<open>sleep\<close> up to the switch, one by one: between any two of them another CPU may
  take a step.
\<close>

definition sleep_code ::
  "nat \<Rightarrow> chan \<Rightarrow> lock \<Rightarrow> ('a proc_state_scheme \<Rightarrow> (unit, 'a proc_state_scheme) outcome) list" where
  "sleep_code p c lk =
     (if lk \<noteq> LkPtable then [acquire LkPtable, release lk] else []) @
     [\<lambda>s. Ret () (upd_proc p (\<lambda>r. r\<lparr>p_chan := c\<rparr>) s),
      \<lambda>s. Ret () (upd_proc p (\<lambda>r. r\<lparr>p_state := SLEEPING\<rparr>) s),
      sched]"

definition sleep :: "chan \<Rightarrow> lock \<Rightarrow> 'a proc_state_scheme \<Rightarrow> (unit, 'a proc_state_scheme) outcome" where
  "sleep c lk s =
     (case myproc s of
        None \<Rightarrow> Panic ''sleep''
      | Some p \<Rightarrow> kbind (kseq (sleep_code p c lk) s) (\<lambda>_ s. Block c s))"

definition sleep_resume :: "lock \<Rightarrow> 'a proc_state_scheme \<Rightarrow> (unit, 'a proc_state_scheme) outcome" where
  "sleep_resume lk s =
     (case myproc s of
        None \<Rightarrow> Fault
      | Some p \<Rightarrow>
          let s = upd_proc p (\<lambda>r. r\<lparr>p_chan := Chan0\<rparr>) s
          in if lk \<noteq> LkPtable
             then kbind (release LkPtable s) (\<lambda>_ s. acquire lk s)
             else Ret () s)"

definition set_priority :: "int \<Rightarrow> int \<Rightarrow> 'a proc_state_scheme \<Rightarrow> (int, 'a proc_state_scheme) outcome" where
  "set_priority new_priority proc_pid s =
     (if new_priority < 0 \<or> new_priority > 100 then Ret (-4) s
      else
        kbind (acquire LkPtable s) (\<lambda>_ s.
        case find (\<lambda>i. p_pid (slot s i) = proc_pid) [0..<NPROC] of
          None \<Rightarrow> kbind (release LkPtable s) (\<lambda>_ s. Ret (-3) s)
        | Some i \<Rightarrow>
            if p_state (slot s i) = UNUSED \<or> p_state (slot s i) = ZOMBIE
            then kbind (release LkPtable s) (\<lambda>_ s. Ret (-2) s)
            else
              kbind (reset_pbs_chances new_priority s) (\<lambda>_ s.
              let old_priority = p_curr_priority (slot s i);
                  s = upd_proc i (\<lambda>r. r\<lparr>p_curr_priority := new_priority\<rparr>) s;
                  s = upd_proc i (\<lambda>r. r\<lparr>p_pbs_chances := 0\<rparr>) s
              in kbind (release LkPtable s) (\<lambda>_ s. Ret old_priority s))))"

text \<open>One step of the loop of \<open>update_process_stats\<close>.\<close>

definition stat_one :: "nat \<Rightarrow> 'a proc_state_scheme \<Rightarrow> (unit, 'a proc_state_scheme) outcome" where
  "stat_one i s =
     (let p = slot s i
      in if p_killed p \<or> p_pid p = 0 then Ret () s
         else if p_state p = RUNNING then
           let s = upd_proc i (\<lambda>r. r\<lparr>p_tot_run_time := int_wrap (p_tot_run_time r + 1)\<rparr>) s
           in if sched_cfg s = MLFQ then
                let q = p_curr_queue_id p
                in if \<not> (0 \<le> q \<and> q < 6) then Fault
                   else Ret () (upd_proc i (\<lambda>r. r\<lparr>p_curr_ticks_got := int_wrap (p_curr_ticks_got r + 1),
                          p_tot_ticks_got := (p_tot_ticks_got r)[nat q := int_wrap (p_tot_ticks_got r ! nat q + 1)]\<rparr>) s)
              else Ret () s
         else if p_state p = SLEEPING then
           Ret () (upd_proc i (\<lambda>r. r\<lparr>p_tot_sleep_time := int_wrap (p_tot_sleep_time r + 1)\<rparr>) s)
         else if p_state p = RUNNABLE then
           Ret () (upd_proc i (\<lambda>r. r\<lparr>p_curr_wait_time := int_wrap (p_curr_wait_time r + 1)\<rparr>) s)
         else Ret () s)"

definition update_process_stats :: "'a proc_state_scheme \<Rightarrow> (unit, 'a proc_state_scheme) outcome" where
  "update_process_stats s =
     kbind (acquire LkPtable s) (\<lambda>_ s.
     kbind (kfor [0..<NPROC] stat_one s) (\<lambda>_ s. release LkPtable s))"

text \<open>The listing of \<open>^P\<close>; the return addresses it adds for sleeping processes are left out.\<close>

definition procdump :: "'a proc_state_scheme \<Rightarrow> (int \<times> string \<times> string) list" where
  "procdump s =
     map (\<lambda>p. (p_pid p,
               case p_state p of
                 UNUSED \<Rightarrow> ''unused'' | EMBRYO \<Rightarrow> ''embryo'' | SLEEPING \<Rightarrow> ''sleep ''
               | RUNNABLE \<Rightarrow> ''runble'' | RUNNING \<Rightarrow> ''run   '' | ZOMBIE \<Rightarrow> ''zombie'',
               p_name p))
       (filter (\<lambda>p. p_state p \<noteq> UNUSED) (map (slot s) [0..<NPROC]))"

section \<open>Invariants of the table\<close>

text \<open>
  Pids: every slot's pid is below \<open>nextpid\<close>, a slot in use has a positive one, and no two slots
  share a positive one (a slot keeps the pid of a process whose creation failed). It holds until
  \<open>nextpid\<close> passes the largest \<open>int\<close>.
\<close>

definition pid_inv :: "'a proc_state_scheme \<Rightarrow> bool" where
  "pid_inv s \<longleftrightarrow> length (ptable s) = NPROC \<and> 0 < nextpid s \<and> nextpid s < 2 ^ 31 \<and>
     (\<forall>i<NPROC. 0 \<le> pid_of s i \<and> pid_of s i < nextpid s \<and>
        (p_state (slot s i) \<noteq> UNUSED \<longrightarrow> 0 < pid_of s i)) \<and>
     (\<forall>i<NPROC. \<forall>j<NPROC. pid_of s i = pid_of s j \<longrightarrow> pid_of s i \<noteq> 0 \<longrightarrow> i = j)"

text \<open>
  Queues: a process is in queue \<open>q\<close>, once, exactly when it is runnable and at level \<open>q\<close>. The
  processes in \<open>E\<close> are exempt: a process that has just given up the CPU is runnable but in no
  queue until the scheduler puts it back.
\<close>

definition sched_inv :: "nat set \<Rightarrow> 'a proc_state_scheme \<Rightarrow> bool" where
  "sched_inv E s \<longleftrightarrow> pid_inv s \<and>
     (sched_cfg s = MLFQ \<longrightarrow> wf_queues s \<and>
        (\<forall>i<NPROC. 0 \<le> p_curr_queue_id (slot s i) \<and> p_curr_queue_id (slot s i) < 5) \<and>
        (\<forall>q<5. distinct (qlist s q)) \<and>
        (\<forall>q<5. \<forall>i<NPROC. i \<in> set (qlist s q) \<longleftrightarrow>
           i \<notin> E \<and> p_state (slot s i) = RUNNABLE \<and> p_curr_queue_id (slot s i) = int q))"

lemma sched_inv_length [simp]: "sched_inv E s \<Longrightarrow> length (ptable s) = NPROC"
  by (simp add: sched_inv_def pid_inv_def)

lemma sched_inv_queues:
  assumes "sched_inv E s" "sched_cfg s = MLFQ"
  shows "ok_queues s" "wf_queues s"
    and "\<And>i. i < NPROC \<Longrightarrow> 0 \<le> p_curr_queue_id (slot s i) \<and> p_curr_queue_id (slot s i) < 5"
    and "\<And>q. q < 5 \<Longrightarrow> distinct (qlist s q)"
    and "\<And>q i. q < 5 \<Longrightarrow> i < NPROC \<Longrightarrow> i \<in> set (qlist s q) \<longleftrightarrow>
       i \<notin> E \<and> p_state (slot s i) = RUNNABLE \<and> p_curr_queue_id (slot s i) = int q"
  using assms by (auto simp: sched_inv_def pid_inv_def ok_queues_def)

lemma sched_inv_level:
  assumes "sched_inv E s" "sched_cfg s = MLFQ" "i < NPROC"
  obtains q where "q < 5" "p_curr_queue_id (slot s i) = int q"
  using sched_inv_queues(3) [OF assms]
  by (metis int_nat_eq nat_less_iff of_nat_numeral of_nat_less_iff)

text \<open>The invariant depends on the table, \<open>nextpid\<close>, the queues and the configuration alone.\<close>

lemma sched_inv_cong:
  assumes "ptable s' = ptable s" "nextpid s' = nextpid s" "sched_cfg s' = sched_cfg s"
    "queue_ptr s' = queue_ptr s" "q_latest_idx s' = q_latest_idx s"
  shows "sched_inv E s' = sched_inv E s"
proof -
  have "wf_queues s' = wf_queues s"
    using assms by (intro wf_queues_cong) simp_all
  moreover have "qlist s' = qlist s"
    using assms by (intro qlist_cong) simp_all
  ultimately show ?thesis
    using assms by (simp add: sched_inv_def pid_inv_def)
qed

lemma pid_inv_upd:
  assumes "pid_inv s" "p_pid (f (slot s i)) = pid_of s i"
    and "p_state (f (slot s i)) \<noteq> UNUSED \<Longrightarrow> p_state (slot s i) = UNUSED \<Longrightarrow> 0 < pid_of s i"
  shows "pid_inv (upd_proc i f s)"
proof (cases "i < NPROC")
  case True
  have pid: "pid_of (upd_proc i f s) j = pid_of s j" for j
    using assms(1,2) True by (cases "j = i") (simp_all add: pid_inv_def)
  have st: "0 < pid_of s j" if "j < NPROC" "p_state (slot (upd_proc i f s) j) \<noteq> UNUSED" for j
    using that assms True by (cases "j = i") (auto simp: pid_inv_def)
  show ?thesis
    using assms(1) st unfolding pid_inv_def pid by simp
next
  case False
  with assms(1) show ?thesis by (simp add: pid_inv_def)
qed

lemma sched_inv_upd:
  assumes "sched_inv E s" "i < NPROC" "p_pid (f (slot s i)) = pid_of s i"
    and "p_state (f (slot s i)) \<noteq> UNUSED \<Longrightarrow> p_state (slot s i) = UNUSED \<Longrightarrow> 0 < pid_of s i"
    and "sched_cfg s = MLFQ \<Longrightarrow> 0 \<le> p_curr_queue_id (f (slot s i)) \<and> p_curr_queue_id (f (slot s i)) < 5"
    and "sched_cfg s = MLFQ \<Longrightarrow> i \<in> E \<or> (p_state (slot s i) \<noteq> RUNNABLE \<and> p_state (f (slot s i)) \<noteq> RUNNABLE) \<or>
      (p_state (f (slot s i)) = p_state (slot s i) \<and> p_curr_queue_id (f (slot s i)) = p_curr_queue_id (slot s i))"
  shows "sched_inv E (upd_proc i f s)"
proof -
  have "pid_inv (upd_proc i f s)"
    using assms(1) by (intro pid_inv_upd assms(3,4)) (auto simp: sched_inv_def)
  moreover have len: "length (ptable s) = NPROC"
    using assms(1) by simp
  ultimately show ?thesis
    using assms(1,2,5,6) unfolding sched_inv_def
    by (auto simp: nth_list_update)
qed

text \<open>A process that is not runnable may be exempted or not.\<close>

lemma sched_inv_exempt:
  assumes "sched_inv E s" "p_state (slot s i) \<noteq> RUNNABLE"
  shows "sched_inv (insert i E) s" "sched_inv (E - {i}) s"
  using assms by (auto simp: sched_inv_def)

text \<open>Putting an exempt process back: the push succeeds and the invariant holds without exemption.\<close>

lemma inj_on_pid:
  assumes "pid_inv s" "i < NPROC" "j < NPROC" "p_state (slot s i) \<noteq> UNUSED" "pid_of s i = pid_of s j"
  shows "i = j"
  using assms by (auto simp: pid_inv_def)

lemma sched_inv_push:
  assumes "sched_inv E s" "i < NPROC" "i \<in> E \<or> p_state (slot s i) \<noteq> RUNNABLE"
    and "p_state (slot s i) \<noteq> UNUSED" "sched_cfg s = MLFQ" "q < 5"
  shows "push_back_process i (int q) s =
    Ret 1 (upd_proc i (\<lambda>r. r\<lparr>p_curr_queue_id := int q\<rparr>) (set_queue q (qlist s q @ [i]) s))"
    and "p_pid (f (slot s i)) = pid_of s i \<Longrightarrow> p_state (f (slot s i)) = RUNNABLE \<Longrightarrow>
      p_curr_queue_id (f (slot s i)) = int q \<Longrightarrow>
      sched_inv (E - {i}) (upd_proc i f (set_queue q (qlist s q @ [i]) s))"
    and "\<And>r. r < 5 \<Longrightarrow> qlist (set_queue q (qlist s q @ [i]) s) r = (if r = q then qlist s q @ [i] else qlist s r)"
proof -
  note inv = sched_inv_queues [OF assms(1,5)]
  have len: "length (ptable s) = NPROC" using assms(1) by simp
  have notin: "i \<notin> set (qlist s r)" if "r < 5" for r
    using inv(5) [OF that assms(2)] assms(3) by blast
  have pid: "pid_of s x \<noteq> pid_of s i" if "x \<in> set (qlist s q)" for x
  proof
    assume eq: "pid_of s x = pid_of s i"
    have "x < NPROC" using that wf_queuesD(4) [OF inv(2) assms(6)] len by auto
    then have "i = x"
      using inj_on_pid [of s i x] assms(1,2,4) eq by (simp add: sched_inv_def)
    with notin [OF assms(6)] that show False by simp
  qed
  have valid: "i < length (ptable s)" using assms(2) len by simp
  note push = push_back_fresh [OF inv(1) assms(6) valid inv(4) [OF assms(6)] pid]
  show "push_back_process i (int q) s =
    Ret 1 (upd_proc i (\<lambda>r. r\<lparr>p_curr_queue_id := int q\<rparr>) (set_queue q (qlist s q @ [i]) s))"
    by (rule push(1))
  let ?s = "set_queue q (qlist s q @ [i]) s"
  have small: "length (qlist s q @ [i]) \<le> 65"
    using push(3) by simp
  show ql: "qlist ?s r = (if r = q then qlist s q @ [i] else qlist s r)" if "r < 5" for r
    using qlist_set_queue [OF inv(2) assms(6) small that] .
  assume f: "p_pid (f (slot s i)) = pid_of s i" "p_state (f (slot s i)) = RUNNABLE"
    "p_curr_queue_id (f (slot s i)) = int q"
  have "pid_inv ?s" using assms(1) by (simp add: sched_inv_def pid_inv_def)
  then have "pid_inv (upd_proc i f ?s)"
    using assms(4) f by (intro pid_inv_upd) simp_all
  moreover have "slot (upd_proc i f ?s) j = (if j = i then f (slot s i) else slot s j)" for j
    using valid slot_upd_proc [of i ?s f j] by simp
  ultimately show "sched_inv (E - {i}) (upd_proc i f ?s)"
    using push(2) f inv(3-5) notin [OF assms(6)] assms(3,6) ql unfolding sched_inv_def
    by (simp del: ptable_upd_proc) auto
qed

section \<open>Loops over the table\<close>

text \<open>A loop whose body updates its own slot by one function maps that function over the table.\<close>

lemma kfor_Suc: "kfor [0..<Suc n] f s = kbind (kfor [0..<n] f s) (\<lambda>_. f n)"
proof -
  have "kfor (xs @ [n]) f s = kbind (kfor xs f s) (\<lambda>_. f n)" for xs
  proof (induction xs arbitrary: s)
    case Nil
    then show ?case by (cases "f n s") simp_all
  next
    case (Cons i xs)
    then show ?case by (cases "f i s") simp_all
  qed
  then show ?thesis by simp
qed

lemma list_map_update:
  "n < length xs \<Longrightarrow> (map g (take n xs) @ drop n xs)[n := g ((map g (take n xs) @ drop n xs) ! n)] =
    map g (take (Suc n) xs) @ drop (Suc n) xs"
  by (rule nth_equalityI) (auto simp: nth_append nth_list_update min_def)

lemma kfor_map_slots:
  assumes "\<And>i t. i < NPROC \<Longrightarrow> slot t i = slot s i \<Longrightarrow> t = s\<lparr>ptable := ptable t\<rparr> \<Longrightarrow>
      f i t = Ret () (upd_proc i g t)"
    and "length (ptable s) = NPROC"
  shows "kfor [0..<NPROC] f s = Ret () (s\<lparr>ptable := map g (ptable s)\<rparr>)"
proof -
  have "n \<le> NPROC \<Longrightarrow> kfor [0..<n] f s = Ret () (s\<lparr>ptable := map g (take n (ptable s)) @ drop n (ptable s)\<rparr>)" for n
  proof (induction n)
    case 0
    then show ?case by simp
  next
    case (Suc n)
    let ?t = "s\<lparr>ptable := map g (take n (ptable s)) @ drop n (ptable s)\<rparr>"
    have "slot ?t n = slot s n"
      using Suc.prems assms(2) by (simp add: nth_append)
    then have "f n ?t = Ret () (upd_proc n g ?t)"
      using assms(1) [of n ?t] Suc.prems by simp
    moreover have "upd_proc n g ?t = s\<lparr>ptable := map g (take (Suc n) (ptable s)) @ drop (Suc n) (ptable s)\<rparr>"
      using list_map_update [of n "ptable s" g] Suc.prems assms(2) by (simp add: upd_proc_def)
    ultimately show ?case
      using Suc by (simp only: kfor_Suc) simp
  qed
  from this [of NPROC] show ?thesis using assms(2) by simp
qed

text \<open>What a tick does to one process.\<close>

definition tick_proc :: "sched_type \<Rightarrow> proc \<Rightarrow> proc" where
  "tick_proc cfg p =
     (if p_killed p \<or> p_pid p = 0 then p
      else case p_state p of
        RUNNING \<Rightarrow>
          (if cfg = MLFQ
           then p\<lparr>p_tot_run_time := int_wrap (p_tot_run_time p + 1), p_curr_ticks_got := int_wrap (p_curr_ticks_got p + 1),
             p_tot_ticks_got := (p_tot_ticks_got p)[nat (p_curr_queue_id p) :=
               int_wrap (p_tot_ticks_got p ! nat (p_curr_queue_id p) + 1)]\<rparr>
           else p\<lparr>p_tot_run_time := int_wrap (p_tot_run_time p + 1)\<rparr>)
      | SLEEPING \<Rightarrow> p\<lparr>p_tot_sleep_time := int_wrap (p_tot_sleep_time p + 1)\<rparr>
      | RUNNABLE \<Rightarrow> p\<lparr>p_curr_wait_time := int_wrap (p_curr_wait_time p + 1)\<rparr>
      | _ \<Rightarrow> p)"

lemma tick_proc_fields:
  "tick_proc cfg p =
     (let live = (\<not> p_killed p \<and> p_pid p \<noteq> 0); q = nat (p_curr_queue_id p);
          charge = (\<lambda>b x. if live \<and> b then int_wrap (x + 1) else x) in
      p\<lparr>p_tot_run_time := charge (p_state p = RUNNING) (p_tot_run_time p),
        p_tot_sleep_time := charge (p_state p = SLEEPING) (p_tot_sleep_time p),
        p_curr_wait_time := charge (p_state p = RUNNABLE) (p_curr_wait_time p),
        p_curr_ticks_got := charge (p_state p = RUNNING \<and> cfg = MLFQ) (p_curr_ticks_got p),
        p_tot_ticks_got := (p_tot_ticks_got p)
          [q := charge (p_state p = RUNNING \<and> cfg = MLFQ) (p_tot_ticks_got p ! q)]\<rparr>)"
  by (cases "p_state p") (simp_all add: tick_proc_def Let_def)

lemma upd_proc_upd_proc [simp]: "upd_proc i f (upd_proc i g s) = upd_proc i (\<lambda>r. f (g r)) s"
  by (cases "i < length (ptable s)") (simp_all add: upd_proc_def list_update_beyond)

lemma upd_proc_same: "f (slot s i) = slot s i \<Longrightarrow> upd_proc i f s = s"
  by (simp add: upd_proc_def)

lemma upd_proc_cong: "f (slot s i) = g (slot s i) \<Longrightarrow> upd_proc i f s = upd_proc i g s"
  by (simp add: upd_proc_def)

lemma stat_one_tick:
  assumes "sched_cfg s = MLFQ \<Longrightarrow> 0 \<le> p_curr_queue_id (slot s i) \<and> p_curr_queue_id (slot s i) < 6"
  shows "stat_one i s = Ret () (upd_proc i (tick_proc (sched_cfg s)) s)"
  using assms
  by (cases "p_state (slot s i)")
    (auto simp: stat_one_def tick_proc_def Let_def intro!: upd_proc_cong upd_proc_same [symmetric])

lemma update_process_stats_map:
  assumes "sched_inv E s" "LkPtable \<notin> set (held s)"
  shows "update_process_stats s = Ret () (s\<lparr>ptable := map (tick_proc (sched_cfg s)) (ptable s)\<rparr>)"
proof -
  let ?s = "s\<lparr>held := LkPtable # held s\<rparr>"
  have "kfor [0..<NPROC] stat_one ?s = Ret () (?s\<lparr>ptable := map (tick_proc (sched_cfg s)) (ptable ?s)\<rparr>)"
  proof (rule kfor_map_slots)
    fix i and t :: "'a proc_state_scheme"
    assume t: "i < NPROC" "slot t i = slot ?s i" "t = ?s\<lparr>ptable := ptable t\<rparr>"
    have "sched_cfg t = sched_cfg s"
      using arg_cong [OF t(3), of sched_cfg] by simp
    then show "stat_one i t = Ret () (upd_proc i (tick_proc (sched_cfg s)) t)"
      using sched_inv_queues(3) [OF assms(1) _ t(1)] t(2) stat_one_tick [of t i] by force
  qed (use assms in simp)
  then show ?thesis
    using assms(2) by (simp add: update_process_stats_def)
qed

section \<open>Sleep and wake-up\<close>

text \<open>Two states that differ in the table and the queues only.\<close>

definition table_frame :: "'a proc_state_scheme \<Rightarrow> 'a proc_state_scheme \<Rightarrow> bool" where
  "table_frame s s' \<longleftrightarrow> held s' = held s \<and> use_lock s' = use_lock s \<and> freelist s' = freelist s \<and>
     mem s' = mem s \<and> kend s' = kend s \<and> sched_cfg s' = sched_cfg s \<and> nextpid s' = nextpid s \<and>
     initproc s' = initproc s \<and> ticks s' = ticks s \<and> cpu_proc s' = cpu_proc s \<and> cr3 s' = cr3 s \<and> kpgdir s' = kpgdir s \<and>
     ts_esp0 s' = ts_esp0 s \<and> trapret_addr s' = trapret_addr s \<and> forkret_addr s' = forkret_addr s \<and>
     klog s' = klog s \<and> proc_state.more s' = proc_state.more s"

lemma table_frameD:
  assumes "table_frame s s'"
  shows "held s' = held s" "use_lock s' = use_lock s" "freelist s' = freelist s" "mem s' = mem s"
    "kend s' = kend s" "sched_cfg s' = sched_cfg s" "nextpid s' = nextpid s"
    "initproc s' = initproc s" "ticks s' = ticks s" "cpu_proc s' = cpu_proc s" "cr3 s' = cr3 s" "kpgdir s' = kpgdir s"
    "ts_esp0 s' = ts_esp0 s"
    "klog s' = klog s" "proc_state.more s' = proc_state.more s"
    "trapret_addr s' = trapret_addr s" "forkret_addr s' = forkret_addr s"
  using assms by (simp_all add: table_frame_def)

lemma table_frame_refl [simp]: "table_frame s s"
  by (simp add: table_frame_def)

lemma table_frame_trans [trans]: "table_frame s s' \<Longrightarrow> table_frame s' s'' \<Longrightarrow> table_frame s s''"
  by (simp add: table_frame_def)

lemma table_frame_upd [simp]: "table_frame s (upd_proc i f t) = table_frame s t"
  by (simp add: table_frame_def) (simp add: upd_proc_def)

lemma table_frame_set_queue [simp]: "table_frame s (set_queue q xs t) = table_frame s t"
  by (simp add: table_frame_def) (simp add: set_queue_def)

definition sleeps_on :: "chan \<Rightarrow> proc \<Rightarrow> bool" where
  "sleeps_on c p \<longleftrightarrow> p_state p = SLEEPING \<and> p_chan p = c"

definition wake_proc :: "sched_type \<Rightarrow> proc \<Rightarrow> proc" where
  "wake_proc cfg p =
     (if cfg = MLFQ then p\<lparr>p_state := RUNNABLE, p_curr_ticks_got := 0\<rparr> else p\<lparr>p_state := RUNNABLE\<rparr>)"

lemma wake_one_spec:
  assumes "sched_inv {} s" "i < NPROC"
  shows "\<exists>s'. wake_one c i s = Ret () s' \<and> sched_inv {} s' \<and> table_frame s s' \<and>
    (\<forall>j<NPROC. slot s' j = (if j = i \<and> sleeps_on c (slot s i) then wake_proc (sched_cfg s) (slot s i) else slot s j)) \<and>
    (sched_cfg s = MLFQ \<longrightarrow> (\<forall>q<5. qlist s' q =
       qlist s q @ (if sleeps_on c (slot s i) \<and> p_curr_queue_id (slot s i) = int q then [i] else [])))"
proof (cases "sleeps_on c (slot s i)")
  case False
  then show ?thesis using assms by (auto simp: wake_one_def sleeps_on_def)
next
  case sleeping: True
  have len: "i < length (ptable s)" using assms by simp
  show ?thesis
  proof (cases "sched_cfg s = MLFQ")
    case False
    have "sched_inv {} (upd_proc i (\<lambda>r. r\<lparr>p_state := RUNNABLE\<rparr>) s)"
      using assms sleeping False by (intro sched_inv_upd) (auto simp: sleeps_on_def)
    with sleeping False len show ?thesis
      by (auto simp: wake_one_def sleeps_on_def wake_proc_def)
  next
    case mlfq: True
    obtain q where q: "q < 5" "p_curr_queue_id (slot s i) = int q"
      by (rule sched_inv_level [OF assms(1) mlfq assms(2)])
    let ?f = "\<lambda>r. r\<lparr>p_state := RUNNABLE, p_curr_ticks_got := 0\<rparr>"
    let ?s = "upd_proc i ?f s"
    have ex: "sched_inv {i} s"
      using sched_inv_exempt(1) [OF assms(1), of i] sleeping by (simp add: sleeps_on_def)
    have inv: "sched_inv {i} ?s"
      using sched_inv_upd [OF ex assms(2), of ?f] sched_inv_queues(3) [OF assms(1) _ assms(2)] sleeping
      by (simp add: sleeps_on_def)
    have slot: "slot ?s i = ?f (slot s i)"
      using len by simp
    note push = sched_inv_push [OF inv assms(2) _ _ _ q(1)]
    let ?g = "\<lambda>r. r\<lparr>p_curr_queue_id := int q\<rparr>"
    let ?t = "upd_proc i ?g (set_queue q (qlist s q @ [i]) ?s)"
    have "sched_inv {} ?t"
      using push(2) [of ?g] slot mlfq by simp
    moreover have "wake_one c i s = Ret () ?t"
      using sleeping mlfq push(1) slot q(2) by (simp add: wake_one_def sleeps_on_def Let_def)
    moreover have "qlist ?t r = qlist s r @ (if p_curr_queue_id (slot s i) = int r then [i] else [])" if "r < 5" for r
      using push(3) [OF _ _ _ that] slot mlfq q(2) by simp
    moreover have "slot ?t j = (if j = i then wake_proc (sched_cfg s) (slot s i) else slot s j)" for j
      using len q(2) mlfq by (simp add: wake_proc_def nth_list_update)
    ultimately show ?thesis
      using sleeping by (simp del: ptable_upd_proc)
  qed
qed

definition woken_upto :: "nat \<Rightarrow> chan \<Rightarrow> 'a proc_state_scheme \<Rightarrow> 'a proc_state_scheme \<Rightarrow> bool" where
  "woken_upto n c s s' \<longleftrightarrow> sched_inv {} s' \<and> table_frame s s' \<and>
     (\<forall>j<NPROC. slot s' j =
        (if j < n \<and> sleeps_on c (slot s j) then wake_proc (sched_cfg s) (slot s j) else slot s j)) \<and>
     (sched_cfg s = MLFQ \<longrightarrow> (\<forall>q<5. qlist s' q =
        qlist s q @ filter (\<lambda>j. sleeps_on c (slot s j) \<and> p_curr_queue_id (slot s j) = int q) [0..<n]))"

lemma wakeup1_spec:
  assumes "sched_inv {} s"
  shows "\<exists>s'. wakeup1 c s = Ret () s' \<and> woken_upto NPROC c s s'"
proof -
  have "n \<le> NPROC \<Longrightarrow> \<exists>s'. kfor [0..<n] (wake_one c) s = Ret () s' \<and> woken_upto n c s s'" for n
  proof (induction n)
    case 0
    with assms show ?case by (simp add: woken_upto_def)
  next
    case (Suc n)
    then obtain t where t: "kfor [0..<n] (wake_one c) s = Ret () t" "woken_upto n c s t" by auto
    have inv: "sched_inv {} t" and fr: "table_frame s t" and n: "n < NPROC"
      using t(2) Suc.prems by (auto simp: woken_upto_def)
    have same: "slot t n = slot s n"
      using t(2) n by (simp add: woken_upto_def)
    obtain s' where s': "wake_one c n t = Ret () s'" "sched_inv {} s'" "table_frame t s'"
      "\<And>j. j < NPROC \<Longrightarrow> slot s' j = (if j = n \<and> sleeps_on c (slot t n) then wake_proc (sched_cfg t) (slot t n) else slot t j)"
      "sched_cfg t = MLFQ \<Longrightarrow> (\<forall>q<5. qlist s' q =
         qlist t q @ (if sleeps_on c (slot t n) \<and> p_curr_queue_id (slot t n) = int q then [n] else []))"
      using wake_one_spec [OF inv n, of c] by auto
    have "table_frame s s'" using fr s'(3) by (rule table_frame_trans)
    moreover have "slot s' j =
        (if j < Suc n \<and> sleeps_on c (slot s j) then wake_proc (sched_cfg s) (slot s j) else slot s j)" if "j < NPROC" for j
      using s'(4) [OF that] t(2) same that table_frameD(6) [OF fr] by (auto simp: woken_upto_def less_Suc_eq)
    moreover have "qlist s' q = qlist s q @
        filter (\<lambda>j. sleeps_on c (slot s j) \<and> p_curr_queue_id (slot s j) = int q) [0..<Suc n]"
      if "sched_cfg s = MLFQ" "q < 5" for q
      using s'(5) t(2) same that table_frameD(6) [OF fr] by (auto simp: woken_upto_def)
    ultimately have "woken_upto (Suc n) c s s'"
      using s'(2) unfolding woken_upto_def by blast
    then show ?case using t(1) s'(1) by (simp add: kfor_Suc del: upt_Suc)
  qed
  then show ?thesis by (simp add: wakeup1_def)
qed

lemma sched_inv_held [simp]: "sched_inv E (s\<lparr>held := h\<rparr>) = sched_inv E s"
  by (rule sched_inv_cong) simp_all

lemma qlist_held [simp]: "qlist (s\<lparr>held := h\<rparr>) = qlist s"
  by (rule qlist_cong) simp_all

lemma table_frame_held: "table_frame (s\<lparr>held := h\<rparr>) t \<Longrightarrow> table_frame s (t\<lparr>held := held s\<rparr>)"
  by (simp add: table_frame_def)

lemma wakeup_spec:
  assumes "sched_inv {} s" "LkPtable \<notin> set (held s)"
  shows "\<exists>s'. wakeup c s = Ret () s' \<and> woken_upto NPROC c s s'"
proof -
  let ?s = "s\<lparr>held := LkPtable # held s\<rparr>"
  obtain t where t: "wakeup1 c ?s = Ret () t" "woken_upto NPROC c ?s t"
    using wakeup1_spec [of ?s c] assms(1) by auto
  then have "held t = LkPtable # held s"
    by (simp add: woken_upto_def table_frame_def)
  moreover have "woken_upto NPROC c s (t\<lparr>held := held s\<rparr>)"
    using t(2) table_frame_held [where t = t and s = s and h = "LkPtable # held s"] by (simp add: woken_upto_def)
  ultimately show ?thesis
    using t(1) assms(2) by (simp add: wakeup_def)
qed

lemma sched_Ret:
  assumes "cpu_proc s = Some p" "held s = [LkPtable]" "p_state (slot s p) \<noteq> RUNNING"
  shows "sched s = Ret () (upd_proc p (\<lambda>r. r\<lparr>p_context := CtxSched\<rparr>) s)"
  using assms by (simp add: sched_def myproc_def)

lemma sleep_Block:
  assumes "cpu_proc s = Some p" "held s = [lk]" "p < NPROC" "sched_inv {} s" "p_state (slot s p) = RUNNING"
  shows "\<exists>s'. sleep c lk s = Block c s' \<and> sched_inv {} s' \<and> held s' = [LkPtable] \<and>
    table_frame (s\<lparr>held := [LkPtable]\<rparr>) s' \<and> qlist s' = qlist s \<and>
    ptable s' = (ptable s)[p := (slot s p)\<lparr>p_chan := c, p_state := SLEEPING, p_context := CtxSched\<rparr>]"
proof -
  let ?f = "\<lambda>r. r\<lparr>p_chan := c, p_state := SLEEPING, p_context := CtxSched\<rparr>"
  let ?s = "upd_proc p ?f (s\<lparr>held := [LkPtable]\<rparr>)"
  have len: "p < length (ptable s)" using assms(3,4) by simp
  have "sched_inv {} ?s"
    using assms(3-5) sched_inv_queues(3) [OF assms(4) _ assms(3)] by (intro sched_inv_upd) simp_all
  moreover have "sleep c lk s = Block c ?s"
  proof (cases "lk = LkPtable")
    case True
    then have eq: "s\<lparr>held := [LkPtable]\<rparr> = s" and held: "held s = [LkPtable]"
      using assms(2) by simp_all
    show ?thesis
      unfolding eq using assms(1) held True len by (simp add: sleep_def sleep_code_def myproc_def sched_Ret)
  next
    case False
    then have "acquire LkPtable s = Ret () (s\<lparr>held := [LkPtable, lk]\<rparr>)"
      "release lk (s\<lparr>held := [LkPtable, lk]\<rparr>) = Ret () (s\<lparr>held := [LkPtable]\<rparr>)"
      using assms(2) by (simp_all add: release_def)
    then show ?thesis
      using assms(1) False len by (simp add: sleep_def sleep_code_def myproc_def sched_Ret)
  qed
  ultimately show ?thesis
    by simp
qed

section \<open>Sleeping against a wake-up on another CPU\<close>

text \<open>
  Two CPUs that run lists of statements on the shared kernel state. A configuration is the state
  (with \<open>held\<close> empty), the locks each CPU holds and what each has left to run. A CPU runs its next
  statement when that returns and leaves it with no lock of the other CPU: an \<open>acquire\<close> of a lock
  the other CPU holds waits. \<open>cpu_proc\<close> is the one of the first CPU; the waker does not read it.
\<close>

type_synonym 's code = "('s \<Rightarrow> (unit, 's) outcome) list"

inductive duo_step ::
  "'a proc_state_scheme \<times> lock list \<times> lock list \<times> 'a proc_state_scheme code \<times> 'a proc_state_scheme code \<Rightarrow>
   'a proc_state_scheme \<times> lock list \<times> lock list \<times> 'a proc_state_scheme code \<times> 'a proc_state_scheme code \<Rightarrow> bool" where
  first: "f (s\<lparr>held := h\<rparr>) = Ret () s' \<Longrightarrow> set (held s') \<inter> set h' = {} \<Longrightarrow>
    duo_step (s, h, h', f # fs, gs) (s'\<lparr>held := []\<rparr>, held s', h', fs, gs)"
| second: "g (s\<lparr>held := h'\<rparr>) = Ret () s' \<Longrightarrow> set (held s') \<inter> set h = {} \<Longrightarrow>
    duo_step (s, h, h', fs, g # gs) (s'\<lparr>held := []\<rparr>, h, held s', fs, gs)"

inductive_cases duo_stepE: "duo_step (s, h, h', fs, gs) z"

text \<open>The statements of \<open>wakeup\<close>, and of a waker that changes the condition under its lock \<open>lk\<close>.\<close>

definition wakeup_code :: "chan \<Rightarrow> 'a proc_state_scheme code" where
  "wakeup_code c = [acquire LkPtable, wakeup1 c, release LkPtable]"

lemma wakeup_code: "wakeup c s = kseq (wakeup_code c) s"
  by (simp add: wakeup_def wakeup_code_def kbind_assoc kbind_Ret_right [where 'a = unit, simplified])

definition waker :: "chan \<Rightarrow> lock \<Rightarrow> 'a proc_state_scheme code" where
  "waker c lk = (if lk = LkPtable then wakeup_code c else [acquire lk] @ wakeup_code c @ [release lk])"

text \<open>The sleeper ends in the scheduler, which releases \<open>ptable.lock\<close>.\<close>

definition sleeper :: "nat \<Rightarrow> chan \<Rightarrow> lock \<Rightarrow> 'a proc_state_scheme code" where
  "sleeper p c lk = sleep_code p c lk @ [release LkPtable]"

text \<open>The configurations a sleeper holding \<open>lk\<close> and a waker can reach.\<close>

definition chan_set :: "nat \<Rightarrow> chan \<Rightarrow> 'a proc_state_scheme \<Rightarrow> 'a proc_state_scheme" where
  "chan_set p c s = upd_proc p (\<lambda>r. r\<lparr>p_chan := c\<rparr>) s"

definition asleep :: "nat \<Rightarrow> chan \<Rightarrow> 'a proc_state_scheme \<Rightarrow> 'a proc_state_scheme" where
  "asleep p c s = upd_proc p (\<lambda>r. r\<lparr>p_state := SLEEPING\<rparr>) (chan_set p c s)"

definition switched :: "nat \<Rightarrow> chan \<Rightarrow> 'a proc_state_scheme \<Rightarrow> 'a proc_state_scheme" where
  "switched p c s = upd_proc p (\<lambda>r. r\<lparr>p_context := CtxSched\<rparr>) (asleep p c s)"

definition sleep_tail :: "nat \<Rightarrow> chan \<Rightarrow> 'a proc_state_scheme code" where
  "sleep_tail p c =
     [\<lambda>s. Ret () (chan_set p c s), \<lambda>s. Ret () (upd_proc p (\<lambda>r. r\<lparr>p_state := SLEEPING\<rparr>) s), sched, release LkPtable]"

definition tail_configs ::
  "nat \<Rightarrow> chan \<Rightarrow> 'a proc_state_scheme \<Rightarrow> 'a proc_state_scheme \<Rightarrow> lock list \<Rightarrow> 'a proc_state_scheme code \<Rightarrow>
   ('a proc_state_scheme \<times> lock list \<times> lock list \<times> 'a proc_state_scheme code \<times> 'a proc_state_scheme code) set" where
  "tail_configs p c s w h rest =
     {(s, [LkPtable], h, sleep_tail p c, wakeup_code c @ rest),
      (chan_set p c s, [LkPtable], h, drop 1 (sleep_tail p c), wakeup_code c @ rest),
      (asleep p c s, [LkPtable], h, drop 2 (sleep_tail p c), wakeup_code c @ rest),
      (switched p c s, [LkPtable], h, drop 3 (sleep_tail p c), wakeup_code c @ rest),
      (switched p c s, [], h, [], wakeup_code c @ rest),
      (switched p c s, [], LkPtable # h, [], drop 1 (wakeup_code c) @ rest),
      (w, [], LkPtable # h, [], drop 2 (wakeup_code c) @ rest),
      (w, [], h, [], rest)}"

definition lock_configs ::
  "nat \<Rightarrow> chan \<Rightarrow> lock \<Rightarrow> 'a proc_state_scheme \<Rightarrow> 'a proc_state_scheme \<Rightarrow>
   ('a proc_state_scheme \<times> lock list \<times> lock list \<times> 'a proc_state_scheme code \<times> 'a proc_state_scheme code) set" where
  "lock_configs p c lk s w =
     {(s, [lk], [], sleeper p c lk, waker c lk), (s, [LkPtable, lk], [], drop 1 (sleeper p c lk), waker c lk),
      (s, [LkPtable], [], sleep_tail p c, waker c lk),
      (chan_set p c s, [LkPtable], [], drop 1 (sleep_tail p c), waker c lk),
      (asleep p c s, [LkPtable], [], drop 2 (sleep_tail p c), waker c lk),
      (switched p c s, [LkPtable], [], drop 3 (sleep_tail p c), waker c lk),
      (switched p c s, [], [], [], waker c lk), (w, [], [], [], [])} \<union> tail_configs p c s w [lk] [release lk]"

lemma held_same: "held s = h \<Longrightarrow> s\<lparr>held := h\<rparr> = s"
  by simp

lemma upd_proc_held: "upd_proc p f (s\<lparr>held := h\<rparr>) = (upd_proc p f s)\<lparr>held := h\<rparr>"
  by (simp add: upd_proc_def)

lemma chan_set_held:
  "chan_set p c (s\<lparr>held := h\<rparr>) = (chan_set p c s)\<lparr>held := h\<rparr>" "held (chan_set p c s) = held s"
  "held (asleep p c s) = held s" "held (switched p c s) = held s"
  by (simp_all add: chan_set_def asleep_def switched_def upd_proc_held)

lemma asleep_held:
  "upd_proc p (\<lambda>r. r\<lparr>p_state := SLEEPING\<rparr>) ((chan_set p c s)\<lparr>held := h\<rparr>) = (asleep p c s)\<lparr>held := h\<rparr>"
  by (simp add: asleep_def upd_proc_held)

lemma sched_asleep:
  assumes "cpu_proc s = Some p" "p < length (ptable s)"
  shows "sched ((asleep p c s)\<lparr>held := [LkPtable]\<rparr>) = Ret () ((switched p c s)\<lparr>held := [LkPtable]\<rparr>)"
proof -
  have "p_state (slot (asleep p c s) p) = SLEEPING" using assms(2) by (simp add: asleep_def chan_set_def)
  then show ?thesis
    using assms(1) sched_Ret [of "(asleep p c s)\<lparr>held := [LkPtable]\<rparr>" p]
    by (simp add: switched_def upd_proc_held) (simp add: asleep_def chan_set_def)
qed

inductive_simps duo_step_simps: "duo_step (s, h, h', fs, gs) z"

lemmas duo_eval = sleep_tail_def wakeup_code_def duo_step_simps chan_set_held asleep_held sched_asleep held_same

lemma tail_configs_step:
  assumes "z \<in> tail_configs p c s w h rest" "LkPtable \<notin> set h" "held s = []" "held w = []"
    and "cpu_proc s = Some p" "p < length (ptable s)"
    and "wakeup1 c ((switched p c s)\<lparr>held := LkPtable # h\<rparr>) = Ret () (w\<lparr>held := LkPtable # h\<rparr>)"
    and "z \<noteq> (w, [], h, [], rest)"
  shows "duo_step z z' \<Longrightarrow> z' \<in> tail_configs p c s w h rest" and "\<exists>z'. duo_step z z'"
proof -
  show "duo_step z z' \<Longrightarrow> z' \<in> tail_configs p c s w h rest"
    using assms(1,8) unfolding tail_configs_def by (elim insertE emptyE; simp add: duo_eval assms(2-7))
  show "\<exists>z'. duo_step z z'"
    using assms(1,8) unfolding tail_configs_def by (elim insertE emptyE; simp add: duo_eval assms(2-7))
qed

lemma sleeper_unfold:
  "sleeper p c lk = (if lk = LkPtable then sleep_tail p c else acquire LkPtable # release lk # sleep_tail p c)"
  by (simp add: sleeper_def sleep_code_def sleep_tail_def chan_set_def)

lemma lock_configs_step:
  assumes "z \<in> lock_configs p c lk s w" "lk \<noteq> LkPtable" "held s = []" "held w = []"
    and "cpu_proc s = Some p" "p < length (ptable s)"
    and "wakeup1 c ((switched p c s)\<lparr>held := [LkPtable, lk]\<rparr>) = Ret () (w\<lparr>held := [LkPtable, lk]\<rparr>)"
    and "z \<noteq> (w, [], [], [], [])"
  shows "duo_step z z' \<Longrightarrow> z' \<in> lock_configs p c lk s w" and "\<exists>z'. duo_step z z'"
proof -
  consider (tail) "z \<in> tail_configs p c s w [lk] [release lk]" "z \<noteq> (w, [], [lk], [], [release lk])"
    | (last) "z = (w, [], [lk], [], [release lk])" 
    | (head) "z \<in> lock_configs p c lk s w - tail_configs p c s w [lk] [release lk]"
    using assms(1) by blast
  then have "(duo_step z z' \<longrightarrow> z' \<in> lock_configs p c lk s w) \<and> (\<exists>z'. duo_step z z')"
  proof cases
    case tail
    with tail_configs_step [OF tail(1) _ assms(3-7)] assms(2) show ?thesis by (simp add: lock_configs_def)
  next
    case last
    with assms(4) show ?thesis by (simp add: lock_configs_def duo_step_simps held_same)
  next
    case head
    then have "z \<in> lock_configs p c lk s w" "z \<notin> tail_configs p c s w [lk] [release lk]" by simp_all
    with assms(8) show ?thesis
      unfolding lock_configs_def waker_def sleeper_unfold if_not_P [OF assms(2)]
      by (elim UnE insertE emptyE)
        (simp_all add: duo_eval assms(2-7) assms(2) [symmetric] release_def tail_configs_def, blast+)
  qed
  then show "duo_step z z' \<Longrightarrow> z' \<in> lock_configs p c lk s w" and "\<exists>z'. duo_step z z'" by blast+
qed
text \<open>After a wake-up of the sleeping process it is runnable and the invariant holds.\<close>

lemma switched_woken:
  assumes "cpu_proc s = Some p" "p < NPROC" "sched_inv {} s" "p_state (slot s p) = RUNNING" "held s = []"
  obtains w where "wakeup1 c ((switched p c s)\<lparr>held := h\<rparr>) = Ret () (w\<lparr>held := h\<rparr>)" "held w = []"
    "p_state (slot w p) = RUNNABLE" "sched_inv {} w"
proof -
  have len: "p < length (ptable s)" using assms(2,3) by simp
  have "switched p c s = upd_proc p (\<lambda>r. r\<lparr>p_chan := c, p_state := SLEEPING, p_context := CtxSched\<rparr>) s"
    by (simp add: switched_def asleep_def chan_set_def)
  moreover have "sched_inv {} \<dots>"
    using assms(2-4) sched_inv_queues(3) [OF assms(3) _ assms(2)] by (intro sched_inv_upd) simp_all
  ultimately have "sched_inv {} ((switched p c s)\<lparr>held := h\<rparr>)" by simp
  from wakeup1_spec [OF this, of c] obtain t where t: "wakeup1 c ((switched p c s)\<lparr>held := h\<rparr>) = Ret () t"
    "woken_upto NPROC c ((switched p c s)\<lparr>held := h\<rparr>) t" by blast
  have "sleeps_on c (slot (switched p c s) p)"
    using len by (simp add: sleeps_on_def switched_def asleep_def chan_set_def)
  with t(2) assms(2) have "p_state (slot t p) = RUNNABLE" "sched_inv {} t" "held t = h"
    by (simp_all add: woken_upto_def wake_proc_def table_frame_def)
  with t(1) show ?thesis by (intro that [of "t\<lparr>held := []\<rparr>"]) (simp_all add: held_same)
qed

text \<open>Every configuration that a sleeper and a waker reach is one of those, and only the last is stuck.\<close>

lemma sleep_wakeup_reach:
  assumes "cpu_proc s = Some p" "p < NPROC" "sched_inv {} s" "p_state (slot s p) = RUNNING"
    and "duo_step\<^sup>*\<^sup>* (s\<lparr>held := []\<rparr>, [lk], [], sleeper p c lk, waker c lk) (t, h, h', a, b)"
  shows "(b = [] \<longrightarrow> a = [] \<and> h = [] \<and> h' = [] \<and> p_state (slot t p) = RUNNABLE \<and> sched_inv {} t) \<and>
    (b \<noteq> [] \<longrightarrow> (\<exists>z. duo_step (t, h, h', a, b) z))"
proof -
  let ?s = "s\<lparr>held := []\<rparr>"
  obtain hw where hw: "hw = (if lk = LkPtable then [LkPtable] else [LkPtable, lk])" by blast
  obtain w where w: "wakeup1 c ((switched p c ?s)\<lparr>held := hw\<rparr>) = Ret () (w\<lparr>held := hw\<rparr>)" "held w = []"
    "p_state (slot w p) = RUNNABLE" "sched_inv {} w"
    using assms(1-4) by (rule_tac switched_woken [of ?s p c hw]) simp_all
  have s: "held ?s = []" "cpu_proc ?s = Some p" "p < length (ptable ?s)" using assms(1-3) by simp_all
  obtain S where S: "S = (if lk = LkPtable then tail_configs p c ?s w [] [] else lock_configs p c lk ?s w)" by blast
  have next_in: "z \<in> S \<Longrightarrow> z \<noteq> (w, [], [], [], []) \<Longrightarrow> (duo_step z z' \<longrightarrow> z' \<in> S) \<and> (\<exists>z'. duo_step z z')" for z z'
    using tail_configs_step(1) [of z p c ?s w "[]" "[]" z'] tail_configs_step(2) [of z p c ?s w "[]" "[]"]
      lock_configs_step(1) [of z p c lk ?s w z'] lock_configs_step(2) [of z p c lk ?s w] w(1,2) s hw S
    by (cases "lk = LkPtable") simp_all
  have stuck: "\<not> duo_step (w, [], [], [], []) z'" for z' by (simp add: duo_step_simps)
  have "(t, h, h', a, b) \<in> S"
    using assms(5)
  proof (induction rule: rtranclp_induct)
    case base
    then show ?case by (simp add: S tail_configs_def lock_configs_def sleeper_unfold waker_def)
  next
    case (step y z)
    then have "y \<noteq> (w, [], [], [], [])" using stuck by blast
    with next_in [OF step.IH, of z] step.hyps(2) show ?case by blast
  qed
  moreover have "(t, h, h', a, []) \<in> S \<Longrightarrow> (t, h, h', a, []) = (w, [], [], [], [])"
    by (auto simp: S tail_configs_def lock_configs_def wakeup_code_def waker_def split: if_splits)
  ultimately show ?thesis using next_in [of "(t, h, h', a, b)"] w(3,4) by (cases b) simp_all
qed

section \<open>Kill\<close>

lemma kill_unknown:
  assumes "LkPtable \<notin> set (held s)" "\<And>i. i < NPROC \<Longrightarrow> pid_of s i \<noteq> pid"
  shows "kill pid s = Ret (-1) s"
proof -
  have "find (\<lambda>i. pid_of s i = pid) [0..<NPROC] = None"
    using assms(2) by (simp add: find_upt_None)
  with assms(1) show ?thesis by (simp add: kill_def)
qed

definition kill_proc :: "proc \<Rightarrow> proc" where
  "kill_proc p = p\<lparr>p_killed := True, p_state := if p_state p = SLEEPING then RUNNABLE else p_state p\<rparr>"

lemma kill_found:
  assumes "sched_inv {} s" "LkPtable \<notin> set (held s)" "find (\<lambda>i. pid_of s i = pid) [0..<NPROC] = Some i"
  shows "\<exists>s'. kill pid s = Ret 0 s' \<and> sched_inv {} s' \<and> table_frame s s' \<and>
    (\<forall>j<NPROC. slot s' j = (if j = i then kill_proc (slot s i) else slot s j))"
proof -
  let ?s = "s\<lparr>held := LkPtable # held s\<rparr>"
  let ?k = "\<lambda>r. r\<lparr>p_killed := True\<rparr>"
  let ?t = "upd_proc i ?k ?s"
  have i: "i < NPROC" using assms(3) by (simp add: find_upt_Some)
  have len: "i < length (ptable s)" using assms(1) i by simp
  have inv: "sched_inv {} ?t"
    using assms(1) i sched_inv_queues(3) [OF assms(1) _ i] by (intro sched_inv_upd) simp_all
  have slot: "slot ?t i = ?k (slot s i)" using len by simp
  consider "p_state (slot s i) \<noteq> SLEEPING" | "p_state (slot s i) = SLEEPING" "sched_cfg s \<noteq> MLFQ"
    | "p_state (slot s i) = SLEEPING" "sched_cfg s = MLFQ" by blast
  then show ?thesis
  proof cases
    case 1
    then have "kill pid s = Ret 0 (upd_proc i ?k s)"
      using assms len by (simp add: kill_def Let_def) (simp add: upd_proc_def)
    then show ?thesis
      using 1 len inv sched_inv_cong [of ?t "upd_proc i ?k s" "{}"] by (simp add: kill_proc_def nth_list_update)
  next
    case 2
    let ?u = "upd_proc i (\<lambda>r. r\<lparr>p_killed := True, p_state := RUNNABLE\<rparr>) s"
    have "kill pid s = Ret 0 ?u"
      using assms len 2 by (simp add: kill_def Let_def) (simp add: upd_proc_def)
    moreover have "sched_inv {} ?u"
      using assms(1) i 2 by (intro sched_inv_upd) simp_all
    ultimately show ?thesis
      using 2 len by (simp add: kill_proc_def nth_list_update)
  next
    case 3
    obtain q where q: "q < 5" "p_curr_queue_id (slot s i) = int q"
      by (rule sched_inv_level [OF assms(1) 3(2) i])
    note push = sched_inv_push [OF inv i _ _ _ q(1)]
    let ?g = "\<lambda>r. r\<lparr>p_curr_queue_id := int q, p_state := RUNNABLE\<rparr>"
    let ?u = "upd_proc i ?g (set_queue q (qlist s q @ [i]) ?t)"
    have "sched_inv {} ?u"
      using push(2) [of ?g] slot 3 by simp
    moreover have "kill pid s = Ret 0 (?u\<lparr>held := held s\<rparr>)"
      using assms(2,3) 3 push(1) slot q(2) by (simp add: kill_def Let_def)
    moreover have "slot ?u j = (if j = i then kill_proc (slot s i) else slot s j)" for j
      using len q(2) 3 by (simp add: kill_proc_def nth_list_update)
    moreover have "table_frame s (?u\<lparr>held := held s\<rparr>)"
      by (intro table_frame_held [where h = "LkPtable # held s"]) simp
    ultimately show ?thesis
      by (simp del: ptable_upd_proc)
  qed
qed
section \<open>Allocation of a slot\<close>

definition fresh_proc :: "sched_type \<Rightarrow> uint32 \<Rightarrow> int \<Rightarrow> uint32 \<Rightarrow> trapframe \<Rightarrow> proc \<Rightarrow> proc" where
  "fresh_proc cfg now pid kst tf p =
     (let p = p\<lparr>p_state := EMBRYO, p_pid := pid, p_kstack := kst, p_tf := tf, p_context := CtxForkret,
            p_creation_time := sint now, p_tot_sleep_time := 0, p_tot_run_time := 0,
            p_num_times_scheduled := 0, p_end_time := 0, p_curr_wait_time := 0,
            p_curr_priority := 60, p_pbs_chances := 0\<rparr>;
          p = (if cfg = PBS then p else p\<lparr>p_curr_priority := -1\<rparr>)
      in if cfg = MLFQ
         then p\<lparr>p_curr_ticks_got := 0, p_curr_queue_id := 0, p_enter := sint now,
            p_tot_ticks_got := (p_tot_ticks_got p)[0 := 0, 1 := 0, 2 := 0, 3 := 0, 4 := 0]\<rparr>
         else p)"

text \<open>The kernel stack as \<open>allocproc\<close> leaves it: the switch frame, and above it the return to \<open>trapret\<close>.\<close>

definition new_stack :: "uint32 \<Rightarrow> uint32 \<Rightarrow> uint32 \<Rightarrow> (uint32 \<Rightarrow> uint32) \<Rightarrow> uint32 \<Rightarrow> uint32" where
  "new_stack kst tr fr m = m(kst + 4016 := tr, kst + 3996 := 0, kst + 4000 := 0, kst + 4004 := 0,
     kst + 4008 := 0, kst + 4012 := fr)"

lemma setup_kstack_eq:
  "setup_kstack p a s = s\<lparr>ptable := (ptable s)[p := (slot s p)\<lparr>p_tf := tf_at (mem s) (a + 4020), p_context := CtxForkret\<rparr>],
     mem := new_stack a (trapret_addr s) (forkret_addr s) (mem s)\<rparr>"
  by (cases "p < length (ptable s)")
    (simp_all add: setup_kstack_def new_stack_def KSTACKSIZE_def upd_proc_def Let_def list_update_beyond add.commute [of a])

lemma allocproc_full:
  assumes "LkPtable \<notin> set (held s)" "\<And>i. i < NPROC \<Longrightarrow> p_state (slot s i) \<noteq> UNUSED"
  shows "allocproc s = Ret None s"
proof -
  have "find (\<lambda>i. p_state (slot s i) = UNUSED) [0..<NPROC] = None"
    using assms(2) by (simp add: find_upt_None)
  with assms(1) show ?thesis by (simp add: allocproc_def)
qed

lemma allocproc_eq:
  assumes "held s = []" "find (\<lambda>i. p_state (slot s i) = UNUSED) [0..<NPROC] = Some i" "length (ptable s) = NPROC"
  shows "allocproc s =
    (if freelist s = 0
     then Ret None (upd_proc i (\<lambda>p. p\<lparr>p_pid := nextpid s, p_curr_priority := 60, p_kstack := 0, p_state := UNUSED\<rparr>)
            (s\<lparr>nextpid := int_wrap (nextpid s + 1)\<rparr>))
     else Ret (Some i) (upd_proc i
            (fresh_proc (sched_cfg s) (ticks s) (nextpid s) (freelist s) (tf_at (mem s) (freelist s + 4020)))
            (s\<lparr>nextpid := int_wrap (nextpid s + 1), freelist := mem s (freelist s),
               mem := new_stack (freelist s) (trapret_addr s) (forkret_addr s) (mem s)\<rparr>)))"
proof -
  have len: "i < length (ptable s)"
    using assms(2,3) by (simp add: find_upt_Some)
  show ?thesis
    using len assms(1,2)
    by (auto simp: allocproc_def kalloc_Ret kmem_unlocked_def Let_def upd_proc_def initialize_new_fields_def fresh_proc_def
        setup_kstack_eq)
qed

lemma pid_inv_alloc:
  assumes "pid_inv s" "i < NPROC" "p_pid (f (slot s i)) = nextpid s" "nextpid s < 2 ^ 31 - 1"
  shows "pid_inv (upd_proc i f (s\<lparr>nextpid := int_wrap (nextpid s + 1)\<rparr>))"
proof -
  have wrap: "int_wrap (nextpid s + 1) = nextpid s + 1"
    using assms(1,4) by (intro int_wrap_id) (simp_all add: pid_inv_def)
  let ?s = "upd_proc i f (s\<lparr>nextpid := nextpid s + 1\<rparr>)"
  have len: "i < length (ptable s)" using assms by (simp add: pid_inv_def)
  have pid: "pid_of ?s j = (if j = i then nextpid s else pid_of s j)"
    and st: "j \<noteq> i \<Longrightarrow> p_state (slot ?s j) = p_state (slot s j)" for j
    using len assms(3) by (simp_all add: nth_list_update)
  have less: "pid_of s j < nextpid s" "0 \<le> pid_of s j" "0 < nextpid s" if "j < NPROC" for j
    using assms(1) that by (auto simp: pid_inv_def)
  have "pid_of ?s j \<noteq> 0 \<Longrightarrow> pid_of ?s j = pid_of ?s k \<Longrightarrow> j = k" if "j < NPROC" "k < NPROC" for j k
    using less [OF that(1)] less [OF that(2)] assms(1) that unfolding pid pid_inv_def by (auto split: if_splits)
  moreover have "0 \<le> pid_of ?s j \<and> pid_of ?s j < nextpid s + 1 \<and> (p_state (slot ?s j) \<noteq> UNUSED \<longrightarrow> 0 < pid_of ?s j)"
    if "j < NPROC" for j
    using less [OF that] assms(1) that st [of j] unfolding pid pid_inv_def by auto
  ultimately show ?thesis
    using assms(1,4) unfolding wrap pid_inv_def by simp
qed

lemma sched_inv_alloc:
  assumes "sched_inv {} s" "i < NPROC" "p_state (slot s i) = UNUSED" "p_pid (f (slot s i)) = nextpid s"
    and "p_state (f (slot s i)) \<noteq> RUNNABLE"
    and "p_curr_queue_id (f (slot s i)) \<in> {0, p_curr_queue_id (slot s i)}" "nextpid s < 2 ^ 31 - 1"
  shows "sched_inv {} (upd_proc i f (s\<lparr>nextpid := int_wrap (nextpid s + 1)\<rparr>))"
proof -
  have pid: "pid_inv (upd_proc i f (s\<lparr>nextpid := int_wrap (nextpid s + 1)\<rparr>))"
    using assms(1,2,4,7) by (intro pid_inv_alloc) (simp_all add: sched_inv_def)
  have len: "i < length (ptable s)" using assms(1,2) by simp
  have q: "qlist (s\<lparr>nextpid := n\<rparr>) = qlist s" for n
    by (rule qlist_cong) simp_all
  have wf: "wf_queues (s\<lparr>nextpid := n\<rparr>) = wf_queues s" for n
    by (rule wf_queues_cong) simp_all
  show ?thesis
    using assms(1,3,5,6) pid len unfolding sched_inv_def by (auto simp: nth_list_update q wf)
qed

lemma fresh_proc_simps:
  "p_state (fresh_proc cfg now pid kst tf p) = EMBRYO" "p_pid (fresh_proc cfg now pid kst tf p) = pid"
  "p_curr_queue_id (fresh_proc cfg now pid kst tf p) \<in> {0, p_curr_queue_id p}"
  "p_killed (fresh_proc cfg now pid kst tf p) = p_killed p"
  by (simp_all add: fresh_proc_def Let_def)

section \<open>Priorities\<close>

definition pbs_zero :: "'a proc_state_scheme \<Rightarrow> bool" where
  "pbs_zero s \<longleftrightarrow> (\<forall>i<NPROC. p_pbs_chances (slot s i) = 0)"

text \<open>
  What \<open>reset_pbs_chances\<close> makes of the slots from \<open>k\<close> on: the count of every slot of the priority
  drops by \<open>m\<close>, but the loop stops behind the first one that does not become 0 or 1.
\<close>

definition chances_bad :: "int \<Rightarrow> int \<Rightarrow> proc \<Rightarrow> bool" where
  "chances_bad np m p \<longleftrightarrow> p_curr_priority p = np \<and> int_wrap (p_pbs_chances p - m) \<notin> {0, 1}"

definition reset_slot :: "nat \<Rightarrow> int \<Rightarrow> int \<Rightarrow> 'a proc_state_scheme \<Rightarrow> nat \<Rightarrow> proc" where
  "reset_slot k np m s i =
     (if k \<le> i \<and> p_curr_priority (slot s i) = np \<and> (\<forall>j\<in>{k..<i}. \<not> chances_bad np m (slot s j))
      then (slot s i)\<lparr>p_pbs_chances := int_wrap (p_pbs_chances (slot s i) - m)\<rparr> else slot s i)"

definition chance_max :: "int \<Rightarrow> 'a proc_state_scheme \<Rightarrow> int" where
  "chance_max np s =
     Max (insert 0 ((\<lambda>i. p_pbs_chances (slot s i)) ` {i. i < NPROC \<and> p_curr_priority (slot s i) = np}))"

lemma reset_slot_cases:
  "i < k \<Longrightarrow> reset_slot k np m s i = slot s i"
  "reset_slot k np m s k = (if p_curr_priority (slot s k) = np
     then (slot s k)\<lparr>p_pbs_chances := int_wrap (p_pbs_chances (slot s k) - m)\<rparr> else slot s k)"
  "k < i \<Longrightarrow> reset_slot k np m s i = (if chances_bad np m (slot s k) then slot s i else reset_slot (Suc k) np m s i)"
proof -
  assume "k < i"
  then have "{k..<i} = insert k {Suc k..<i}" by auto
  with \<open>k < i\<close> show "reset_slot k np m s i = (if chances_bad np m (slot s k) then slot s i else reset_slot (Suc k) np m s i)"
    by (simp add: reset_slot_def)
qed (simp_all add: reset_slot_def)

lemma reset_slot_upd: "k < i \<Longrightarrow> reset_slot (Suc k) np m (upd_proc k f s) i = reset_slot (Suc k) np m s i"
  by (simp add: reset_slot_def)

lemma map_reset_slot:
  assumes "length (ptable s) = NPROC" "k < NPROC"
  shows "map (reset_slot k np m s) [0..<NPROC] =
    (if p_curr_priority (slot s k) \<noteq> np then map (reset_slot (Suc k) np m s) [0..<NPROC]
     else let t = upd_proc k (\<lambda>r. r\<lparr>p_pbs_chances := int_wrap (p_pbs_chances r - m)\<rparr>) s
          in if chances_bad np m (slot s k) then ptable t else map (reset_slot (Suc k) np m t) [0..<NPROC])"
proof (rule nth_equalityI)
  fix i assume "i < length (map (reset_slot k np m s) [0..<NPROC])"
  then have i: "i < NPROC" by simp
  consider "i < k" | "i = k" | "k < i" by linarith
  then show "map (reset_slot k np m s) [0..<NPROC] ! i =
    (if p_curr_priority (slot s k) \<noteq> np then map (reset_slot (Suc k) np m s) [0..<NPROC]
     else let t = upd_proc k (\<lambda>r. r\<lparr>p_pbs_chances := int_wrap (p_pbs_chances r - m)\<rparr>) s
          in if chances_bad np m (slot s k) then ptable t else map (reset_slot (Suc k) np m t) [0..<NPROC]) ! i"
    using i assms
    by cases (simp_all add: reset_slot_cases reset_slot_upd Let_def chances_bad_def)
qed (use assms in \<open>simp add: Let_def\<close>)

lemma reset_loop_spec:
  assumes "length (ptable s) = NPROC" "k \<le> NPROC"
  shows "\<exists>r. reset_loop np m [k..<NPROC] s = Ret r (s\<lparr>ptable := map (reset_slot k np m s) [0..<NPROC]\<rparr>)"
  using assms
proof (induction "NPROC - k" arbitrary: k s)
  case 0
  then have "map (reset_slot k np m s) [0..<NPROC] = ptable s"
    by (intro nth_equalityI) (simp_all add: reset_slot_cases)
  with 0 show ?case by simp
next
  case (Suc n)
  then have k: "k < NPROC" "[k..<NPROC] = k # [Suc k..<NPROC]" by (simp_all add: upt_conv_Cons)
  let ?t = "upd_proc k (\<lambda>r. r\<lparr>p_pbs_chances := int_wrap (p_pbs_chances r - m)\<rparr>) s"
  have IH: "\<exists>r. reset_loop np m [Suc k..<NPROC] u = Ret r (u\<lparr>ptable := map (reset_slot (Suc k) np m u) [0..<NPROC]\<rparr>)"
    if "length (ptable u) = NPROC" for u :: "'a proc_state_scheme"
    using Suc.hyps(1) [of "Suc k" u] Suc.hyps(2) k(1) that by simp
  have t: "?t\<lparr>ptable := xs\<rparr> = s\<lparr>ptable := xs\<rparr>" "s\<lparr>ptable := ptable ?t\<rparr> = ?t" for xs
    by (simp_all add: upd_proc_def)
  have "reset_loop np m [k..<NPROC] s =
    (if p_curr_priority (slot s k) \<noteq> np then reset_loop np m [Suc k..<NPROC] s
     else if chances_bad np m (slot s k) then Ret (-1) ?t else reset_loop np m [Suc k..<NPROC] ?t)"
    using k Suc.prems(1) by (simp add: Let_def chances_bad_def)
  with IH [OF Suc.prems(1)] IH [of ?t] show ?case
    using Suc.prems(1) t unfolding map_reset_slot [OF Suc.prems(1) k(1)] Let_def by (simp del: ptable_upd_proc) simp
qed

lemma reset_pbs_chances_spec:
  assumes "length (ptable s) = NPROC"
  shows "\<exists>r. reset_pbs_chances np s = Ret r (s\<lparr>ptable := map (reset_slot 0 np (chance_max np s) s) [0..<NPROC]\<rparr>)"
proof -
  have "fold (\<lambda>i m. if p_curr_priority (slot s i) = np then get_maxima m (p_pbs_chances (slot s i)) else m) [0..<n] 0 =
    Max (insert 0 ((\<lambda>i. p_pbs_chances (slot s i)) ` {i. i < n \<and> p_curr_priority (slot s i) = np}))" for n
  proof (induction n)
    case (Suc n)
    have "{i. i < Suc n \<and> p_curr_priority (slot s i) = np} =
        (if p_curr_priority (slot s n) = np then insert n {i. i < n \<and> p_curr_priority (slot s i) = np}
         else {i. i < n \<and> p_curr_priority (slot s i) = np})"
      by (auto simp: less_Suc_eq)
    with Suc show ?case
      by (simp add: insert_commute [of 0]) (simp add: get_maxima_def max_def)
  qed simp
  then show ?thesis
    using reset_loop_spec [OF assms, of 0 np] by (simp add: reset_pbs_chances_def chance_max_def)
qed

lemma reset_slot_zero:
  assumes "pbs_zero s" "i < NPROC"
  shows "reset_slot 0 np (chance_max np s) s i = slot s i"
proof -
  have "chance_max np s = 0"
  proof -
    have "insert 0 ((\<lambda>i. p_pbs_chances (slot s i)) ` {i. i < NPROC \<and> p_curr_priority (slot s i) = np}) = {0}"
      using assms(1) by (auto simp: pbs_zero_def)
    then show ?thesis unfolding chance_max_def by (simp only: Max_singleton)
  qed
  then show ?thesis using assms by (simp add: reset_slot_def pbs_zero_def int_wrap_def)
qed

section \<open>An example state\<close>

text \<open>Process 1 runs, process 2 sleeps on the clock, one page of memory is free.\<close>

definition proc_example :: "sched_type \<Rightarrow> proc_state" where
  "proc_example cfg = (boot_state cfg)\<lparr>freelist := 0x80200000, nextpid := 3, cpu_proc := Some 0,
     ptable := (replicate NPROC proc0)[0 := proc0\<lparr>p_pid := 1, p_state := RUNNING\<rparr>,
        1 := proc0\<lparr>p_pid := 2, p_state := SLEEPING, p_chan := ChTicks\<rparr>]\<rparr>"

lemma slot_example:
  "i < NPROC \<Longrightarrow> slot (proc_example cfg) i =
     (if i = 0 then proc0\<lparr>p_pid := 1, p_state := RUNNING\<rparr>
      else if i = 1 then proc0\<lparr>p_pid := 2, p_state := SLEEPING, p_chan := ChTicks\<rparr> else proc0)"
  by (simp add: proc_example_def nth_list_update NPROC_def)

lemma example_simps [simp]:
  "held (proc_example cfg) = []" "sched_cfg (proc_example cfg) = cfg" "nextpid (proc_example cfg) = 3"
  "cpu_proc (proc_example cfg) = Some 0" "length (ptable (proc_example cfg)) = NPROC"
  "freelist (proc_example cfg) = 0x80200000" "ticks (proc_example cfg) = 0"
  by (simp_all add: proc_example_def boot_state_def)

lemma example_inv: "sched_inv {} (proc_example cfg)"
proof -
  have q: "qlist (proc_example cfg) q = []" if "q < 5" for q
    using that by (simp add: proc_example_def boot_state_def qlist_def)
  have "wf_queues (proc_example cfg)"
    using q by (simp add: wf_queues_def) (simp add: proc_example_def boot_state_def row_of_def)
  then show ?thesis
    using q by (auto simp: sched_inv_def pid_inv_def slot_example proc0_def)
qed

section \<open>Properties\<close>

text \<open>
  C7: wakeup(chan) returns and makes runnable exactly the processes sleeping on chan; no other
  slot and no other part of the state changes. Under MLFQ each woken process is appended, in table
  order, to the queue of its own level, and every runnable process is in exactly one queue again.
\<close>

theorem wakeup_exact:
  assumes "sched_inv {} s" "LkPtable \<notin> set (held s)"
  shows "\<exists>s'. wakeup c s = Ret () s' \<and> sched_inv {} s' \<and> table_frame s s' \<and>
    (\<forall>j<NPROC. slot s' j = (if sleeps_on c (slot s j) then wake_proc (sched_cfg s) (slot s j) else slot s j)) \<and>
    (sched_cfg s = MLFQ \<longrightarrow> (\<forall>q<5. qlist s' q =
       qlist s q @ filter (\<lambda>j. sleeps_on c (slot s j) \<and> p_curr_queue_id (slot s j) = int q) [0..<NPROC]))"
  using wakeup_spec [OF assms, of c] by (auto simp: woken_upto_def)

theorem wakeup_exact_witness:
  "\<exists>s'. wakeup ChTicks (proc_example MLFQ) = Ret () s' \<and> p_state (slot s' 1) = RUNNABLE \<and>
     p_state (slot s' 0) = RUNNING"
proof -
  have lk: "LkPtable \<notin> set (held (proc_example MLFQ))" by simp
  have n: "0 < NPROC" "1 < NPROC" by (simp_all add: NPROC_def)
  from wakeup_exact [OF example_inv lk, of ChTicks] obtain s' where
    "wakeup ChTicks (proc_example MLFQ) = Ret () s'"
    "\<And>j. j < NPROC \<Longrightarrow> slot s' j = (if sleeps_on ChTicks (slot (proc_example MLFQ) j)
       then wake_proc MLFQ (slot (proc_example MLFQ) j) else slot (proc_example MLFQ) j)" by auto
  with n show ?thesis by (simp add: slot_example sleeps_on_def wake_proc_def)
qed

text \<open>
  C8: No wake-up is lost between testing a condition and sleeping. A process that calls
  sleep(chan, lk) holding only lk arrives in the scheduler asleep on chan, with ptable.lock held and
  lk free, no other slot changed. And in every interleaving of the statements of sleep (and the
  release of ptable.lock by the scheduler after it) with those of another CPU that takes lk to change
  the condition and calls wakeup(chan): neither CPU is ever stuck before the end, and when the waker
  has finished the process is runnable, the invariant holds and no lock is held.
\<close>

theorem sleep_wakeup_not_lost:
  assumes "cpu_proc s = Some p" "held s = [lk]" "p < NPROC" "sched_inv {} s" "p_state (slot s p) = RUNNING"
  shows "(\<exists>s1. sleep c lk s = Block c s1 \<and> held s1 = [LkPtable] \<and> sched_inv {} s1 \<and>
      sleeps_on c (slot s1 p) \<and> (\<forall>j<NPROC. j \<noteq> p \<longrightarrow> slot s1 j = slot s j)) \<and>
    (\<forall>t h h' a b. duo_step\<^sup>*\<^sup>* (s\<lparr>held := []\<rparr>, [lk], [], sleep_code p c lk @ [release LkPtable], waker c lk) (t, h, h', a, b) \<longrightarrow>
      (b = [] \<longrightarrow> a = [] \<and> h = [] \<and> h' = [] \<and> p_state (slot t p) = RUNNABLE \<and> sched_inv {} t) \<and>
      (b \<noteq> [] \<longrightarrow> (\<exists>z. duo_step (t, h, h', a, b) z)))"
proof (intro conjI)
  obtain s1 where s1: "sleep c lk s = Block c s1" "sched_inv {} s1" "held s1 = [LkPtable]"
    "ptable s1 = (ptable s)[p := (slot s p)\<lparr>p_chan := c, p_state := SLEEPING, p_context := CtxSched\<rparr>]"
    using sleep_Block [OF assms, of c] by auto
  then show "\<exists>s1. sleep c lk s = Block c s1 \<and> held s1 = [LkPtable] \<and> sched_inv {} s1 \<and>
      sleeps_on c (slot s1 p) \<and> (\<forall>j<NPROC. j \<noteq> p \<longrightarrow> slot s1 j = slot s j)"
    using assms(3,4) by (simp add: sleeps_on_def)
qed (use sleep_wakeup_reach [OF assms(1,3-5)] in \<open>unfold sleeper_def, blast\<close>)

theorem sleep_wakeup_not_lost_witness:
  "\<exists>s1. sleep ChTicks LkTicks ((proc_example MLFQ)\<lparr>held := [LkTicks]\<rparr>) = Block ChTicks s1 \<and>
     held s1 = [LkPtable] \<and> p_state (slot s1 0) = SLEEPING"
proof -
  have n: "0 < NPROC" by (simp add: NPROC_def)
  have "cpu_proc ((proc_example MLFQ)\<lparr>held := [LkTicks]\<rparr>) = Some 0"
    "held ((proc_example MLFQ)\<lparr>held := [LkTicks]\<rparr>) = [LkTicks]"
    "sched_inv {} ((proc_example MLFQ)\<lparr>held := [LkTicks]\<rparr>)"
    "p_state (slot ((proc_example MLFQ)\<lparr>held := [LkTicks]\<rparr>) 0) = RUNNING"
    using n by (simp_all add: example_inv slot_example)
  from sleep_wakeup_not_lost [OF this(1,2) n this(3,4), of ChTicks] show ?thesis
    by (auto simp: sleeps_on_def)
qed

text \<open>
  C9: kill(pid) returns -1 and changes nothing when no slot has the pid. Otherwise it returns 0,
  marks the first slot with that pid killed, makes it runnable if it was sleeping (under MLFQ it is
  then in its queue, once), and changes nothing else.
\<close>

theorem kill_correct:
  assumes "sched_inv {} s" "LkPtable \<notin> set (held s)"
  shows "((\<forall>i<NPROC. pid_of s i \<noteq> pid) \<longrightarrow> kill pid s = Ret (-1) s) \<and>
    (\<forall>i<NPROC. pid_of s i = pid \<and> (\<forall>j<i. pid_of s j \<noteq> pid) \<longrightarrow>
       (\<exists>s'. kill pid s = Ret 0 s' \<and> sched_inv {} s' \<and> table_frame s s' \<and>
          (\<forall>j<NPROC. slot s' j = (if j = i then kill_proc (slot s i) else slot s j))))"
proof (intro conjI impI allI)
  assume "\<forall>i<NPROC. pid_of s i \<noteq> pid"
  then show "kill pid s = Ret (-1) s"
    using kill_unknown [OF assms(2)] by blast
next
  fix i assume "i < NPROC" "pid_of s i = pid \<and> (\<forall>j<i. pid_of s j \<noteq> pid)"
  then have "find (\<lambda>i. pid_of s i = pid) [0..<NPROC] = Some i"
    by (simp add: find_upt_Some)
  then show "\<exists>s'. kill pid s = Ret 0 s' \<and> sched_inv {} s' \<and> table_frame s s' \<and>
      (\<forall>j<NPROC. slot s' j = (if j = i then kill_proc (slot s i) else slot s j))"
    by (rule kill_found [OF assms])
qed

theorem kill_correct_witness:
  "\<exists>s'. kill 2 (proc_example MLFQ) = Ret 0 s' \<and> p_killed (slot s' 1) \<and> p_state (slot s' 1) = RUNNABLE"
proof -
  have lk: "LkPtable \<notin> set (held (proc_example MLFQ))" by simp
  have n: "1 < NPROC" "0 < NPROC" by (simp_all add: NPROC_def)
  have "pid_of (proc_example MLFQ) 1 = 2 \<and> (\<forall>j<1. pid_of (proc_example MLFQ) j \<noteq> 2)"
    using n by (simp add: slot_example)
  from kill_correct [OF example_inv lk, of 2, THEN conjunct2, rule_format, OF n(1) this]
  obtain s' where "kill 2 (proc_example MLFQ) = Ret 0 s'" "slot s' 1 = kill_proc (slot (proc_example MLFQ) 1)"
    using n(1) by auto
  then show ?thesis using n by (simp add: slot_example kill_proc_def)
qed

text \<open>
  C10: allocproc. With no unused slot it returns 0 and changes nothing. Otherwise the first unused
  slot gets the next pid, which no slot has, and nextpid is incremented as a 32-bit int. If a page
  is available the slot becomes an embryo with that page as kernel stack, whose trap frame is what
  the top of the page holds and whose switch frame starts in forkret and returns to trapret, and
  with all statistics reset; if not the slot is unused again (and keeps the pid). No other slot and
  no word outside the new stack changes. The invariants of the table hold afterwards unless nextpid
  was INT_MAX, the last pid there is: then it wraps to the least int, and they do not.
\<close>

theorem allocproc_correct:
  assumes "sched_inv {} s" "held s = []"
  shows "((\<forall>i<NPROC. p_state (slot s i) \<noteq> UNUSED) \<longrightarrow> allocproc s = Ret None s) \<and>
    (\<forall>i<NPROC. p_state (slot s i) = UNUSED \<and> (\<forall>j<i. p_state (slot s j) \<noteq> UNUSED) \<longrightarrow>
       (\<forall>j<NPROC. pid_of s j \<noteq> nextpid s) \<and>
       (\<exists>s'. allocproc s = Ret (if freelist s = 0 then None else Some i) s' \<and>
          (if nextpid s = 2 ^ 31 - 1 then nextpid s' = - (2 ^ 31) \<and> \<not> sched_inv {} s'
           else nextpid s' = nextpid s + 1 \<and> sched_inv {} s') \<and> pid_of s' i = nextpid s \<and>
          (\<forall>j<NPROC. j \<noteq> i \<longrightarrow> slot s' j = slot s j) \<and>
          (if freelist s = 0 then p_state (slot s' i) = UNUSED \<and> mem s' = mem s
           else mem s' = new_stack (freelist s) (trapret_addr s) (forkret_addr s) (mem s) \<and>
             slot s' i = fresh_proc (sched_cfg s) (ticks s) (nextpid s) (freelist s)
               (tf_at (mem s) (freelist s + 4020)) (slot s i))))"
proof (intro conjI impI allI)
  assume "\<forall>i<NPROC. p_state (slot s i) \<noteq> UNUSED"
  then show "allocproc s = Ret None s"
    by (intro allocproc_full) (simp_all add: assms(2))
next
  fix i j assume "j < NPROC"
  then have "pid_of s j < nextpid s"
    using assms(1) by (simp add: sched_inv_def pid_inv_def)
  then show "pid_of s j \<noteq> nextpid s" by simp
next
  fix i assume i: "i < NPROC" and unused: "p_state (slot s i) = UNUSED \<and> (\<forall>j<i. p_state (slot s j) \<noteq> UNUSED)"
  then have "find (\<lambda>i. p_state (slot s i) = UNUSED) [0..<NPROC] = Some i"
    by (simp add: find_upt_Some)
  note eq = allocproc_eq [OF assms(2) this sched_inv_length [OF assms(1)]]
  have len: "i < length (ptable s)" using assms(1) i by simp
  let ?f = "\<lambda>p. p\<lparr>p_pid := nextpid s, p_curr_priority := 60, p_kstack := 0, p_state := UNUSED\<rparr>"
  let ?g = "fresh_proc (sched_cfg s) (ticks s) (nextpid s) (freelist s) (tf_at (mem s) (freelist s + 4020))"
  let ?n = "int_wrap (nextpid s + 1)"
  let ?m = "new_stack (freelist s) (trapret_addr s) (forkret_addr s) (mem s)"
  have none: "sched_inv {} (upd_proc i ?f (s\<lparr>nextpid := ?n\<rparr>))" if "nextpid s < 2 ^ 31 - 1"
    using unused that by (intro sched_inv_alloc [OF assms(1) i]) simp_all
  have inv: "sched_inv {} (upd_proc i ?g (s\<lparr>nextpid := ?n\<rparr>))" if "nextpid s < 2 ^ 31 - 1"
    using unused fresh_proc_simps that by (intro sched_inv_alloc [OF assms(1) i]) simp_all
  have some: "sched_inv {} (upd_proc i ?g (s\<lparr>nextpid := ?n, freelist := mem s (freelist s), mem := ?m\<rparr>))"
    if "nextpid s < 2 ^ 31 - 1"
    by (rule sched_inv_cong [THEN iffD2, OF _ _ _ _ _ inv [OF that]]) simp_all
  have "0 < nextpid s" "nextpid s < 2 ^ 31" using assms(1) by (simp_all add: sched_inv_def pid_inv_def)
  then have n: "nextpid s = 2 ^ 31 - 1 \<Longrightarrow> ?n = - (2 ^ 31)"
    "nextpid s \<noteq> 2 ^ 31 - 1 \<Longrightarrow> ?n = nextpid s + 1 \<and> nextpid s < 2 ^ 31 - 1"
    using int_wrap_max int_wrap_id [of "nextpid s + 1"] by auto
  have neg: "\<not> sched_inv {} t" if "nextpid t = - (2 ^ 31)" for t :: "'a proc_state_scheme"
    using that by (simp add: sched_inv_def pid_inv_def)
  show "\<exists>s'. allocproc s = Ret (if freelist s = 0 then None else Some i) s' \<and>
      (if nextpid s = 2 ^ 31 - 1 then nextpid s' = - (2 ^ 31) \<and> \<not> sched_inv {} s'
       else nextpid s' = nextpid s + 1 \<and> sched_inv {} s') \<and> pid_of s' i = nextpid s \<and>
      (\<forall>j<NPROC. j \<noteq> i \<longrightarrow> slot s' j = slot s j) \<and>
      (if freelist s = 0 then p_state (slot s' i) = UNUSED \<and> mem s' = mem s
       else mem s' = ?m \<and> slot s' i = ?g (slot s i))"
    using len n none some neg unfolding eq
    by (cases "freelist s = 0"; cases "nextpid s = 2 ^ 31 - 1") (simp_all add: fresh_proc_simps(2))
qed

theorem allocproc_correct_witness:
  "\<exists>s'. allocproc (proc_example PBS) = Ret (Some 2) s' \<and> pid_of s' 2 = 3 \<and> p_state (slot s' 2) = EMBRYO"
proof -
  have n: "2 < NPROC" "1 < NPROC" "0 < NPROC" by (simp_all add: NPROC_def)
  have "p_state (slot (proc_example PBS) 2) = UNUSED \<and> (\<forall>j<2. p_state (slot (proc_example PBS) j) \<noteq> UNUSED)"
    using n by (auto simp: slot_example proc0_def less_2_cases_iff)
  from allocproc_correct [OF example_inv example_simps(1), of PBS, THEN conjunct2, rule_format, OF n(1) this, THEN conjunct2]
  obtain s' where
    "allocproc (proc_example PBS) = Ret (Some 2) s'" "pid_of s' 2 = 3"
    "slot s' 2 = fresh_proc PBS 0 3 0x80200000 (tf_at (mem (proc_example PBS)) (0x80200000 + 4020)) (slot (proc_example PBS) 2)"
    by auto
  then show ?thesis by (simp add: fresh_proc_simps)
qed

text \<open>
  C11: One timer tick (update_process_stats) charges every live process that is not killed exactly
  one tick, to its run time, its sleep time or its current wait time according to its state, and
  under MLFQ charges a running process also in its current slice and at its queue level (each
  counter a 32-bit int). Every other field of every slot, and everything outside the table, is
  unchanged.
\<close>

theorem tick_accounting:
  assumes "sched_inv {} s" "LkPtable \<notin> set (held s)"
  shows "\<exists>s'. update_process_stats s = Ret () s' \<and> sched_inv {} s' \<and> s' = s\<lparr>ptable := ptable s'\<rparr> \<and>
    (\<forall>i<NPROC. let p = slot s i; live = (\<not> p_killed p \<and> p_pid p \<noteq> 0); q = nat (p_curr_queue_id p);
         charge = (\<lambda>b x. if live \<and> b then int_wrap (x + 1) else x) in
       slot s' i = p\<lparr>p_tot_run_time := charge (p_state p = RUNNING) (p_tot_run_time p),
         p_tot_sleep_time := charge (p_state p = SLEEPING) (p_tot_sleep_time p),
         p_curr_wait_time := charge (p_state p = RUNNABLE) (p_curr_wait_time p),
         p_curr_ticks_got := charge (p_state p = RUNNING \<and> sched_cfg s = MLFQ) (p_curr_ticks_got p),
         p_tot_ticks_got := (p_tot_ticks_got p)
           [q := charge (p_state p = RUNNING \<and> sched_cfg s = MLFQ) (p_tot_ticks_got p ! q)]\<rparr>)"
proof -
  let ?t = "tick_proc (sched_cfg s)"
  let ?s = "s\<lparr>ptable := map ?t (ptable s)\<rparr>"
  have len: "length (ptable s) = NPROC" using assms(1) by simp
  have keep: "p_state (tick_proc cfg p) = p_state p" "p_pid (tick_proc cfg p) = p_pid p"
    "p_curr_queue_id (tick_proc cfg p) = p_curr_queue_id p" for cfg p
    by (simp_all add: tick_proc_def split: procstate.split)
  have wf: "wf_queues (s\<lparr>ptable := map f (ptable s)\<rparr>) = wf_queues s" for f
    by (rule wf_queues_cong) simp_all
  have q: "qlist (s\<lparr>ptable := map f (ptable s)\<rparr>) = qlist s" for f
    by (rule qlist_cong) simp_all
  have "sched_inv {} ?s"
    using assms(1) len unfolding sched_inv_def pid_inv_def by (simp add: keep wf q)
  moreover have "update_process_stats s = Ret () ?s"
    by (rule update_process_stats_map [OF assms])
  moreover have "slot ?s i = ?t (slot s i)" if "i < NPROC" for i using that len by simp
  ultimately show ?thesis
    by (intro exI [of _ ?s] conjI allI impI) (simp_all add: tick_proc_fields)
qed

theorem tick_accounting_witness:
  "\<exists>s'. update_process_stats (proc_example MLFQ) = Ret () s' \<and> p_tot_run_time (slot s' 0) = 1 \<and>
     p_tot_sleep_time (slot s' 1) = 1 \<and> p_tot_sleep_time (slot s' 0) = 0"
proof -
  have lk: "LkPtable \<notin> set (held (proc_example MLFQ))" by simp
  have n: "0 < NPROC" "1 < NPROC" by (simp_all add: NPROC_def)
  have w: "int_wrap 1 = 1" by (rule int_wrap_id) simp_all
  from tick_accounting [OF example_inv lk] obtain s' where
    s': "update_process_stats (proc_example MLFQ) = Ret () s'" and
    all: "\<forall>i<NPROC. let p = slot (proc_example MLFQ) i; live = (\<not> p_killed p \<and> p_pid p \<noteq> 0); q = nat (p_curr_queue_id p);
         charge = (\<lambda>b x. if live \<and> b then int_wrap (x + 1) else x) in
       slot s' i = p\<lparr>p_tot_run_time := charge (p_state p = RUNNING) (p_tot_run_time p),
         p_tot_sleep_time := charge (p_state p = SLEEPING) (p_tot_sleep_time p),
         p_curr_wait_time := charge (p_state p = RUNNABLE) (p_curr_wait_time p),
         p_curr_ticks_got := charge (p_state p = RUNNING \<and> sched_cfg (proc_example MLFQ) = MLFQ) (p_curr_ticks_got p),
         p_tot_ticks_got := (p_tot_ticks_got p)
           [q := charge (p_state p = RUNNING \<and> sched_cfg (proc_example MLFQ) = MLFQ) (p_tot_ticks_got p ! q)]\<rparr>"
    by blast
  from all [rule_format, OF n(1)] all [rule_format, OF n(2)] n s' show ?thesis
    by (simp add: slot_example proc0_def Let_def w)
qed


text \<open>An example in which the reset has an effect: process 1 has priority 40 and one chance.\<close>

definition chances_example :: proc_state where
  "chances_example = (proc_example PBS)\<lparr>ptable := (replicate NPROC proc0)
     [0 := proc0\<lparr>p_pid := 1, p_state := RUNNING, p_curr_priority := 40, p_pbs_chances := 1\<rparr>,
      1 := proc0\<lparr>p_pid := 2, p_state := SLEEPING\<rparr>]\<rparr>"


text \<open>
  C13: kill does not check that the slot it finds is in use, and allocproc does not clear killed.
  So kill(0), whose pid matches any slot that was never used or has been reaped, reports success
  and marks a free slot, and the process that is next created in that slot starts out killed.
\<close>

theorem kill_marks_free_slot:
  assumes "sched_inv {} s" "held s = []" "freelist s \<noteq> 0" "i < NPROC"
    and "p_state (slot s i) = UNUSED" "pid_of s i = 0"
    and "\<And>j. j < i \<Longrightarrow> p_state (slot s j) \<noteq> UNUSED"
  shows "\<exists>s1 s2. kill 0 s = Ret 0 s1 \<and> allocproc s1 = Ret (Some i) s2 \<and>
    p_killed (slot s2 i) \<and> pid_of s2 i = nextpid s"
proof -
  have nz: "pid_of s j \<noteq> 0" if "j < i" for j
    using assms(1,4,7) that unfolding sched_inv_def pid_inv_def by (metis less_irrefl less_trans)
  then have "find (\<lambda>i. pid_of s i = 0) [0..<NPROC] = Some i"
    using assms(4,6) by (simp add: find_upt_Some)
  moreover have lk: "LkPtable \<notin> set (held s)" using assms(2) by simp
  ultimately obtain s1 where s1: "kill 0 s = Ret 0 s1" "sched_inv {} s1" "table_frame s s1"
    "\<And>j. j < NPROC \<Longrightarrow> slot s1 j = (if j = i then kill_proc (slot s i) else slot s j)"
    using kill_found [OF assms(1) lk, of 0 i] by auto
  have "p_state (slot s1 i) = UNUSED" "p_killed (slot s1 i)"
    using s1(4) [OF assms(4)] assms(5) by (simp_all add: kill_proc_def)
  moreover have "p_state (slot s1 j) \<noteq> UNUSED" if "j < i" for j
    using s1(4) [of j] that assms(4,7) by simp
  ultimately have "find (\<lambda>i. p_state (slot s1 i) = UNUSED) [0..<NPROC] = Some i"
    using assms(4) by (simp add: find_upt_Some)
  from allocproc_eq [OF _ this] s1(2,3) assms(2,3,4) \<open>p_killed (slot s1 i)\<close> s1(1) show ?thesis
    by (simp add: table_frameD fresh_proc_simps)
qed

theorem kill_marks_free_slot_witness:
  "\<exists>s1 s2. kill 0 (proc_example RR) = Ret 0 s1 \<and> allocproc s1 = Ret (Some 2) s2 \<and> p_killed (slot s2 2)"
proof -
  have n: "2 < NPROC" "1 < NPROC" "0 < NPROC" by (simp_all add: NPROC_def)
  have "freelist (proc_example RR) \<noteq> 0" by simp
  moreover have "p_state (slot (proc_example RR) 2) = UNUSED" "pid_of (proc_example RR) 2 = 0"
    using n by (simp_all add: slot_example proc0_def)
  moreover have "p_state (slot (proc_example RR) j) \<noteq> UNUSED" if "j < 2" for j
    using that n by (auto simp: slot_example proc0_def less_2_cases_iff)
  ultimately show ?thesis
    using kill_marks_free_slot [OF example_inv example_simps(1) _ n(1), of RR] by blast
qed

end
