(* ===== verification/Scheduler.thy ===== *)
theory Scheduler
  imports Proc
begin

text \<open>
  The four schedulers of \<open>proc.c\<close>. Each is an endless loop that is left and entered again by
  \<open>swtch\<close>, so each is two definitions: \<open>*_top\<close> is a pass of the loop from its head, with the lock
  free, to the switch to a process (\<open>Some p\<close>) or back to the head (\<open>None\<close>); \<open>*_back\<close> is what
  runs when that process switches back. \<open>sched_top\<close> and \<open>sched_back\<close> select by the build-time
  configuration; the variable \<open>start_idx\<close> of the priority scheduler is passed explicitly.
\<close>

section \<open>Switching address spaces\<close>

definition switchuvm :: "nat option \<Rightarrow> 'a proc_state_scheme \<Rightarrow> (unit, 'a proc_state_scheme) outcome" where
  "switchuvm p s =
     (case p of
        None \<Rightarrow> Panic ''switchuvm: no process''
      | Some p \<Rightarrow>
          if p_kstack (slot s p) = 0 then Panic ''switchuvm: no kstack''
          else if p_pgdir (slot s p) = 0 then Panic ''switchuvm: no pgdir''
          else Ret () (s\<lparr>ts_esp0 := p_kstack (slot s p) + KSTACKSIZE, cr3 := V2P (p_pgdir (slot s p))\<rparr>))"

definition switchkvm :: "'a proc_state_scheme \<Rightarrow> 'a proc_state_scheme" where
  "switchkvm s = s\<lparr>cr3 := V2P (kpgdir s)\<rparr>"

section \<open>Round robin\<close>

definition rr_dispatch :: "nat \<Rightarrow> 'a proc_state_scheme \<Rightarrow> (nat option, 'a proc_state_scheme) outcome" where
  "rr_dispatch p s =
     (let s = s\<lparr>cpu_proc := Some p\<rparr>
      in kbind (switchuvm (Some p) s) (\<lambda>_ s.
         Ret (Some p) (upd_proc p (\<lambda>r. r\<lparr>p_state := RUNNING, p_curr_wait_time := 0,
           p_num_times_scheduled := int_wrap (p_num_times_scheduled r + 1)\<rparr>) s)))"

definition rr_scan :: "nat \<Rightarrow> 'a proc_state_scheme \<Rightarrow> (nat option, 'a proc_state_scheme) outcome" where
  "rr_scan i s =
     (case find (\<lambda>p. p_state (slot s p) = RUNNABLE) [i..<NPROC] of
        None \<Rightarrow> kbind (release LkPtable s) (\<lambda>_ s. Ret None s)
      | Some p \<Rightarrow> rr_dispatch p s)"

definition rr_top :: "'a proc_state_scheme \<Rightarrow> (nat option, 'a proc_state_scheme) outcome" where
  "rr_top s = kbind (acquire LkPtable s) (\<lambda>_ s. rr_scan 0 s)"

definition rr_back :: "nat \<Rightarrow> 'a proc_state_scheme \<Rightarrow> (nat option, 'a proc_state_scheme) outcome" where
  "rr_back p s =
     (let s = switchkvm s; s = s\<lparr>cpu_proc := None\<rparr>
      in rr_scan (p + 1) s)"

section \<open>First come, first served\<close>

definition oldest_of :: "'a proc_state_scheme \<Rightarrow> nat option" where
  "oldest_of s =
     fold (\<lambda>p oldest_proc.
         if p_state (slot s p) \<noteq> RUNNABLE then oldest_proc
         else case oldest_proc of
                None \<Rightarrow> Some p
              | Some b \<Rightarrow> if p_creation_time (slot s p) < p_creation_time (slot s b) then Some p else oldest_proc)
       [0..<NPROC] None"

definition fcfs_top :: "'a proc_state_scheme \<Rightarrow> (nat option, 'a proc_state_scheme) outcome" where
  "fcfs_top s =
     kbind (acquire LkPtable s) (\<lambda>_ s.
     case oldest_of s of
       None \<Rightarrow> kbind (release LkPtable s) (\<lambda>_ s. Ret None s)
     | Some p \<Rightarrow> rr_dispatch p s)"

definition fcfs_back :: "nat \<Rightarrow> 'a proc_state_scheme \<Rightarrow> (nat option, 'a proc_state_scheme) outcome" where
  "fcfs_back p s =
     (let s = switchkvm s; s = s\<lparr>cpu_proc := None\<rparr>
      in kbind (release LkPtable s) (\<lambda>_ s. Ret None s))"

section \<open>Priority based\<close>

definition max_chances_poss :: int where "max_chances_poss = 147483647"

text \<open>The first loop: the least priority and, as written, the greatest \<open>pbs_chances\<close> at it.\<close>

definition pbs_min_step :: "'a proc_state_scheme \<Rightarrow> nat \<Rightarrow> int \<times> int \<Rightarrow> int \<times> int" where
  "pbs_min_step s i acc =
     (case acc of (min_priority_existing, min_pbs_chances) \<Rightarrow>
        let p = slot s i
        in if p_state p \<noteq> RUNNABLE then acc
           else if p_curr_priority p < min_priority_existing then (p_curr_priority p, p_pbs_chances p)
           else if p_curr_priority p = min_priority_existing then
             if min_pbs_chances < p_pbs_chances p then (min_priority_existing, p_pbs_chances p) else acc
           else acc)"

definition pbs_min :: "'a proc_state_scheme \<Rightarrow> int \<times> int" where
  "pbs_min s = fold (pbs_min_step s) [0..<NPROC] (1001, max_chances_poss)"

definition pbs_dispatch :: "nat \<Rightarrow> 'a proc_state_scheme \<Rightarrow> (nat option, 'a proc_state_scheme) outcome" where
  "pbs_dispatch p s =
     (let s = s\<lparr>cpu_proc := Some p\<rparr>
      in kbind (switchuvm (Some p) s) (\<lambda>_ s.
         Ret (Some p) (upd_proc p (\<lambda>r. r\<lparr>p_state := RUNNING, p_curr_wait_time := 0\<rparr>) s)))"

definition pbs_pick :: "nat \<Rightarrow> 'a proc_state_scheme \<Rightarrow> nat option" where
  "pbs_pick start_idx s =
     (case pbs_min s of (min_priority_existing, min_pbs_chances) \<Rightarrow>
        if min_priority_existing = 101 then None
        else map_option (\<lambda>k. (start_idx + k) mod NPROC)
          (find (\<lambda>k. let p = slot s ((start_idx + k) mod NPROC)
                     in p_state p = RUNNABLE \<and> p_curr_priority p = min_priority_existing \<and>
                        p_pbs_chances p = min_pbs_chances) [0..<NPROC]))"

definition pbs_top :: "nat \<Rightarrow> 'a proc_state_scheme \<Rightarrow> (nat option, 'a proc_state_scheme) outcome" where
  "pbs_top start_idx s =
     kbind (acquire LkPtable s) (\<lambda>_ s.
     case pbs_pick start_idx s of
       None \<Rightarrow> kbind (release LkPtable s) (\<lambda>_ s. Ret None s)
     | Some p \<Rightarrow> pbs_dispatch p s)"

text \<open>Returns the new \<open>start_idx\<close>.\<close>

definition pbs_back :: "nat \<Rightarrow> 'a proc_state_scheme \<Rightarrow> (nat, 'a proc_state_scheme) outcome" where
  "pbs_back p s =
     (let s = switchkvm s; start_idx = (p + 1) mod NPROC; s = s\<lparr>cpu_proc := None\<rparr>
      in kbind (release LkPtable s) (\<lambda>_ s. Ret start_idx s))"

section \<open>Multi-level feedback queues\<close>

text \<open>The aging loop over one queue, from entry \<open>j\<close> on.\<close>

definition age_one :: "nat \<Rightarrow> nat \<Rightarrow> 'a proc_state_scheme \<Rightarrow> (unit, 'a proc_state_scheme) outcome" where
  "age_one i j s =
     (case queue_ptr s ! i ! j of
        None \<Rightarrow> Fault
      | Some curr_p \<Rightarrow>
          if p_curr_wait_time (slot s curr_p) > patience_threshold ! i then
            kbind (delete_process curr_p (int i) s) (\<lambda>_ s.
            let s = print (MsgPromote (ticks s) (p_pid (slot s curr_p)) (int i - 1)) s;
                s = upd_proc curr_p (\<lambda>r. r\<lparr>p_curr_wait_time := 0\<rparr>) s
            in kbind (push_back_process curr_p (int i - 1) s) (\<lambda>_ s. Ret () s))
          else Ret () s)"

function (sequential) age_queue ::
  "nat \<Rightarrow> nat \<Rightarrow> 'a proc_state_scheme \<Rightarrow> (unit, 'a proc_state_scheme) outcome" where
  "age_queue i j s =
     (if int j \<le> q_latest_idx s ! i then
        if 65 \<le> j then Fault else kbind (age_one i j s) (\<lambda>_ s. age_queue i (j + 1) s)
      else Ret () s)"
  by pat_completeness auto
termination
  by (relation "measure (\<lambda>(i, j, s). 65 - j)") auto

declare age_queue.simps [simp del]

definition mlfq_age :: "'a proc_state_scheme \<Rightarrow> (unit, 'a proc_state_scheme) outcome" where
  "mlfq_age s = kfor [1..<5] (\<lambda>i s. age_queue i 0 s) s"

definition mlfq_dispatch :: "nat \<Rightarrow> 'a proc_state_scheme \<Rightarrow> (nat option, 'a proc_state_scheme) outcome" where
  "mlfq_dispatch p s =
     (let s = upd_proc p (\<lambda>r. r\<lparr>p_curr_ticks_got := 0, p_num_times_scheduled := int_wrap (p_num_times_scheduled r + 1)\<rparr>) s;
          s = s\<lparr>cpu_proc := Some p\<rparr>
      in kbind (switchuvm (Some p) s) (\<lambda>_ s.
         Ret (Some p) (upd_proc p (\<lambda>r. r\<lparr>p_state := RUNNING, p_curr_wait_time := 0\<rparr>) s)))"

definition mlfq_top :: "'a proc_state_scheme \<Rightarrow> (nat option, 'a proc_state_scheme) outcome" where
  "mlfq_top s =
     kbind (acquire LkPtable s) (\<lambda>_ s.
     kbind (mlfq_age s) (\<lambda>_ s.
     case find (\<lambda>i. q_latest_idx s ! i \<ge> 0) [0..<5] of
       None \<Rightarrow> kbind (release LkPtable s) (\<lambda>_ s. Ret None s)
     | Some i \<Rightarrow>
         (case queue_ptr s ! i ! 0 of
            None \<Rightarrow> Fault
          | Some p \<Rightarrow>
              kbind (delete_process p (int i) s) (\<lambda>_ s.
              if p_state (slot s p) = RUNNABLE then mlfq_dispatch p s
              else kbind (release LkPtable s) (\<lambda>_ s. Ret None s)))))"

definition mlfq_demote :: "nat \<Rightarrow> 'a proc_state_scheme \<Rightarrow> 'a proc_state_scheme" where
  "mlfq_demote p s =
     (if p_should_demote (slot s p) = 1 then
        let s = upd_proc p (\<lambda>r. r\<lparr>p_should_demote := 0, p_curr_ticks_got := 0, p_curr_wait_time := 0\<rparr>) s
        in if p_curr_queue_id (slot s p) < 4 then
             let s = upd_proc p (\<lambda>r. r\<lparr>p_curr_queue_id := p_curr_queue_id r + 1\<rparr>) s
             in print (MsgDemote (ticks s) (p_pid (slot s p)) (p_curr_queue_id (slot s p))) s
           else s
      else s)"

definition mlfq_back :: "nat \<Rightarrow> 'a proc_state_scheme \<Rightarrow> (nat option, 'a proc_state_scheme) outcome" where
  "mlfq_back p s =
     (let s = switchkvm s; s = s\<lparr>cpu_proc := None\<rparr>
      in kbind (if p_state (slot s p) = RUNNABLE then
                  let s = mlfq_demote p s
                  in kbind (push_back_process p (p_curr_queue_id (slot s p)) s) (\<lambda>_ s. Ret () s)
                else Ret () s) (\<lambda>_ s.
         kbind (release LkPtable s) (\<lambda>_ s. Ret None s)))"

section \<open>The scheduler of the configuration\<close>

definition sched_top :: "nat \<Rightarrow> 'a proc_state_scheme \<Rightarrow> (nat option, 'a proc_state_scheme) outcome" where
  "sched_top start_idx s =
     (case sched_cfg s of RR \<Rightarrow> rr_top s | FCFS \<Rightarrow> fcfs_top s | PBS \<Rightarrow> pbs_top start_idx s | MLFQ \<Rightarrow> mlfq_top s)"

definition sched_back :: "nat \<Rightarrow> nat \<Rightarrow> 'a proc_state_scheme \<Rightarrow> (nat option \<times> nat, 'a proc_state_scheme) outcome" where
  "sched_back start_idx p s =
     (case sched_cfg s of
        RR \<Rightarrow> kbind (rr_back p s) (\<lambda>r s. Ret (r, start_idx) s)
      | FCFS \<Rightarrow> kbind (fcfs_back p s) (\<lambda>r s. Ret (r, start_idx) s)
      | PBS \<Rightarrow> kbind (pbs_back p s) (\<lambda>start s. Ret (None, start) s)
      | MLFQ \<Rightarrow> kbind (mlfq_back p s) (\<lambda>r s. Ret (r, start_idx) s))"

section \<open>Selection\<close>

abbreviation runnable :: "'a proc_state_scheme \<Rightarrow> nat \<Rightarrow> bool" where
  "runnable s i \<equiv> p_state (slot s i) = RUNNABLE"

lemma find_from_Some:
  "find P [i..<n] = Some k \<longleftrightarrow> i \<le> k \<and> k < n \<and> P k \<and> (\<forall>j. i \<le> j \<and> j < k \<longrightarrow> \<not> P j)"
proof
  assume "find P [i..<n] = Some k"
  then obtain a where "a < n - i" "P (i + a)" "k = i + a" "\<forall>j<a. \<not> P (i + j)"
    by (auto simp: find_Some_iff)
  then show "i \<le> k \<and> k < n \<and> P k \<and> (\<forall>j. i \<le> j \<and> j < k \<longrightarrow> \<not> P j)"
    by (auto simp: le_iff_add)
next
  assume a: "i \<le> k \<and> k < n \<and> P k \<and> (\<forall>j. i \<le> j \<and> j < k \<longrightarrow> \<not> P j)"
  then show "find P [i..<n] = Some k"
    unfolding find_Some_iff by (intro exI [of _ "k - i"]) auto
qed

text \<open>FCFS: the scan keeps the earliest runnable process seen so far, the first of equals.\<close>

definition earliest :: "nat \<Rightarrow> 'a proc_state_scheme \<Rightarrow> nat option \<Rightarrow> bool" where
  "earliest n s r \<longleftrightarrow>
     (case r of
        None \<Rightarrow> \<forall>j<n. \<not> runnable s j
      | Some p \<Rightarrow> p < n \<and> runnable s p \<and>
          (\<forall>j<n. runnable s j \<longrightarrow> p_creation_time (slot s p) \<le> p_creation_time (slot s j) \<and>
             (j < p \<longrightarrow> p_creation_time (slot s p) < p_creation_time (slot s j))))"

lemma oldest_of_earliest: "earliest NPROC s (oldest_of s)"
proof -
  have "earliest n s (fold (\<lambda>p oldest_proc.
      if p_state (slot s p) \<noteq> RUNNABLE then oldest_proc
      else case oldest_proc of
             None \<Rightarrow> Some p
           | Some b \<Rightarrow> if p_creation_time (slot s p) < p_creation_time (slot s b) then Some p else oldest_proc)
    [0..<n] None)" (is "earliest n s (?f n)") for n
  proof (induction n)
    case 0
    then show ?case by (simp add: earliest_def)
  next
    case (Suc n)
    then show ?case
      by (cases "?f n") (auto simp: earliest_def less_Suc_eq split: option.splits)
  qed
  then show ?thesis by (simp add: oldest_of_def)
qed

text \<open>PBS: with all \<open>pbs_chances\<close> zero the first loop finds the least priority of a runnable process.\<close>

definition least_prio :: "nat \<Rightarrow> 'a proc_state_scheme \<Rightarrow> int \<times> int \<Rightarrow> bool" where
  "least_prio n s acc \<longleftrightarrow>
     (acc = (1001, max_chances_poss) \<and> (\<forall>j<n. \<not> runnable s j)) \<or>
     (snd acc = 0 \<and> (\<exists>j<n. runnable s j \<and> p_curr_priority (slot s j) = fst acc) \<and>
      (\<forall>j<n. runnable s j \<longrightarrow> fst acc \<le> p_curr_priority (slot s j)))"

definition prio_ok :: "'a proc_state_scheme \<Rightarrow> bool" where
  "prio_ok s \<longleftrightarrow> (\<forall>i<NPROC. -1 \<le> p_curr_priority (slot s i) \<and> p_curr_priority (slot s i) \<le> 100)"

lemma pbs_min_least:
  assumes "pbs_zero s" "prio_ok s"
  shows "least_prio NPROC s (pbs_min s)"
proof -
  have "n \<le> NPROC \<Longrightarrow> least_prio n s (fold (pbs_min_step s) [0..<n] (1001, max_chances_poss))" for n
  proof (induction n)
    case 0
    then show ?case by (simp add: least_prio_def)
  next
    case (Suc n)
    let ?acc = "fold (pbs_min_step s) [0..<n] (1001, max_chances_poss)"
    have n: "p_pbs_chances (slot s n) = 0" "p_curr_priority (slot s n) \<le> 100"
      using assms Suc.prems by (simp_all add: pbs_zero_def prio_ok_def)
    have "least_prio n s ?acc" using Suc by simp
    then have "least_prio (Suc n) s (pbs_min_step s n ?acc)"
      using n by (cases ?acc) (auto simp: least_prio_def pbs_min_step_def Let_def less_Suc_eq max_chances_poss_def)
    then show ?case by simp
  qed
  then show ?thesis by (simp add: pbs_min_def)
qed

definition cyc_dist :: "nat \<Rightarrow> nat \<Rightarrow> nat" where
  "cyc_dist start_idx j = (if start_idx \<le> j then j - start_idx else j + NPROC - start_idx)"

lemma cyc_dist_less: "start_idx < NPROC \<Longrightarrow> j < NPROC \<Longrightarrow> cyc_dist start_idx j < NPROC"
  by (auto simp: cyc_dist_def)

lemma cyc_dist_at: "start_idx < NPROC \<Longrightarrow> j < NPROC \<Longrightarrow> (start_idx + cyc_dist start_idx j) mod NPROC = j"
  by (auto simp: cyc_dist_def mod_if)

lemma at_cyc_dist: "start_idx < NPROC \<Longrightarrow> k < NPROC \<Longrightarrow> cyc_dist start_idx ((start_idx + k) mod NPROC) = k"
  by (auto simp: cyc_dist_def mod_if)

lemma cyc_dist_next:
  assumes "start_idx < NPROC" "p < NPROC" "j < NPROC" "j \<noteq> p" "cyc_dist start_idx p \<le> cyc_dist start_idx j"
  shows "cyc_dist ((p + 1) mod NPROC) j < cyc_dist start_idx j"
  using assms by (auto simp: cyc_dist_def mod_if split: if_splits)

lemma pbs_pick_None:
  assumes "pbs_zero s" "prio_ok s" "start_idx < NPROC"
  shows "pbs_pick start_idx s = None \<longleftrightarrow> (\<forall>j<NPROC. \<not> runnable s j)"
proof -
  obtain m c where mc: "pbs_min s = (m, c)" by fastforce
  note least = pbs_min_least [OF assms(1,2), unfolded mc least_prio_def]
  show ?thesis
  proof (cases "\<exists>j<NPROC. runnable s j")
    case False
    then show ?thesis
      using mc by (auto simp: pbs_pick_def find_upt_None Let_def split: if_splits)
  next
    case True
    then obtain j where j: "j < NPROC" "runnable s j" "p_curr_priority (slot s j) = m" and c: "c = 0"
      using least by auto
    have "m \<noteq> 101" "p_pbs_chances (slot s j) = 0"
      using assms(1,2) j by (auto simp: prio_ok_def pbs_zero_def)
    then have "pbs_pick start_idx s \<noteq> None"
      using mc c j cyc_dist_at [OF assms(3) j(1)] cyc_dist_less [OF assms(3) j(1)]
      by (auto simp: pbs_pick_def find_upt_None Let_def)
    with True show ?thesis by auto
  qed
qed

lemma pbs_pick_Some:
  assumes "pbs_zero s" "prio_ok s" "start_idx < NPROC" "pbs_pick start_idx s = Some p"
  shows "p < NPROC" "runnable s p"
    and "\<And>j. j < NPROC \<Longrightarrow> runnable s j \<Longrightarrow> p_curr_priority (slot s p) \<le> p_curr_priority (slot s j)"
    and "\<And>j. j < NPROC \<Longrightarrow> runnable s j \<Longrightarrow> p_curr_priority (slot s j) = p_curr_priority (slot s p) \<Longrightarrow>
      cyc_dist start_idx p \<le> cyc_dist start_idx j"
proof -
  obtain m c where mc: "pbs_min s = (m, c)" by fastforce
  note least = pbs_min_least [OF assms(1,2), unfolded mc least_prio_def]
  obtain k where k: "k < NPROC" "p = (start_idx + k) mod NPROC" "runnable s p"
    "p_curr_priority (slot s p) = m" "p_pbs_chances (slot s p) = c"
    and before: "\<And>l. l < k \<Longrightarrow> \<not> (runnable s ((start_idx + l) mod NPROC) \<and>
       p_curr_priority (slot s ((start_idx + l) mod NPROC)) = m \<and> p_pbs_chances (slot s ((start_idx + l) mod NPROC)) = c)"
    using assms(4) mc by (auto simp: pbs_pick_def find_upt_Some Let_def split: if_splits)
  have n: "0 < NPROC" by (simp add: NPROC_def)
  show p: "p < NPROC" and "runnable s p" using k n by simp_all
  have "p_pbs_chances (slot s p) = 0" using assms(1) p by (simp add: pbs_zero_def)
  then have c: "c = 0" using k by simp
  then show "p_curr_priority (slot s p) \<le> p_curr_priority (slot s j)" if "j < NPROC" "runnable s j" for j
    using least k(4) that by (auto simp: max_chances_poss_def)
  show "cyc_dist start_idx p \<le> cyc_dist start_idx j"
    if "j < NPROC" "runnable s j" "p_curr_priority (slot s j) = p_curr_priority (slot s p)" for j
  proof (rule ccontr)
    assume "\<not> cyc_dist start_idx p \<le> cyc_dist start_idx j"
    then have "cyc_dist start_idx j < k"
      using at_cyc_dist [OF assms(3) k(1)] k(2) by simp
    from before [OF this] show False
      using cyc_dist_at [OF assms(3) that(1)] that k(4) c assms(1) by (simp add: pbs_zero_def)
  qed
qed

section \<open>Aging\<close>

text \<open>Two states that differ in the table, the queues and the log only.\<close>

definition log_frame :: "'a proc_state_scheme \<Rightarrow> 'a proc_state_scheme \<Rightarrow> bool" where
  "log_frame s s' \<longleftrightarrow> table_frame (s\<lparr>klog := klog s'\<rparr>) s'"

lemma log_frame_refl [simp]: "log_frame s s"
  by (simp add: log_frame_def)

lemma log_frame_trans: "log_frame s s' \<Longrightarrow> log_frame s' s'' \<Longrightarrow> log_frame s s''"
  by (simp add: log_frame_def table_frame_def)

lemma log_frameD:
  assumes "log_frame s s'"
  shows "held s' = held s" "sched_cfg s' = sched_cfg s" "nextpid s' = nextpid s" "cpu_proc s' = cpu_proc s"
    "ticks s' = ticks s" "initproc s' = initproc s" "freelist s' = freelist s" "mem s' = mem s"
  using assms by (simp_all add: log_frame_def table_frame_def)

lemma sched_inv_print [simp]: "sched_inv E (print m s) = sched_inv E s"
  by (rule sched_inv_cong) simp_all

lemma qlist_print [simp]: "qlist (print m s) = qlist s"
  by (rule qlist_cong) simp_all

text \<open>A promotion by one level.\<close>

definition promote :: "proc \<Rightarrow> proc" where
  "promote p = p\<lparr>p_curr_wait_time := 0, p_curr_queue_id := p_curr_queue_id p - 1\<rparr>"

lemma sched_inv_delete:
  assumes "sched_inv {} s" "sched_cfg s = MLFQ" "q < 5" "i \<in> set (qlist s q)"
  shows "delete_process i (int q) s = Ret 1 (set_queue q (remove1 i (qlist s q)) s)"
    and "sched_inv {i} (set_queue q (remove1 i (qlist s q)) s)"
    and "\<And>r. r < 5 \<Longrightarrow> qlist (set_queue q (remove1 i (qlist s q)) s) r =
      (if r = q then remove1 i (qlist s q) else qlist s r)"
    and "i < NPROC" "runnable s i" "p_curr_queue_id (slot s i) = int q"
proof -
  note inv = sched_inv_queues [OF assms(1,2)]
  have sub: "set (qlist s q) \<subseteq> {..<NPROC}"
    using wf_queuesD(4) [OF inv(2) assms(3)] assms(1) by simp
  then show i: "i < NPROC" using assms(4) by auto
  show run: "runnable s i" "p_curr_queue_id (slot s i) = int q"
    using inv(5) [OF assms(3) i] assms(4) by simp_all
  have inj: "inj_on (pid_of s) (set (qlist s q))"
  proof (rule inj_onI)
    fix x y assume "x \<in> set (qlist s q)" "y \<in> set (qlist s q)" "pid_of s x = pid_of s y"
    moreover from this sub have "x < NPROC" "y < NPROC" by auto
    ultimately show "x = y"
      using inv(5) [OF assms(3), of x] inj_on_pid [of s x y] assms(1) by (simp add: sched_inv_def)
  qed
  show "delete_process i (int q) s = Ret 1 (set_queue q (remove1 i (qlist s q)) s)"
    by (rule delete_member [OF inv(2) assms(3,4) inj])
  have len: "length (remove1 i (qlist s q)) \<le> 65"
    using wf_queuesD(3) [OF inv(2) assms(3)] by (auto simp: length_remove1)
  show ql: "qlist (set_queue q (remove1 i (qlist s q)) s) r = (if r = q then remove1 i (qlist s q) else qlist s r)"
    if "r < 5" for r
    using qlist_set_queue [OF inv(2) assms(3) len that] .
  have "set (remove1 i (qlist s q)) \<subseteq> {..<length (ptable s)}"
    using sub assms(1) set_remove1_subset [of i "qlist s q"] by auto
  note wf = wf_set_queue [OF inv(2) assms(3) len this]
  have "pid_inv (set_queue q (remove1 i (qlist s q)) s)"
    using assms(1) by (simp add: sched_inv_def pid_inv_def)
  then show "sched_inv {i} (set_queue q (remove1 i (qlist s q)) s)"
    using inv(3-5) wf ql run unfolding sched_inv_def by (auto simp: set_remove1_eq)
qed

lemma age_one_spec:
  assumes "sched_inv {} s" "sched_cfg s = MLFQ" "0 < i" "i < 5" "j < length (qlist s i)"
  defines "x \<equiv> qlist s i ! j"
  shows "if p_curr_wait_time (slot s x) > patience_threshold ! i
    then \<exists>s'. age_one i j s = Ret () s' \<and> sched_inv {} s' \<and> log_frame s s' \<and>
      ptable s' = (ptable s)[x := promote (slot s x)] \<and>
      (\<forall>r<5. qlist s' r = (if r = i then remove1 x (qlist s i)
         else if r = i - 1 then qlist s (i - 1) @ [x] else qlist s r))
    else age_one i j s = Ret () s"
proof -
  note inv = sched_inv_queues [OF assms(1,2)]
  have mem: "x \<in> set (qlist s i)" using assms(5) by (simp add: x_def)
  have "queue_ptr s ! i = row_of (qlist s i)" "length (qlist s i) \<le> 65"
    using wf_queuesD [OF inv(2) assms(4)] by simp_all
  then have ptr: "queue_ptr s ! i ! j = Some x"
    using assms(5) by (simp add: nth_row_of x_def)
  note del = sched_inv_delete [OF assms(1,2,4) mem]
  let ?d = "set_queue i (remove1 x (qlist s i)) s"
  let ?f = "\<lambda>r. r\<lparr>p_curr_wait_time := 0\<rparr>"
  let ?p = "upd_proc x ?f (print (MsgPromote (ticks s) (pid_of s x) (int i - 1)) ?d)"
  have len: "x < length (ptable s)" using del(4) assms(1) by simp
  have inv': "sched_inv {x} ?p"
    using del(2,4) inv(3) assms(2) by (intro sched_inv_upd) simp_all
  have slot: "slot ?p x = ?f (slot s x)" using len by simp
  have i1: "int (i - 1) = int i - 1" "i - 1 < 5" "i - 1 \<noteq> i" using assms(3,4) by simp_all
  note push = sched_inv_push [OF inv' del(4) _ _ _ i1(2)]
  let ?g = "\<lambda>r. r\<lparr>p_curr_queue_id := int (i - 1)\<rparr>"
  let ?u = "upd_proc x ?g (set_queue (i - 1) (qlist s (i - 1) @ [x]) ?p)"
  have q1: "qlist ?p (i - 1) = qlist s (i - 1)"
    using del(3) [of "i - 1"] i1 by simp
  have "push_back_process x (int i - 1) ?p = Ret 1 ?u"
    using push(1) slot del(5) assms(2) q1 i1(1) by simp
  then have "age_one i j s = Ret () ?u" if "p_curr_wait_time (slot s x) > patience_threshold ! i"
    using ptr del(1) that by (simp add: age_one_def)
  moreover have "sched_inv {} ?u"
    using push(2) [of ?g] slot del(5) assms(2) q1 by simp
  moreover have "log_frame s ?u"
    by (simp add: log_frame_def) (simp add: table_frame_def print_def set_queue_def)
  moreover have "ptable ?u = (ptable s)[x := promote (slot s x)]"
    using len del(6) i1(1) by (simp add: promote_def)
  moreover have "qlist ?u r = (if r = i then remove1 x (qlist s i)
      else if r = i - 1 then qlist s (i - 1) @ [x] else qlist s r)" if "r < 5" for r
    using push(3) [OF _ _ _ that] slot del(3) [OF that] del(5) assms(2) i1(3) q1 by auto
  moreover have "age_one i j s = Ret () s" if "\<not> p_curr_wait_time (slot s x) > patience_threshold ! i"
    using ptr that by (simp add: age_one_def)
  ultimately show ?thesis by auto
qed
text \<open>
  What the aging loops maintain, relative to the state \<open>s0\<close> at their start: every slot is as it
  was or promoted once, after waiting longer than the threshold of its queue, and the processes at
  level \<open>i\<close> and above (the queues still to be scanned) are as they were.
\<close>

definition aged :: "proc \<Rightarrow> proc \<Rightarrow> bool" where
  "aged p p' \<longleftrightarrow> p' = p \<or>
     (p_state p = RUNNABLE \<and> 0 < p_curr_queue_id p \<and>
      patience_threshold ! nat (p_curr_queue_id p) < p_curr_wait_time p \<and> p' = promote p)"

definition age_inv :: "nat \<Rightarrow> 'a proc_state_scheme \<Rightarrow> 'a proc_state_scheme \<Rightarrow> bool" where
  "age_inv i s0 s \<longleftrightarrow> sched_inv {} s \<and> sched_cfg s = MLFQ \<and> log_frame s0 s \<and>
     (\<forall>x<NPROC. aged (slot s0 x) (slot s x)) \<and>
     (\<forall>x<NPROC. int i \<le> p_curr_queue_id (slot s x) \<longrightarrow> slot s x = slot s0 x)"

lemma age_one_inv:
  assumes "age_inv i s0 s" "0 < i" "i < 5" "j < length (qlist s i)"
  shows "\<exists>s'. age_one i j s = Ret () s' \<and> age_inv i s0 s'"
proof -
  have inv: "sched_inv {} s" "sched_cfg s = MLFQ" "log_frame s0 s"
    using assms(1) by (auto simp: age_inv_def)
  let ?x = "qlist s i ! j"
  note one = age_one_spec [OF inv(1,2) assms(2-4)]
  have x: "?x < NPROC" "runnable s ?x" "p_curr_queue_id (slot s ?x) = int i"
    using sched_inv_delete(4-6) [OF inv(1,2) assms(3), of ?x] assms(4) by simp_all
  have same: "slot s ?x = slot s0 ?x"
    using assms(1) x by (simp add: age_inv_def)
  show ?thesis
  proof (cases "p_curr_wait_time (slot s ?x) > patience_threshold ! i")
    case True
    with one obtain s' where s': "age_one i j s = Ret () s'" "sched_inv {} s'" "log_frame s s'"
      "ptable s' = (ptable s)[?x := promote (slot s ?x)]" by auto
    have slot: "slot s' y = (if y = ?x then promote (slot s ?x) else slot s y)" for y
      using s'(4) x(1) inv(1) by (simp add: nth_list_update)
    have "aged (slot s ?x) (promote (slot s ?x))"
      using True x assms(2) by (simp add: aged_def)
    then have "aged (slot s0 y) (slot s' y)" if "y < NPROC" for y
      using assms(1) that unfolding slot same age_inv_def by simp
    moreover have "p_curr_queue_id (promote (slot s ?x)) = int i - 1"
      using x(3) by (simp add: promote_def)
    then have "slot s' y = slot s0 y" if "y < NPROC" "int i \<le> p_curr_queue_id (slot s' y)" for y
      using assms(1) that unfolding slot age_inv_def by (simp split: if_splits)
    moreover have "sched_cfg s' = MLFQ" using inv(2) log_frameD(2) [OF s'(3)] by simp
    ultimately have "age_inv i s0 s'"
      using s'(2) log_frame_trans [OF inv(3) s'(3)] unfolding age_inv_def by simp
    with s'(1) show ?thesis by auto
  next
    case False
    with one assms(1) show ?thesis by auto
  qed
qed

lemma age_queue_inv:
  assumes "age_inv i s0 s" "0 < i" "i < 5"
  shows "\<exists>s'. age_queue i j s = Ret () s' \<and> age_inv i s0 s'"
  using assms(1)
proof (induction "65 - j" arbitrary: j s rule: less_induct)
  case less
  have inv: "sched_inv {} s" "sched_cfg s = MLFQ"
    using less.prems by (auto simp: age_inv_def)
  have "q_latest_idx s ! i = int (length (qlist s i)) - 1" "length (qlist s i) \<le> 65"
    using wf_queuesD [OF sched_inv_queues(2) [OF inv] assms(3)] by simp_all
  then have test: "int j \<le> q_latest_idx s ! i \<longleftrightarrow> j < length (qlist s i)" and len: "length (qlist s i) \<le> 65"
    by auto
  show ?case
  proof (cases "j < length (qlist s i)")
    case True
    obtain t where t: "age_one i j s = Ret () t" "age_inv i s0 t"
      using age_one_inv [OF less.prems assms(2,3) True] by blast
    have "65 - (j + 1) < 65 - j" using True len by simp
    from less.hyps [OF this t(2)] t(1) show ?thesis
      using True len by (simp add: age_queue.simps [of i j s] test)
  next
    case False
    then show ?thesis
      using less.prems by (simp add: age_queue.simps [of i j s] test)
  qed
qed

lemma mlfq_age_spec:
  assumes "sched_inv {} s" "sched_cfg s = MLFQ"
  shows "\<exists>s'. mlfq_age s = Ret () s' \<and> sched_inv {} s' \<and> log_frame s s' \<and>
    (\<forall>x<NPROC. aged (slot s x) (slot s' x))"
proof -
  have start: "age_inv 1 s s"
    using assms by (simp add: age_inv_def aged_def)
  have mono: "age_inv i s t \<Longrightarrow> age_inv (Suc i) s t" for i t
    by (auto simp: age_inv_def)
  obtain t1 where 1: "age_queue 1 0 s = Ret () t1" "age_inv 1 s t1"
    using age_queue_inv [OF start, of 0] by auto
  obtain t2 where 2: "age_queue 2 0 t1 = Ret () t2" "age_inv 2 s t2"
    using age_queue_inv [OF mono [OF 1(2)], of 0] by (auto simp: numeral_2_eq_2)
  obtain t3 where 3: "age_queue 3 0 t2 = Ret () t3" "age_inv 3 s t3"
    using age_queue_inv [OF mono [OF 2(2)], of 0] by (auto simp: numeral_3_eq_3 numeral_2_eq_2)
  obtain t4 where 4: "age_queue 4 0 t3 = Ret () t4" "age_inv 4 s t4"
    using age_queue_inv [OF mono [OF 3(2)], of 0] by auto
  have "[1..<5] = [1, 2, 3, 4::nat]"
    by (simp add: upt_rec)
  then have "mlfq_age s = Ret () t4"
    using 1(1) 2(1) 3(1) 4(1) by (simp add: mlfq_age_def)
  with 4(2) show ?thesis by (auto simp: age_inv_def)
qed

section \<open>Passes of the scheduler\<close>

text \<open>
  The invariant between kernel entries: the table and queue invariants, the priorities in range
  and all \<open>pbs_chances\<close> zero, every process that can run has a kernel stack and a page table, and
  the running process is the one of the CPU.
\<close>

definition proc_ok :: "proc \<Rightarrow> bool" where
  "proc_ok p \<longleftrightarrow> p_pbs_chances p = 0 \<and> -1 \<le> p_curr_priority p \<and> p_curr_priority p \<le> 100 \<and>
     (p_state p \<in> {SLEEPING, RUNNABLE, RUNNING} \<longrightarrow> p_kstack p \<noteq> 0 \<and> p_pgdir p \<noteq> 0)"

definition table_ok :: "'a proc_state_scheme \<Rightarrow> bool" where
  "table_ok s \<longleftrightarrow> (\<forall>i<NPROC. proc_ok (slot s i))"

definition cpu_ok :: "'a proc_state_scheme \<Rightarrow> bool" where
  "cpu_ok s \<longleftrightarrow> (\<forall>i. cpu_proc s = Some i \<longrightarrow> i < NPROC) \<and>
     (\<forall>i<NPROC. p_state (slot s i) = RUNNING \<longleftrightarrow> cpu_proc s = Some i)"

definition kinv :: "'a proc_state_scheme \<Rightarrow> bool" where
  "kinv s \<longleftrightarrow> sched_inv {} s \<and> table_ok s \<and> cpu_ok s"

lemma kinvD:
  assumes "kinv s"
  shows "sched_inv {} s" "table_ok s" "cpu_ok s" "length (ptable s) = NPROC"
  using assms by (auto simp: kinv_def)

lemma table_okD: "table_ok s \<Longrightarrow> pbs_zero s" "table_ok s \<Longrightarrow> prio_ok s"
  by (auto simp: table_ok_def pbs_zero_def prio_ok_def proc_ok_def)

lemma kinv_cong:
  assumes "ptable s' = ptable s" "nextpid s' = nextpid s" "sched_cfg s' = sched_cfg s"
    "queue_ptr s' = queue_ptr s" "q_latest_idx s' = q_latest_idx s" "cpu_proc s' = cpu_proc s"
  shows "kinv s' = kinv s"
  using assms sched_inv_cong [OF assms(1-5), of "{}"] by (simp add: kinv_def table_ok_def cpu_ok_def)

lemma kinv_simps [simp]: "kinv (s\<lparr>held := h\<rparr>) = kinv s"
  by (rule kinv_cong) simp_all

lemma sched_inv_other: "sched_cfg s \<noteq> MLFQ \<Longrightarrow> sched_inv E s = sched_inv E' s"
  by (simp add: sched_inv_def)

text \<open>Dispatching a runnable process that has been taken out of its queue.\<close>

definition keeps_identity :: "(proc \<Rightarrow> proc) \<Rightarrow> bool" where
  "keeps_identity f \<longleftrightarrow> (\<forall>r. p_pid (f r) = p_pid r \<and> p_curr_queue_id (f r) = p_curr_queue_id r \<and>
     p_kstack (f r) = p_kstack r \<and> p_pgdir (f r) = p_pgdir r \<and> p_curr_priority (f r) = p_curr_priority r \<and>
     p_pbs_chances (f r) = p_pbs_chances r)"

lemma dispatch_kinv:
  assumes "sched_inv {p} s" "table_ok s" "p < NPROC" "runnable s p" "\<And>i. i < NPROC \<Longrightarrow> p_state (slot s i) \<noteq> RUNNING"
    and "keeps_identity f" "\<And>r. p_state (f r) = RUNNING"
  shows "kinv (upd_proc p f (s\<lparr>cpu_proc := Some p\<rparr>))"
proof -
  let ?s = "upd_proc p f s"
  have len: "length (ptable s) = NPROC" using assms(1) by simp
  have slot: "slot ?s i = (if i = p then f (slot s p) else slot s i)" for i
    using len assms(3) by (simp add: nth_list_update)
  have inv: "sched_inv {p} ?s"
    using assms(3,4,6,7) sched_inv_queues(3) [OF assms(1) _ assms(3)]
    by (intro sched_inv_upd [OF assms(1)]) (simp_all add: keeps_identity_def)
  have "sched_inv {} ?s"
    using sched_inv_exempt(2) [OF inv, of p] assms(7) slot by simp
  moreover have "table_ok ?s"
    using assms(2,4,6,7) unfolding table_ok_def slot by (auto simp: proc_ok_def keeps_identity_def)
  moreover have "cpu_ok (?s\<lparr>cpu_proc := Some p\<rparr>)"
    using assms(3,5,7) slot by (auto simp: cpu_ok_def)
  moreover have "upd_proc p f (s\<lparr>cpu_proc := Some p\<rparr>) = ?s\<lparr>cpu_proc := Some p\<rparr>"
    by (simp add: upd_proc_def)
  moreover have "sched_inv {} (?s\<lparr>cpu_proc := Some p\<rparr>) = sched_inv {} ?s"
    by (rule sched_inv_cong) simp_all
  ultimately show ?thesis by (simp add: kinv_def table_ok_def)
qed

text \<open>What a pass that chose \<open>p\<close> leaves behind.\<close>

definition dispatched :: "nat \<Rightarrow> 'a proc_state_scheme \<Rightarrow> bool" where
  "dispatched p s \<longleftrightarrow> kinv s \<and> held s = [LkPtable] \<and> cpu_proc s = Some p \<and>
     cr3 s = V2P (p_pgdir (slot s p)) \<and> ts_esp0 s = p_kstack (slot s p) + 4096 \<and> p_curr_wait_time (slot s p) = 0"

lemma kinv_hw: "kinv (s\<lparr>ts_esp0 := a, cr3 := b\<rparr>) = kinv s"
  by (rule kinv_cong) simp_all

lemma upd_proc_hw: "upd_proc p f (s\<lparr>ts_esp0 := a, cr3 := b\<rparr>) = (upd_proc p f s)\<lparr>ts_esp0 := a, cr3 := b\<rparr>"
  by (simp add: upd_proc_def)

lemma rr_dispatch_ok:
  assumes "sched_inv {p} s" "table_ok s" "p < NPROC" "runnable s p" "\<And>i. i < NPROC \<Longrightarrow> p_state (slot s i) \<noteq> RUNNING"
    and "held s = [LkPtable]"
  shows "\<exists>s'. rr_dispatch p s = Ret (Some p) s' \<and> dispatched p s'"
    and "\<exists>s'. pbs_dispatch p s = Ret (Some p) s' \<and> dispatched p s'"
    and "\<exists>s'. mlfq_dispatch p s = Ret (Some p) s' \<and> dispatched p s'"
proof -
  have ok: "p_kstack (slot s p) \<noteq> 0" "p_pgdir (slot s p) \<noteq> 0"
    using assms(2,3,4) by (auto simp: table_ok_def proc_ok_def)
  have len: "p < length (ptable s)" using assms(1,3) by simp
  let ?hw = "\<lambda>t. t\<lparr>ts_esp0 := p_kstack (slot s p) + 4096, cr3 := V2P (p_pgdir (slot s p))\<rparr>"
  let ?f = "\<lambda>r. r\<lparr>p_state := RUNNING, p_curr_wait_time := 0, p_num_times_scheduled := int_wrap (p_num_times_scheduled r + 1)\<rparr>"
  let ?g = "\<lambda>r. r\<lparr>p_state := RUNNING, p_curr_wait_time := 0\<rparr>"
  let ?h = "\<lambda>r. r\<lparr>p_curr_ticks_got := 0, p_num_times_scheduled := int_wrap (p_num_times_scheduled r + 1),
     p_state := RUNNING, p_curr_wait_time := 0\<rparr>"
  have "kinv (upd_proc p ?f (s\<lparr>cpu_proc := Some p\<rparr>))" "kinv (upd_proc p ?g (s\<lparr>cpu_proc := Some p\<rparr>))"
    "kinv (upd_proc p ?h (s\<lparr>cpu_proc := Some p\<rparr>))"
    by (rule dispatch_kinv [OF assms(1-5)]; simp add: keeps_identity_def)+
  then have d: "dispatched p (?hw (upd_proc p ?f (s\<lparr>cpu_proc := Some p\<rparr>)))"
    "dispatched p (?hw (upd_proc p ?g (s\<lparr>cpu_proc := Some p\<rparr>)))"
    "dispatched p (?hw (upd_proc p ?h (s\<lparr>cpu_proc := Some p\<rparr>)))"
    using assms(6) len by (simp_all add: dispatched_def kinv_hw)
  show "\<exists>s'. rr_dispatch p s = Ret (Some p) s' \<and> dispatched p s'"
    using d(1) ok by (simp add: rr_dispatch_def switchuvm_def KSTACKSIZE_def upd_proc_hw)
  show "\<exists>s'. pbs_dispatch p s = Ret (Some p) s' \<and> dispatched p s'"
    using d(2) ok by (simp add: pbs_dispatch_def switchuvm_def KSTACKSIZE_def upd_proc_hw)
  have "upd_proc p ?h (s\<lparr>cpu_proc := Some p\<rparr>) = upd_proc p ?g
      ((upd_proc p (\<lambda>r. r\<lparr>p_curr_ticks_got := 0, p_num_times_scheduled := int_wrap (p_num_times_scheduled r + 1)\<rparr>) s)\<lparr>cpu_proc := Some p\<rparr>)"
    using len by (simp add: upd_proc_def)
  then show "\<exists>s'. mlfq_dispatch p s = Ret (Some p) s' \<and> dispatched p s'"
    using d(3) ok len by (simp add: mlfq_dispatch_def switchuvm_def KSTACKSIZE_def upd_proc_hw)
qed

definition idle :: "'a proc_state_scheme \<Rightarrow> bool" where
  "idle s \<longleftrightarrow> kinv s \<and> held s = [] \<and> cpu_proc s = None"

definition top_result :: "'a proc_state_scheme \<Rightarrow> nat option \<Rightarrow> 'a proc_state_scheme \<Rightarrow> bool" where
  "top_result s r s' \<longleftrightarrow>
     (case r of
        None \<Rightarrow> idle s' \<and> (\<forall>j<NPROC. \<not> runnable s j)
      | Some p \<Rightarrow> dispatched p s' \<and> p < NPROC \<and> runnable s p)"

lemma idle_not_running: "idle s \<Longrightarrow> i < NPROC \<Longrightarrow> p_state (slot s i) \<noteq> RUNNING"
  by (auto simp: idle_def kinv_def cpu_ok_def)

lemma rr_scan_spec:
  assumes "kinv s" "held s = [LkPtable]" "cpu_proc s = None" "sched_cfg s \<noteq> MLFQ"
  shows "\<exists>r s'. rr_scan i s = Ret r s' \<and>
    (case r of
       None \<Rightarrow> idle s' \<and> (\<forall>j<NPROC. i \<le> j \<longrightarrow> \<not> runnable s j)
     | Some p \<Rightarrow> dispatched p s' \<and> p < NPROC \<and> runnable s p \<and> i \<le> p \<and> (\<forall>j<p. i \<le> j \<longrightarrow> \<not> runnable s j))"
proof (cases "find (runnable s) [i..<NPROC]")
  case None
  then have "\<forall>j<NPROC. i \<le> j \<longrightarrow> \<not> runnable s j" by (auto simp: find_None_iff)
  moreover have "idle (s\<lparr>held := []\<rparr>)" using assms(1,3) by (simp add: idle_def)
  ultimately show ?thesis using None assms(2) by (simp add: rr_scan_def)
next
  case (Some p)
  then have p: "i \<le> p" "p < NPROC" "runnable s p" "\<forall>j. i \<le> j \<and> j < p \<longrightarrow> \<not> runnable s j"
    by (auto simp: find_from_Some)
  have "sched_inv {p} s" using kinvD(1) [OF assms(1)] sched_inv_other [OF assms(4)] by blast
  moreover have "p_state (slot s j) \<noteq> RUNNING" if "j < NPROC" for j
    using kinvD(3) [OF assms(1)] assms(3) that by (simp add: cpu_ok_def)
  ultimately obtain s' where "rr_dispatch p s = Ret (Some p) s'" "dispatched p s'"
    using rr_dispatch_ok(1) [OF _ kinvD(2) [OF assms(1)] p(2,3) _ assms(2)] by blast
  with Some p show ?thesis by (simp add: rr_scan_def)
qed

lemma rr_top_spec:
  assumes "idle s" "sched_cfg s = RR"
  shows "\<exists>r s'. rr_top s = Ret r s' \<and> top_result s r s'"
proof -
  let ?s = "s\<lparr>held := [LkPtable]\<rparr>"
  obtain r s' where "rr_scan 0 ?s = Ret r s'" "case r of
       None \<Rightarrow> idle s' \<and> (\<forall>j<NPROC. 0 \<le> j \<longrightarrow> \<not> runnable ?s j)
     | Some p \<Rightarrow> dispatched p s' \<and> p < NPROC \<and> runnable ?s p \<and> 0 \<le> p \<and> (\<forall>j<p. 0 \<le> j \<longrightarrow> \<not> runnable ?s j)"
    using rr_scan_spec [of ?s 0] assms by (auto simp: idle_def)
  moreover from this have "top_result s r s'"
    by (cases r) (simp_all add: top_result_def)
  ultimately show ?thesis using assms by (simp add: rr_top_def idle_def)
qed

lemma select_top:
  assumes "idle s" "sched_cfg s \<noteq> MLFQ" "p < NPROC" "runnable s p"
  shows "\<exists>s'. rr_dispatch p (s\<lparr>held := [LkPtable]\<rparr>) = Ret (Some p) s' \<and> dispatched p s'"
    and "\<exists>s'. pbs_dispatch p (s\<lparr>held := [LkPtable]\<rparr>) = Ret (Some p) s' \<and> dispatched p s'"
proof -
  have inv: "sched_inv {} s" "table_ok s" using assms(1) by (auto simp: idle_def kinv_def)
  then have "sched_inv {p} s" using sched_inv_other [OF assms(2)] by blast
  then have "sched_inv {p} (s\<lparr>held := [LkPtable]\<rparr>)" "table_ok (s\<lparr>held := [LkPtable]\<rparr>)"
    using inv(2) by (simp_all add: table_ok_def)
  note d = rr_dispatch_ok [OF this assms(3)]
  show "\<exists>s'. rr_dispatch p (s\<lparr>held := [LkPtable]\<rparr>) = Ret (Some p) s' \<and> dispatched p s'"
    using assms(4) idle_not_running [OF assms(1)] by (intro d(1)) simp_all
  show "\<exists>s'. pbs_dispatch p (s\<lparr>held := [LkPtable]\<rparr>) = Ret (Some p) s' \<and> dispatched p s'"
    using assms(4) idle_not_running [OF assms(1)] by (intro d(2)) simp_all
qed

lemma oldest_of_held [simp]: "oldest_of (s\<lparr>held := h\<rparr>) = oldest_of s"
  by (simp add: oldest_of_def cong: if_cong option.case_cong)

lemma pbs_pick_held [simp]: "pbs_pick start_idx (s\<lparr>held := h\<rparr>) = pbs_pick start_idx s"
proof -
  have "pbs_min_step (s\<lparr>held := h\<rparr>) = pbs_min_step s"
    by (intro ext) (simp add: pbs_min_step_def)
  then show ?thesis by (simp add: pbs_pick_def pbs_min_def split_beta Let_def cong: if_cong)
qed

lemma fcfs_top_spec:
  assumes "idle s" "sched_cfg s = FCFS"
  shows "\<exists>s'. fcfs_top s = Ret (oldest_of s) s' \<and> top_result s (oldest_of s) s'"
proof (cases "oldest_of s")
  case None
  with oldest_of_earliest [of s] assms show ?thesis
    by (auto simp: fcfs_top_def idle_def top_result_def earliest_def)
next
  case (Some p)
  with oldest_of_earliest [of s] have "p < NPROC" "runnable s p" by (auto simp: earliest_def)
  with select_top(1) [OF assms(1) _ this] Some assms show ?thesis
    by (auto simp: fcfs_top_def idle_def top_result_def)
qed

lemma pbs_top_spec:
  assumes "idle s" "sched_cfg s = PBS" "start_idx < NPROC"
  shows "\<exists>s'. pbs_top start_idx s = Ret (pbs_pick start_idx s) s' \<and> top_result s (pbs_pick start_idx s) s'"
proof -
  have ok: "pbs_zero s" "prio_ok s" using assms(1) by (auto simp: idle_def kinv_def table_okD)
  show ?thesis
  proof (cases "pbs_pick start_idx s")
    case None
    with pbs_pick_None [OF ok assms(3)] assms show ?thesis
      by (auto simp: pbs_top_def idle_def top_result_def)
  next
    case (Some p)
    note p = pbs_pick_Some(1,2) [OF ok assms(3) Some]
    with select_top(2) [OF assms(1) _ p] Some assms show ?thesis
      by (auto simp: pbs_top_def idle_def top_result_def)
  qed
qed

lemma aged_simps:
  assumes "aged p p'"
  shows "p_state p' = p_state p" "p_pid p' = p_pid p" "p_kstack p' = p_kstack p" "p_pgdir p' = p_pgdir p"
    "p_curr_priority p' = p_curr_priority p" "p_pbs_chances p' = p_pbs_chances p" "p_curr_queue_id p' \<le> p_curr_queue_id p"
  using assms by (auto simp: aged_def promote_def)

lemma queue_test:
  assumes "sched_inv E s" "sched_cfg s = MLFQ" "q < 5"
  shows "q_latest_idx s ! q \<ge> 0 \<longleftrightarrow> qlist s q \<noteq> []"
    and "qlist s q \<noteq> [] \<Longrightarrow> queue_ptr s ! q ! 0 = Some (hd (qlist s q))"
  using wf_queuesD [OF sched_inv_queues(2) [OF assms(1,2)] assms(3)]
  by (auto simp: nth_row_of hd_conv_nth Suc_le_eq)

text \<open>The process a pass of the MLFQ scheduler chooses, in the state after aging.\<close>

definition mlfq_choice :: "'a proc_state_scheme \<Rightarrow> nat option" where
  "mlfq_choice s = map_option (\<lambda>q. hd (qlist s q)) (find (\<lambda>q. qlist s q \<noteq> []) [0..<5])"

lemma mlfq_choice_None:
  assumes "sched_inv {} s" "sched_cfg s = MLFQ"
  shows "mlfq_choice s = None \<longleftrightarrow> (\<forall>j<NPROC. \<not> runnable s j)"
proof
  assume none: "mlfq_choice s = None"
  show "\<forall>j<NPROC. \<not> runnable s j"
  proof (intro allI impI)
    fix j assume j: "j < NPROC"
    obtain q where q: "q < 5" "p_curr_queue_id (slot s j) = int q"
      by (rule sched_inv_level [OF assms j])
    with none have "qlist s q = []" by (auto simp: mlfq_choice_def find_upt_None)
    with sched_inv_queues(5) [OF assms q(1) j] q(2) show "\<not> runnable s j" by simp
  qed
next
  assume none: "\<forall>j<NPROC. \<not> runnable s j"
  have "qlist s q = []" if "q < 5" for q
  proof (rule ccontr)
    assume "qlist s q \<noteq> []"
    from sched_inv_delete(4,5) [OF assms that hd_in_set [OF this]] none show False by blast
  qed
  then show "mlfq_choice s = None" by (simp add: mlfq_choice_def find_upt_None)
qed

lemma mlfq_choice_Some:
  assumes "sched_inv {} s" "sched_cfg s = MLFQ" "mlfq_choice s = Some p"
  shows "p < NPROC" "runnable s p" "p = hd (qlist s (nat (p_curr_queue_id (slot s p))))"
    and "\<And>j. j < NPROC \<Longrightarrow> runnable s j \<Longrightarrow> p_curr_queue_id (slot s p) \<le> p_curr_queue_id (slot s j)"
proof -
  obtain q where q: "q < 5" "qlist s q \<noteq> []" "p = hd (qlist s q)" and low: "\<And>r. r < q \<Longrightarrow> qlist s r = []"
    using assms(3) by (auto simp: mlfq_choice_def find_upt_Some)
  have "p \<in> set (qlist s q)" using q by simp
  note p = sched_inv_delete(4-6) [OF assms(1,2) q(1) this]
  show "p < NPROC" "runnable s p" by (rule p(1), rule p(2))
  show "p = hd (qlist s (nat (p_curr_queue_id (slot s p))))" using q(3) p(3) by simp
  fix j assume j: "j < NPROC" "runnable s j"
  obtain r where r: "r < 5" "p_curr_queue_id (slot s j) = int r"
    by (rule sched_inv_level [OF assms(1,2) j(1)])
  then have "qlist s r \<noteq> []" using sched_inv_queues(5) [OF assms(1,2) r(1) j(1)] j(2) by auto
  then have "\<not> r < q" using low by auto
  with p(3) r(2) show "p_curr_queue_id (slot s p) \<le> p_curr_queue_id (slot s j)" by simp
qed

lemma mlfq_pick:
  assumes "sched_inv {} t" "sched_cfg t = MLFQ" "table_ok t" "held t = [LkPtable]"
    and "\<And>i. i < NPROC \<Longrightarrow> p_state (slot t i) \<noteq> RUNNING" "mlfq_choice t = Some p"
  obtains i t' s' where "find (\<lambda>i. q_latest_idx t ! i \<ge> 0) [0..<5] = Some i" "queue_ptr t ! i ! 0 = Some p"
    "delete_process p (int i) t = Ret 1 t'" "p_state (slot t' p) = RUNNABLE"
    "mlfq_dispatch p t' = Ret (Some p) s'" "dispatched p s'"
proof -
  obtain i where i: "i < 5" "qlist t i \<noteq> []" "p = hd (qlist t i)" "\<And>r. r < i \<Longrightarrow> qlist t r = []"
    using assms(6) by (auto simp: mlfq_choice_def find_upt_Some)
  have "find (\<lambda>i. q_latest_idx t ! i \<ge> 0) [0..<5] = Some i"
    using i queue_test(1) [OF assms(1,2)] by (simp add: find_upt_Some)
  moreover have "queue_ptr t ! i ! 0 = Some p"
    using queue_test(2) [OF assms(1,2) i(1,2)] i(3) by simp
  moreover have mem: "p \<in> set (qlist t i)" using i by simp
  note del = sched_inv_delete [OF assms(1,2) i(1) mem]
  moreover obtain s' where "mlfq_dispatch p (set_queue i (remove1 p (qlist t i)) t) = Ret (Some p) s'" "dispatched p s'"
    using rr_dispatch_ok(3) [OF del(2) _ del(4)] assms(3-5) del(5) by (auto simp: table_ok_def)
  ultimately show thesis by (intro that) simp_all
qed

lemma mlfq_top_spec:
  assumes "idle s" "sched_cfg s = MLFQ"
  shows "\<exists>t s'. mlfq_age (s\<lparr>held := [LkPtable]\<rparr>) = Ret () t \<and> sched_inv {} t \<and> sched_cfg t = MLFQ \<and>
    (\<forall>x<NPROC. aged (slot s x) (slot t x)) \<and>
    mlfq_top s = Ret (mlfq_choice t) s' \<and> top_result s (mlfq_choice t) s'"
proof -
  let ?s = "s\<lparr>held := [LkPtable]\<rparr>"
  have inv: "sched_inv {} ?s" "sched_cfg ?s = MLFQ" "table_ok s"
    using assms by (simp_all add: idle_def kinv_def)
  obtain t where t: "mlfq_age ?s = Ret () t" "sched_inv {} t" "log_frame ?s t"
    "\<And>x. x < NPROC \<Longrightarrow> aged (slot s x) (slot t x)"
    using mlfq_age_spec [OF inv(1,2)] by auto
  note same = aged_simps [OF t(4)]
  have cfg: "sched_cfg t = MLFQ" and held: "held t = [LkPtable]" and cpu: "cpu_proc t = None"
    using log_frameD [OF t(3)] assms by (simp_all add: idle_def)
  have ok: "table_ok t" and norun: "\<And>i. i < NPROC \<Longrightarrow> p_state (slot t i) \<noteq> RUNNING"
    using inv(3) same idle_not_running [OF assms(1)] by (simp_all add: table_ok_def proc_ok_def)
  have top: "mlfq_top s = (case find (\<lambda>i. q_latest_idx t ! i \<ge> 0) [0..<5] of
       None \<Rightarrow> kbind (release LkPtable t) (\<lambda>_ s. Ret None s)
     | Some i \<Rightarrow>
         (case queue_ptr t ! i ! 0 of
            None \<Rightarrow> Fault
          | Some p \<Rightarrow>
              kbind (delete_process p (int i) t) (\<lambda>_ s.
              if p_state (slot s p) = RUNNABLE then mlfq_dispatch p s
              else kbind (release LkPtable s) (\<lambda>_ s. Ret None s))))"
    using t(1) assms(1) by (simp add: mlfq_top_def idle_def)
  have "\<exists>s'. mlfq_top s = Ret (mlfq_choice t) s' \<and> top_result s (mlfq_choice t) s'"
  proof (cases "mlfq_choice t")
    case None
    then have none: "\<And>j. j < NPROC \<Longrightarrow> \<not> runnable s j"
      using mlfq_choice_None [OF t(2) cfg] same(1) by simp
    have "find (\<lambda>i. q_latest_idx t ! i \<ge> 0) [0..<5] = None"
      using None queue_test(1) [OF t(2) cfg] by (simp add: mlfq_choice_def find_upt_None)
    moreover have "kinv t"
      using t(2) ok norun cpu by (simp add: kinv_def cpu_ok_def)
    then have "idle (t\<lparr>held := []\<rparr>)"
      using cpu by (simp add: idle_def)
    ultimately show ?thesis using None held none top by (simp add: top_result_def)
  next
    case (Some p)
    have p: "p < NPROC" "runnable s p"
      using mlfq_choice_Some(1,2) [OF t(2) cfg Some] same(1) by auto
    show ?thesis
      by (rule mlfq_pick [OF t(2) cfg ok held norun Some])
        (use p top Some in \<open>simp_all add: top_result_def\<close>)
  qed
  with t(1,2,4) cfg show ?thesis by blast
qed

text \<open>What the second half does to the process that came back.\<close>

definition demoted :: "proc \<Rightarrow> proc" where
  "demoted p =
     (if p_should_demote p = 1
      then p\<lparr>p_should_demote := 0, p_curr_ticks_got := 0, p_curr_wait_time := 0,
        p_curr_queue_id := if p_curr_queue_id p < 4 then p_curr_queue_id p + 1 else p_curr_queue_id p\<rparr>
      else p)"

definition returning :: "nat \<Rightarrow> 'a proc_state_scheme \<Rightarrow> bool" where
  "returning p s \<longleftrightarrow> sched_inv {p} s \<and> table_ok s \<and> held s = [LkPtable] \<and> p < NPROC \<and>
     cpu_proc s = Some p \<and> (\<forall>i<NPROC. p_state (slot s i) \<noteq> RUNNING)"

lemma mlfq_demote_spec:
  assumes "p < length (ptable s)"
  shows "ptable (mlfq_demote p s) = (ptable s)[p := demoted (slot s p)]" "log_frame s (mlfq_demote p s)"
    "queue_ptr (mlfq_demote p s) = queue_ptr s" "q_latest_idx (mlfq_demote p s) = q_latest_idx s"
  using assms
  by (auto simp: mlfq_demote_def demoted_def Let_def log_frame_def list_update_self)
    (simp_all add: table_frame_def print_def upd_proc_def)

lemma table_ok_upd:
  "table_ok s \<Longrightarrow> length (ptable s) = NPROC \<Longrightarrow> p < NPROC \<Longrightarrow> ptable s' = (ptable s)[p := r] \<Longrightarrow> proc_ok r \<Longrightarrow> table_ok s'"
  by (simp add: table_ok_def nth_list_update)

lemma demoted_simps:
  "p_state (demoted p) = p_state p" "p_pid (demoted p) = p_pid p" "proc_ok (demoted p) = proc_ok p"
  "0 \<le> p_curr_queue_id p \<Longrightarrow> 0 \<le> p_curr_queue_id (demoted p)"
  "p_curr_queue_id p < 5 \<Longrightarrow> p_curr_queue_id (demoted p) < 5"
  by (simp_all add: demoted_def proc_ok_def)

lemma idleI:
  assumes "sched_inv {} s" "table_ok s" "\<And>i. i < NPROC \<Longrightarrow> p_state (slot s i) \<noteq> RUNNING" "cpu_proc s = None" "held s = []"
  shows "idle s"
  using assms by (simp add: idle_def kinv_def cpu_ok_def)

lemma mlfq_back_spec:
  assumes "returning p s" "sched_cfg s = MLFQ" "runnable s p"
  shows "\<exists>s'. mlfq_back p s = Ret None s' \<and> idle s' \<and>
    ptable s' = (ptable s)[p := demoted (slot s p)] \<and>
    (\<forall>q<5. qlist s' q = (if int q = p_curr_queue_id (demoted (slot s p)) then qlist s q @ [p] else qlist s q))"
proof -
  have a: "sched_inv {p} s" "table_ok s" "held s = [LkPtable]" "p < NPROC" "\<And>i. i < NPROC \<Longrightarrow> p_state (slot s i) \<noteq> RUNNING"
    using assms(1) by (auto simp: returning_def)
  let ?s = "(switchkvm s)\<lparr>cpu_proc := None\<rparr>"
  have "ptable ?s = ptable s" "sched_cfg ?s = MLFQ" "held ?s = [LkPtable]"
    "queue_ptr ?s = queue_ptr s" "q_latest_idx ?s = q_latest_idx s" "nextpid ?s = nextpid s"
    using a(3) assms(2) by (simp_all add: switchkvm_def)
  note s = this
  let ?d = "mlfq_demote p ?s"
  have len: "p < length (ptable s)" "length (ptable s) = NPROC" using a by auto
  note d = mlfq_demote_spec [of p ?s, unfolded s, OF len(1)]
  have "qlist ?d = qlist s"
    by (rule qlist_cong) (simp_all add: d s)
  then have ptd: "ptable ?d = (ptable s)[p := demoted (slot s p)]" "qlist ?d = qlist s"
    using d by simp_all
  have slotd: "slot ?d p = demoted (slot s p)" using ptd len by simp
  have frd: "held ?d = [LkPtable]" "sched_cfg ?d = MLFQ" "cpu_proc ?d = None"
    using log_frameD [OF d(2)] s by simp_all
  note lev = sched_inv_queues(3) [OF a(1) assms(2) a(4)]
  have "sched_inv {p} (upd_proc p demoted s)"
    using lev by (intro sched_inv_upd [OF a(1,4)]) (simp_all add: demoted_simps)
  moreover have "sched_inv {p} ?d = sched_inv {p} (upd_proc p demoted s)"
    using ptd d s log_frameD(2,3) [OF d(2)] assms(2) by (intro sched_inv_cong) simp_all
  ultimately have inv: "sched_inv {p} ?d" by simp
  obtain q where q: "q < 5" "p_curr_queue_id (slot ?d p) = int q"
    by (rule sched_inv_level [OF inv frd(2) a(4)])
  note push = sched_inv_push [OF inv a(4) _ _ _ q(1)]
  let ?g = "\<lambda>r. r\<lparr>p_curr_queue_id := int q\<rparr>"
  let ?u = "upd_proc p ?g (set_queue q (qlist s q @ [p]) ?d)"
  have run: "p_state (slot ?d p) = RUNNABLE" using slotd assms(3) by (simp add: demoted_simps)
  have "push_back_process p (int q) ?d = Ret 1 ?u"
    using push(1) frd run ptd(2) by simp
  then have bk: "mlfq_back p s = Ret None (?u\<lparr>held := []\<rparr>)"
    using assms(3) q(2) s frd by (simp add: mlfq_back_def Let_def)
  have ptu: "ptable ?u = (ptable s)[p := demoted (slot s p)]"
    using ptd(1) len by (simp add: q(2) [unfolded slotd, symmetric])
  have "sched_inv {} ?u"
    using push(2) [of ?g] frd run ptd(2) by simp
  moreover have "table_ok ?u"
    using a(2,4) by (intro table_ok_upd [OF a(2) len(2) a(4) ptu]) (simp add: demoted_simps table_ok_def)
  moreover have "p_state (slot ?u i) \<noteq> RUNNING" if "i < NPROC" for i
    using a(5) [OF that] assms(3) len unfolding ptu by (simp add: nth_list_update demoted_simps)
  ultimately have "idle (?u\<lparr>held := []\<rparr>)"
    using frd by (intro idleI) (simp_all add: table_ok_def)
  moreover have "qlist ?u r = (if int r = p_curr_queue_id (demoted (slot s p)) then qlist s r @ [p] else qlist s r)"
    if "r < 5" for r
    using push(3) [OF _ _ _ that] frd run ptd(2) q(2) slotd by simp
  ultimately show ?thesis
    using bk ptu by (intro exI [of _ "?u\<lparr>held := []\<rparr>"]) simp
qed

lemma back_not_runnable:
  assumes "returning p s" "sched_cfg s = MLFQ" "\<not> runnable s p"
  shows "\<exists>s'. mlfq_back p s = Ret None s' \<and> idle s' \<and> ptable s' = ptable s \<and> qlist s' = qlist s"
proof -
  let ?s = "(switchkvm s)\<lparr>cpu_proc := None, held := []\<rparr>"
  have a: "sched_inv {p} s" "table_ok s" "held s = [LkPtable]" "\<And>i. i < NPROC \<Longrightarrow> p_state (slot s i) \<noteq> RUNNING"
    using assms(1) by (auto simp: returning_def)
  have "sched_inv {} s" using sched_inv_exempt(2) [OF a(1) assms(3)] by simp
  moreover have "sched_inv {} ?s = sched_inv {} s"
    by (rule sched_inv_cong) (simp_all add: switchkvm_def)
  ultimately have "idle ?s"
    using a by (intro idleI) (simp_all add: switchkvm_def table_ok_def)
  moreover have "mlfq_back p s = Ret None ?s"
    using assms(3) a(3) by (simp add: mlfq_back_def switchkvm_def Let_def)
  moreover have "qlist ?s = qlist s" by (rule qlist_cong) (simp_all add: switchkvm_def)
  ultimately show ?thesis by (simp add: switchkvm_def)
qed

lemma returning_kinv:
  assumes "returning p s" "sched_cfg s \<noteq> MLFQ"
  shows "kinv ((switchkvm s)\<lparr>cpu_proc := None\<rparr>)"
proof -
  have a: "sched_inv {p} s" "table_ok s" "\<And>i. i < NPROC \<Longrightarrow> p_state (slot s i) \<noteq> RUNNING"
    using assms(1) by (auto simp: returning_def)
  have "sched_inv {} s" using a(1) sched_inv_other [OF assms(2)] by blast
  moreover have "sched_inv {} ((switchkvm s)\<lparr>cpu_proc := None\<rparr>) = sched_inv {} s"
    by (rule sched_inv_cong) (simp_all add: switchkvm_def)
  ultimately show ?thesis
    using a by (simp add: kinv_def cpu_ok_def table_ok_def switchkvm_def)
qed

lemma sched_back_spec:
  assumes "returning p s" "start_idx < NPROC"
  shows "\<exists>r start' s'. sched_back start_idx p s = Ret (r, start') s' \<and> start' < NPROC \<and>
    (case r of None \<Rightarrow> idle s' | Some p' \<Rightarrow> dispatched p' s' \<and> sched_cfg s = RR \<and> p < p')"
proof -
  let ?s = "(switchkvm s)\<lparr>cpu_proc := None\<rparr>"
  have held: "held s = [LkPtable]" and p: "p < NPROC" using assms(1) by (auto simp: returning_def)
  have sw: "held ?s = [LkPtable]" "cpu_proc ?s = None" "sched_cfg ?s = sched_cfg s" using held by (simp_all add: switchkvm_def)
  have idle: "idle (?s\<lparr>held := []\<rparr>)" if "sched_cfg s \<noteq> MLFQ"
    using returning_kinv [OF assms(1) that] by (simp add: idle_def)
  show ?thesis
  proof (cases "sched_cfg s")
    case RR
    then obtain r s' where r: "rr_scan (p + 1) ?s = Ret r s'" "case r of
         None \<Rightarrow> idle s' \<and> (\<forall>j<NPROC. p + 1 \<le> j \<longrightarrow> \<not> runnable ?s j)
       | Some p' \<Rightarrow> dispatched p' s' \<and> p' < NPROC \<and> runnable ?s p' \<and> p + 1 \<le> p' \<and> (\<forall>j<p'. p + 1 \<le> j \<longrightarrow> \<not> runnable ?s j)"
      using rr_scan_spec [OF returning_kinv [OF assms(1)] sw(1,2), of "p + 1"] sw(3) by auto
    with RR assms(2) show ?thesis
      by (cases r) (simp_all add: sched_back_def rr_back_def Let_def)
  next
    case FCFS
    then show ?thesis using idle sw(1) assms(2) by (simp add: sched_back_def fcfs_back_def Let_def)
  next
    case PBS
    then show ?thesis using idle sw(1) p by (simp add: sched_back_def pbs_back_def Let_def)
  next
    case MLFQ
    then show ?thesis
      using mlfq_back_spec [OF assms(1) MLFQ] back_not_runnable [OF assms(1) MLFQ] assms(2)
      by (cases "runnable s p") (auto simp: sched_back_def)
  qed
qed

section \<open>Runs of the priority scheduler\<close>

text \<open>
  A run of the PBS loop during which process \<open>j\<close> stays runnable with a least priority value, with
  the processes dispatched. Between a switch and the return from it, and between two passes, the rest
  of the system may do anything: \<open>u\<close> is any state in which the process can come back, \<open>w\<close> any state
  the next pass can start in; \<open>start_idx\<close> is passed on as the code does.
\<close>

inductive pbs_run :: "nat \<Rightarrow> nat \<times> 'a proc_state_scheme \<Rightarrow> nat list \<Rightarrow> bool" for j where
  pbs_stop: "pbs_run j c []"
| pbs_pass: "idle s \<Longrightarrow> sched_cfg s = PBS \<Longrightarrow> runnable s j \<Longrightarrow>
    (\<forall>i<NPROC. runnable s i \<longrightarrow> p_curr_priority (slot s j) \<le> p_curr_priority (slot s i)) \<Longrightarrow>
    pbs_top start_idx s = Ret (Some p) t \<Longrightarrow> returning p (u :: 'a proc_state_scheme) \<Longrightarrow>
    pbs_back p u = Ret start' v \<Longrightarrow> pbs_run j (start', w) ps \<Longrightarrow> pbs_run j (start_idx, s) (p # ps)"

lemma pbs_back_Ret:
  assumes "returning p u"
  shows "\<exists>v. pbs_back p u = Ret ((p + 1) mod NPROC) v \<and> (sched_cfg u \<noteq> MLFQ \<longrightarrow> idle v)"
  using assms returning_kinv [OF assms]
  by (simp add: pbs_back_def Let_def returning_def switchkvm_def idle_def)

lemma pbs_top_closer:
  assumes "idle s" "sched_cfg s = PBS" "start_idx < NPROC" "pbs_top start_idx s = Ret (Some p) t"
    and "j < NPROC" "runnable s j" "p_curr_priority (slot s j) \<le> p_curr_priority (slot s p)" "j \<noteq> p"
  shows "cyc_dist ((p + 1) mod NPROC) j < cyc_dist start_idx j"
proof -
  have ok: "pbs_zero s" "prio_ok s" using assms(1) by (auto simp: idle_def kinv_def table_okD)
  have "pbs_pick start_idx s = Some p"
    using pbs_top_spec [OF assms(1-3)] assms(4) by auto
  note p = pbs_pick_Some [OF ok assms(3) this]
  from p(3) [OF assms(5,6)] assms(7) have "p_curr_priority (slot s j) = p_curr_priority (slot s p)" by simp
  from cyc_dist_next [OF assms(3) p(1) assms(5,8) p(4) [OF assms(5,6) this]] show ?thesis .
qed

lemma pbs_run_bounded:
  assumes "pbs_run j c ps" "fst c < NPROC" "j < NPROC" "j \<notin> set ps"
  shows "length ps \<le> cyc_dist (fst c) j"
  using assms
proof (induction rule: pbs_run.induct)
  case (pbs_pass s start_idx p t u start' v w ps)
  have p: "p < NPROC" using pbs_pass.hyps(6) by (simp add: returning_def)
  have st: "start' = (p + 1) mod NPROC" using pbs_back_Ret [OF pbs_pass.hyps(6)] pbs_pass.hyps(7) by auto
  have "runnable s p"
    using pbs_top_spec [OF pbs_pass.hyps(1,2), of start_idx] pbs_pass.hyps(5) pbs_pass.prems(1)
    by (auto simp: top_result_def split: option.splits)
  with pbs_pass p have "cyc_dist start' j < cyc_dist start_idx j"
    unfolding st by (intro pbs_top_closer) auto
  moreover have "length ps \<le> cyc_dist start' j"
    using pbs_pass.IH pbs_pass.prems st by (simp add: NPROC_def)
  ultimately show ?case by simp
qed simp

section \<open>Properties\<close>

definition sched_example :: "sched_type \<Rightarrow> proc_state" where
  "sched_example cfg = (boot_state cfg)\<lparr>nextpid := 3,
     ptable := (replicate NPROC proc0)[0 := proc0\<lparr>p_pid := 1, p_state := SLEEPING, p_kstack := 0x80200000, p_pgdir := 0x80201000\<rparr>,
        1 := proc0\<lparr>p_pid := 2, p_state := RUNNABLE, p_kstack := 0x80202000, p_pgdir := 0x80203000\<rparr>],
     queue_ptr := (replicate 5 (replicate 65 None))[0 := row_of [1]], q_latest_idx := (replicate 5 (-1))[0 := 0]\<rparr>"

lemma slot_sched_example:
  "i < NPROC \<Longrightarrow> slot (sched_example cfg) i =
     (if i = 0 then proc0\<lparr>p_pid := 1, p_state := SLEEPING, p_kstack := 0x80200000, p_pgdir := 0x80201000\<rparr>
      else if i = 1 then proc0\<lparr>p_pid := 2, p_state := RUNNABLE, p_kstack := 0x80202000, p_pgdir := 0x80203000\<rparr>
      else proc0)"
  by (simp add: sched_example_def nth_list_update NPROC_def)

lemma sched_example_simps [simp]:
  "held (sched_example cfg) = []" "sched_cfg (sched_example cfg) = cfg" "nextpid (sched_example cfg) = 3"
  "cpu_proc (sched_example cfg) = None" "length (ptable (sched_example cfg)) = NPROC"
  by (simp_all add: sched_example_def boot_state_def)

lemma sched_example_idle: "idle (sched_example cfg)"
proof -
  have q: "qlist (sched_example cfg) q = (if q = 0 then [1] else [])" if "q < 5" for q
    using that by (simp add: sched_example_def boot_state_def qlist_def row_of_def nth_list_update)
  have "wf_queues (sched_example cfg)"
    using q by (auto simp: wf_queues_def NPROC_def)
      (auto simp: sched_example_def boot_state_def row_of_def nth_list_update)
  then have "sched_inv {} (sched_example cfg)"
    using q by (auto simp: sched_inv_def pid_inv_def slot_sched_example proc0_def)
  moreover have "table_ok (sched_example cfg)"
    by (auto simp: table_ok_def slot_sched_example proc_ok_def proc0_def)
  ultimately show ?thesis
    by (intro idleI) (auto simp: slot_sched_example proc0_def)
qed

text \<open>
  C14: Whatever the scheduler of the build (RR, FCFS, PBS or MLFQ), a pass of its loop started
  with the lock free never panics, never leaves an array, and is work conserving: it goes round
  idle exactly when no process is runnable. Otherwise it switches to a process that was runnable,
  which is then the running process of the CPU with its page table and kernel stack installed and
  ptable.lock held, and the table and queue invariants hold.
\<close>

theorem scheduler_work_conserving:
  assumes "idle s" "start_idx < NPROC"
  shows "\<exists>r s'. sched_top start_idx s = Ret r s' \<and> (r = None \<longleftrightarrow> (\<forall>j<NPROC. \<not> runnable s j)) \<and>
    (case r of None \<Rightarrow> idle s' | Some p \<Rightarrow> p < NPROC \<and> runnable s p \<and> dispatched p s')"
proof -
  have "\<exists>r s'. sched_top start_idx s = Ret r s' \<and> top_result s r s'"
    using rr_top_spec [OF assms(1)] fcfs_top_spec [OF assms(1)] pbs_top_spec [OF assms(1) _ assms(2)]
      mlfq_top_spec [OF assms(1)]
    by (cases "sched_cfg s") (auto simp: sched_top_def)
  then show ?thesis
    by (auto simp: top_result_def split: option.splits) (metis option.distinct(1) option.inject)
qed

theorem scheduler_work_conserving_witness:
  "\<exists>r s'. sched_top 0 (sched_example MLFQ) = Ret r s' \<and> r \<noteq> None"
proof -
  have n: "0 < NPROC" "1 < NPROC" by (simp_all add: NPROC_def)
  have run: "runnable (sched_example MLFQ) 1" using n by (simp add: slot_sched_example)
  from scheduler_work_conserving [OF sched_example_idle n(1), of MLFQ] obtain r s' where
    "sched_top 0 (sched_example MLFQ) = Ret r s'"
    "r = None \<longleftrightarrow> (\<forall>j<NPROC. \<not> runnable (sched_example MLFQ) j)" by blast
  with run n(2) show ?thesis by blast
qed

text \<open>
  C15: When a process switches back to the scheduler (it has yielded, gone to sleep or exited; it
  is not RUNNING and holds only ptable.lock), the second half of the loop never panics and ends
  with the lock free and the invariants restored, or, under RR only, dispatches the next runnable
  process, which stands later in the table.
\<close>

theorem scheduler_return_safe:
  assumes "returning p s" "start_idx < NPROC"
  shows "\<exists>r start' s'. sched_back start_idx p s = Ret (r, start') s' \<and> start' < NPROC \<and>
    (case r of None \<Rightarrow> idle s' | Some p' \<Rightarrow> dispatched p' s' \<and> sched_cfg s = RR \<and> p < p')"
  by (rule sched_back_spec [OF assms])

lemma sched_example_returning:
  assumes "cfg \<noteq> MLFQ"
  shows "returning 1 ((sched_example cfg)\<lparr>held := [LkPtable], cpu_proc := Some 1\<rparr>)"
proof -
  have inv: "sched_inv {1} (sched_example cfg)" "table_ok (sched_example cfg)"
    using sched_example_idle [of cfg] sched_inv_other [of "sched_example cfg" "{}" "{1}"] assms
    by (simp_all add: idle_def kinv_def)
  have "sched_inv {1} ((sched_example cfg)\<lparr>held := [LkPtable], cpu_proc := Some 1\<rparr>) = sched_inv {1} (sched_example cfg)"
    by (rule sched_inv_cong) simp_all
  with inv idle_not_running [OF sched_example_idle, of _ cfg] show ?thesis
    by (simp add: returning_def table_ok_def) (simp add: NPROC_def)
qed

theorem scheduler_return_safe_witness:
  "\<exists>r start' s'. sched_back 0 1 ((sched_example RR)\<lparr>held := [LkPtable], cpu_proc := Some 1\<rparr>) = Ret (r, start') s'"
proof -
  have "0 < NPROC" by (simp add: NPROC_def)
  from scheduler_return_safe [OF sched_example_returning [of RR] this] show ?thesis by blast
qed

text \<open>
  C16: FCFS picks the runnable process with the least creation time, the first in the table among
  equals, and idles only if none is runnable.
\<close>

theorem fcfs_picks_oldest:
  assumes "idle s" "sched_cfg s = FCFS"
  shows "\<exists>r s'. fcfs_top s = Ret r s' \<and>
    (case r of
       None \<Rightarrow> \<forall>j<NPROC. \<not> runnable s j
     | Some p \<Rightarrow> dispatched p s' \<and> p < NPROC \<and> runnable s p \<and>
         (\<forall>j<NPROC. runnable s j \<longrightarrow> p_creation_time (slot s p) \<le> p_creation_time (slot s j) \<and>
            (j < p \<longrightarrow> p_creation_time (slot s p) < p_creation_time (slot s j))))"
  using fcfs_top_spec [OF assms] oldest_of_earliest [of s]
  by (cases "oldest_of s") (auto simp: top_result_def earliest_def)

theorem fcfs_picks_oldest_witness:
  "\<exists>s'. fcfs_top (sched_example FCFS) = Ret (Some 1) s' \<and> dispatched 1 s'"
proof -
  have n: "1 < NPROC" "0 < NPROC" by (simp_all add: NPROC_def)
  have cfg: "sched_cfg (sched_example FCFS) = FCFS" by simp
  obtain r s' where r: "fcfs_top (sched_example FCFS) = Ret r s'" "case r of
       None \<Rightarrow> \<forall>j<NPROC. \<not> runnable (sched_example FCFS) j
     | Some p \<Rightarrow> dispatched p s' \<and> p < NPROC \<and> runnable (sched_example FCFS) p"
    using fcfs_picks_oldest [OF sched_example_idle cfg] by (auto split: option.splits)
  have run: "p < NPROC \<Longrightarrow> runnable (sched_example FCFS) p \<longleftrightarrow> p = 1" for p
    by (simp add: slot_sched_example proc0_def)
  show ?thesis
  proof (cases r)
    case None
    with r(2) run n(1) show ?thesis by auto
  next
    case (Some p)
    with r(2) run have "p = 1" by auto
    with r Some show ?thesis by auto
  qed
qed

text \<open>
  C17: PBS picks a runnable process of least priority value, the first at or cyclically after
  start_idx among equals, and idles only if none is runnable. When that process comes back, the loop
  moves start_idx so that every other process that was runnable with the same priority is strictly
  closer to its turn. So no such process starves: whatever the processes and interrupts do in
  between, in every run of the loop in which a process stays runnable with a least priority value it
  is dispatched within NPROC dispatches.
\<close>

theorem pbs_picks_minimum_round_robin:
  fixes s :: "'a proc_state_scheme"
  assumes "idle s" "sched_cfg s = PBS" "start_idx < NPROC"
  shows "(\<exists>r s'. pbs_top start_idx s = Ret r s' \<and>
    (case r of
       None \<Rightarrow> \<forall>j<NPROC. \<not> runnable s j
     | Some p \<Rightarrow> dispatched p s' \<and> p < NPROC \<and> runnable s p \<and>
         (\<forall>j<NPROC. runnable s j \<longrightarrow> p_curr_priority (slot s p) \<le> p_curr_priority (slot s j) \<and>
            (p_curr_priority (slot s j) = p_curr_priority (slot s p) \<longrightarrow> cyc_dist start_idx p \<le> cyc_dist start_idx j)) \<and>
         (\<forall>u :: 'a proc_state_scheme. returning p u \<and> sched_cfg u = PBS \<longrightarrow>
            (\<exists>start' v. pbs_back p u = Ret start' v \<and> idle v \<and> start' < NPROC \<and>
               (\<forall>j<NPROC. runnable s j \<and> p_curr_priority (slot s j) = p_curr_priority (slot s p) \<and> j \<noteq> p \<longrightarrow>
                  cyc_dist start' j < cyc_dist start_idx j))))) \<and>
    (\<forall>j<NPROC. \<forall>ps. pbs_run j (start_idx, s) ps \<longrightarrow> j \<in> set ps \<or> length ps < NPROC)"
proof (intro conjI allI impI)
  fix j ps assume "j < NPROC" "pbs_run j (start_idx, s) ps"
  then show "j \<in> set ps \<or> length ps < NPROC"
    using pbs_run_bounded [of j "(start_idx, s)" ps] cyc_dist_less [OF assms(3), of j] assms(3)
    by (cases "j \<in> set ps") simp_all
next
  have ok: "pbs_zero s" "prio_ok s" using assms(1) by (auto simp: idle_def kinv_def table_okD)
  obtain s' where s': "pbs_top start_idx s = Ret (pbs_pick start_idx s) s'" "top_result s (pbs_pick start_idx s) s'"
    using pbs_top_spec [OF assms] by blast
  let ?after = "\<lambda>p. \<forall>u :: 'a proc_state_scheme. returning p u \<and> sched_cfg u = PBS \<longrightarrow>
     (\<exists>start' v. pbs_back p u = Ret start' v \<and> idle v \<and> start' < NPROC \<and>
        (\<forall>j<NPROC. runnable s j \<and> p_curr_priority (slot s j) = p_curr_priority (slot s p) \<and> j \<noteq> p \<longrightarrow>
           cyc_dist start' j < cyc_dist start_idx j))"
  have after: "?after p" if "pbs_pick start_idx s = Some p" for p
  proof (intro allI impI)
    fix u :: "'a proc_state_scheme" assume u: "returning p u \<and> sched_cfg u = PBS"
    then obtain v where "pbs_back p u = Ret ((p + 1) mod NPROC) v" "idle v"
      using pbs_back_Ret [of p u] by auto
    moreover have "(p + 1) mod NPROC < NPROC" by (simp add: NPROC_def)
    ultimately show "\<exists>start' v. pbs_back p u = Ret start' v \<and> idle v \<and> start' < NPROC \<and>
        (\<forall>j<NPROC. runnable s j \<and> p_curr_priority (slot s j) = p_curr_priority (slot s p) \<and> j \<noteq> p \<longrightarrow>
           cyc_dist start' j < cyc_dist start_idx j)"
      using pbs_top_closer [OF assms s'(1) [unfolded that]] by (metis order_refl)
  qed
  show "\<exists>r s'. pbs_top start_idx s = Ret r s' \<and>
    (case r of
       None \<Rightarrow> \<forall>j<NPROC. \<not> runnable s j
     | Some p \<Rightarrow> dispatched p s' \<and> p < NPROC \<and> runnable s p \<and>
         (\<forall>j<NPROC. runnable s j \<longrightarrow> p_curr_priority (slot s p) \<le> p_curr_priority (slot s j) \<and>
            (p_curr_priority (slot s j) = p_curr_priority (slot s p) \<longrightarrow> cyc_dist start_idx p \<le> cyc_dist start_idx j)) \<and>
         ?after p)"
  proof (cases "pbs_pick start_idx s")
    case None
    with s' show ?thesis by (simp add: top_result_def)
  next
    case (Some p)
    note p = pbs_pick_Some [OF ok assms(3) Some]
    have d: "dispatched p s'" using s'(2) Some by (simp add: top_result_def)
    have least: "\<forall>j<NPROC. runnable s j \<longrightarrow> p_curr_priority (slot s p) \<le> p_curr_priority (slot s j) \<and>
        (p_curr_priority (slot s j) = p_curr_priority (slot s p) \<longrightarrow> cyc_dist start_idx p \<le> cyc_dist start_idx j)"
      using p(3,4) by blast
    show ?thesis
      by (rule exI [of _ "Some p"], rule exI [of _ s'], unfold option.case, intro conjI)
        (use s'(1) Some d p(1,2) least after [OF Some] in \<open>simp_all only:\<close>)
  qed
qed

theorem pbs_picks_minimum_round_robin_witness:
  "(\<exists>r s'. pbs_top 5 (sched_example PBS) = Ret r s' \<and> r = Some 1) \<and>
   (\<exists>v. pbs_back 1 ((sched_example PBS)\<lparr>held := [LkPtable], cpu_proc := Some 1\<rparr>) = Ret 2 v) \<and>
   pbs_run 1 (5, sched_example PBS) [1]"
proof -
  let ?e = "sched_example PBS" and ?u = "(sched_example PBS)\<lparr>held := [LkPtable], cpu_proc := Some 1\<rparr>"
  have n: "1 < NPROC" "5 < NPROC" by (simp_all add: NPROC_def)
  have cfg: "sched_cfg ?e = PBS" by simp
  have run: "p < NPROC \<Longrightarrow> runnable ?e p \<longleftrightarrow> p = 1" for p
    by (simp add: slot_sched_example proc0_def)
  have "\<exists>s'. pbs_top 5 ?e = Ret (Some 1) s'"
    using pbs_picks_minimum_round_robin [OF sched_example_idle cfg n(2), THEN conjunct1]
  proof (elim exE conjE)
    fix r s' assume r: "pbs_top 5 ?e = Ret r s'"
    assume c: "case r of
       None \<Rightarrow> \<forall>j<NPROC. \<not> runnable ?e j
     | Some p \<Rightarrow> dispatched p s' \<and> p < NPROC \<and> runnable ?e p \<and>
         (\<forall>j<NPROC. runnable ?e j \<longrightarrow> p_curr_priority (slot ?e p) \<le> p_curr_priority (slot ?e j) \<and>
            (p_curr_priority (slot ?e j) = p_curr_priority (slot ?e p) \<longrightarrow> cyc_dist 5 p \<le> cyc_dist 5 j)) \<and>
         (\<forall>u :: proc_state. returning p u \<and> sched_cfg u = PBS \<longrightarrow>
            (\<exists>start' v. pbs_back p u = Ret start' v \<and> idle v \<and> start' < NPROC \<and>
               (\<forall>j<NPROC. runnable ?e j \<and> p_curr_priority (slot ?e j) = p_curr_priority (slot ?e p) \<and> j \<noteq> p \<longrightarrow>
                  cyc_dist start' j < cyc_dist 5 j)))"
    show ?thesis
    proof (cases r)
      case None
      with c run n(1) show ?thesis by auto
    next
      case (Some p)
      with c have "p < NPROC" "runnable ?e p" by (simp_all only: option.case)
      with run r Some show ?thesis by auto
    qed
  qed
  then obtain s' where r: "pbs_top 5 ?e = Ret (Some 1) s'" by blast
  have u: "returning 1 ?u" by (rule sched_example_returning) simp
  obtain v where v: "pbs_back 1 ?u = Ret 2 v"
    using pbs_back_Ret [OF u] by (auto simp: NPROC_def)
  have "pbs_run 1 (5, ?e) [1]"
    using run n(1) by (intro pbs_pass [OF sched_example_idle cfg _ _ r u v pbs_stop]) auto
  with r v show ?thesis by blast
qed

text \<open>
  C18: A pass of the MLFQ scheduler first ages: a process is moved up at most one level, only if
  it has waited longer than the threshold of its queue, and its waiting time restarts; every other
  process keeps its place. Then it dispatches the front process of the first non-empty queue, so
  no runnable process is at a better level than the chosen one.
\<close>

theorem mlfq_picks_front_of_best_queue:
  assumes "idle s" "sched_cfg s = MLFQ"
  shows "\<exists>t r s'. mlfq_age (s\<lparr>held := [LkPtable]\<rparr>) = Ret () t \<and> mlfq_top s = Ret r s' \<and>
    (\<forall>x<NPROC. slot t x = slot s x \<or>
       (p_state (slot s x) = RUNNABLE \<and> 0 < p_curr_queue_id (slot s x) \<and>
        patience_threshold ! nat (p_curr_queue_id (slot s x)) < p_curr_wait_time (slot s x) \<and>
        slot t x = (slot s x)\<lparr>p_curr_wait_time := 0, p_curr_queue_id := p_curr_queue_id (slot s x) - 1\<rparr>)) \<and>
    (case r of
       None \<Rightarrow> \<forall>j<NPROC. \<not> runnable s j
     | Some p \<Rightarrow> dispatched p s' \<and> p < NPROC \<and> runnable s p \<and>
         p = hd (qlist t (nat (p_curr_queue_id (slot t p)))) \<and>
         (\<forall>j<NPROC. runnable s j \<longrightarrow> p_curr_queue_id (slot t p) \<le> p_curr_queue_id (slot t j)))"
proof -
  obtain t s' where t: "mlfq_age (s\<lparr>held := [LkPtable]\<rparr>) = Ret () t" "sched_inv {} t" "sched_cfg t = MLFQ"
    "\<And>x. x < NPROC \<Longrightarrow> aged (slot s x) (slot t x)" "mlfq_top s = Ret (mlfq_choice t) s'" "top_result s (mlfq_choice t) s'"
    using mlfq_top_spec [OF assms] by blast
  have same: "x < NPROC \<Longrightarrow> runnable t x = runnable s x" for x
    using aged_simps(1) [OF t(4)] by simp
  have "case mlfq_choice t of
       None \<Rightarrow> \<forall>j<NPROC. \<not> runnable s j
     | Some p \<Rightarrow> dispatched p s' \<and> p < NPROC \<and> runnable s p \<and>
         p = hd (qlist t (nat (p_curr_queue_id (slot t p)))) \<and>
         (\<forall>j<NPROC. runnable s j \<longrightarrow> p_curr_queue_id (slot t p) \<le> p_curr_queue_id (slot t j))"
  proof (cases "mlfq_choice t")
    case None
    with t(6) show ?thesis by (simp add: top_result_def)
  next
    case (Some p)
    note p = mlfq_choice_Some [OF t(2,3) Some]
    have "p_curr_queue_id (slot t p) \<le> p_curr_queue_id (slot t j)" if "j < NPROC" "runnable s j" for j
      using p(4) [OF that(1)] same [OF that(1)] that(2) by simp
    with p(3) t(6) Some show ?thesis by (simp add: top_result_def)
  qed
  with t(1,4,5) show ?thesis
    unfolding aged_def promote_def by (intro exI [of _ t] exI [of _ "mlfq_choice t"] exI [of _ s']) simp
qed

theorem mlfq_picks_front_of_best_queue_witness:
  "\<exists>r s'. mlfq_top (sched_example MLFQ) = Ret r s' \<and> r = Some 1"
proof -
  have n: "1 < NPROC" by (simp_all add: NPROC_def)
  have cfg: "sched_cfg (sched_example MLFQ) = MLFQ" by simp
  obtain r s' where r: "mlfq_top (sched_example MLFQ) = Ret r s'" "case r of
       None \<Rightarrow> \<forall>j<NPROC. \<not> runnable (sched_example MLFQ) j
     | Some p \<Rightarrow> p < NPROC \<and> runnable (sched_example MLFQ) p"
    using mlfq_picks_front_of_best_queue [OF sched_example_idle cfg] by (auto split: option.splits)
  have run: "p < NPROC \<Longrightarrow> runnable (sched_example MLFQ) p \<longleftrightarrow> p = 1" for p
    by (simp add: slot_sched_example proc0_def)
  show ?thesis
  proof (cases r)
    case None
    with r(2) run n(1) show ?thesis by auto
  next
    case (Some p)
    with r(2) run have "p = 1" by auto
    with r Some show ?thesis by auto
  qed
qed

text \<open>
  C19: A process that comes back runnable is put at the end of a queue: one level down (the lowest
  level is 4) if the timer had flagged it for demotion, with its flag and counters cleared, and at
  its own level otherwise. Nothing else changes and the lock is free afterwards.
\<close>

theorem mlfq_requeues_with_demotion:
  assumes "returning p s" "sched_cfg s = MLFQ" "runnable s p"
  defines "q \<equiv> (if p_should_demote (slot s p) = 1 \<and> p_curr_queue_id (slot s p) < 4
                then p_curr_queue_id (slot s p) + 1 else p_curr_queue_id (slot s p))"
  shows "\<exists>s'. mlfq_back p s = Ret None s' \<and> idle s' \<and>
    p_curr_queue_id (slot s' p) = q \<and> (p_should_demote (slot s p) = 1 \<longrightarrow>
      p_should_demote (slot s' p) = 0 \<and> p_curr_ticks_got (slot s' p) = 0) \<and>
    (\<forall>j<NPROC. j \<noteq> p \<longrightarrow> slot s' j = slot s j) \<and>
    (\<forall>r<5. qlist s' r = (if int r = q then qlist s r @ [p] else qlist s r))"
proof -
  have len: "p < length (ptable s)" using assms(1) by (auto simp: returning_def)
  have q: "p_curr_queue_id (demoted (slot s p)) = q"
    by (simp add: q_def demoted_def)
  have dem: "p_should_demote (slot s p) = 1 \<longrightarrow>
      p_should_demote (demoted (slot s p)) = 0 \<and> p_curr_ticks_got (demoted (slot s p)) = 0"
    by (simp add: demoted_def)
  from mlfq_back_spec [OF assms(1-3)] len show ?thesis
    unfolding q using dem q by auto
qed

text \<open>
  In the next witness the process runs at level 0 and has been flagged.
\<close>

definition return_example :: proc_state where
  "return_example = (boot_state MLFQ)\<lparr>nextpid := 2, held := [LkPtable], cpu_proc := Some 0,
     ptable := (replicate NPROC proc0)[0 := proc0\<lparr>p_pid := 1, p_state := RUNNABLE, p_kstack := 0x80200000,
        p_pgdir := 0x80201000, p_should_demote := 1\<rparr>]\<rparr>"

lemma slot_return_example:
  "i < NPROC \<Longrightarrow> slot return_example i =
     (if i = 0 then proc0\<lparr>p_pid := 1, p_state := RUNNABLE, p_kstack := 0x80200000,
        p_pgdir := 0x80201000, p_should_demote := 1\<rparr> else proc0)"
  by (simp add: return_example_def nth_list_update NPROC_def)

lemma return_example_simps [simp]:
  "held return_example = [LkPtable]" "sched_cfg return_example = MLFQ" "nextpid return_example = 2"
  "cpu_proc return_example = Some 0" "length (ptable return_example) = NPROC"
  by (simp_all add: return_example_def boot_state_def)

lemma return_example_returning: "returning 0 return_example"
proof -
  have q: "qlist return_example q = []" if "q < 5" for q
    using that by (simp add: return_example_def boot_state_def qlist_def)
  have "wf_queues return_example"
    using q by (simp add: wf_queues_def) (simp add: return_example_def boot_state_def row_of_def)
  then have "sched_inv {0} return_example"
    using q by (auto simp: sched_inv_def pid_inv_def slot_return_example proc0_def)
  moreover have "table_ok return_example"
    by (auto simp: table_ok_def slot_return_example proc_ok_def proc0_def)
  moreover have "\<forall>i<NPROC. p_state (slot return_example i) \<noteq> RUNNING"
    by (simp add: slot_return_example proc0_def)
  moreover have "0 < NPROC" by (simp add: NPROC_def)
  ultimately show ?thesis by (simp add: returning_def)
qed

theorem mlfq_requeues_with_demotion_witness:
  "\<exists>s'. mlfq_back 0 return_example = Ret None s' \<and> p_curr_queue_id (slot s' 0) = 1 \<and> qlist s' 1 = [0]"
proof -
  have n: "0 < NPROC" by (simp add: NPROC_def)
  have q: "qlist return_example 1 = []" by (simp add: return_example_def boot_state_def qlist_def)
  have cfg: "sched_cfg return_example = MLFQ" "runnable return_example 0"
    using n by (simp_all add: slot_return_example)
  have sl: "p_should_demote (slot return_example 0) = 1" "p_curr_queue_id (slot return_example 0) = 0"
    using n by (simp_all add: slot_return_example proc0_def)
  from mlfq_requeues_with_demotion [OF return_example_returning cfg] show ?thesis
    unfolding sl using q by auto
qed

subsection \<open>The entry behind a promoted one\<close>

lemma age_one_prefix:
  assumes "age_inv i s0 s" "0 < i" "i < 5" "j < length (qlist s i)" "age_one i j s = Ret () s'"
  shows "take j (qlist s' i) = take j (qlist s i)"
proof -
  have inv: "sched_inv {} s" "sched_cfg s = MLFQ" using assms(1) by (auto simp: age_inv_def)
  let ?x = "qlist s i ! j"
  have "distinct (qlist s i)" using sched_inv_queues(4) [OF inv assms(3)] .
  then have "remove1 ?x (qlist s i) = take j (qlist s i) @ drop (Suc j) (qlist s i)"
    using assms(4) by (intro remove1_take_drop) (auto simp: nth_eq_iff_index_eq)
  then have "take j (remove1 ?x (qlist s i)) = take j (qlist s i)"
    using assms(4) by simp
  with age_one_spec [OF inv assms(2-4)] assms(3,5) show ?thesis
    by (auto split: if_splits)
qed

lemma age_queue_prefix:
  assumes "age_inv i s0 s" "0 < i" "i < 5" "age_queue i j s = Ret () s'" "k \<le> j"
  shows "take k (qlist s' i) = take k (qlist s i)"
  using assms(1,4,5)
proof (induction "65 - j" arbitrary: j s rule: less_induct)
  case less
  have inv: "sched_inv {} s" "sched_cfg s = MLFQ"
    using less.prems by (auto simp: age_inv_def)
  have "q_latest_idx s ! i = int (length (qlist s i)) - 1" "length (qlist s i) \<le> 65"
    using wf_queuesD [OF sched_inv_queues(2) [OF inv] assms(3)] by simp_all
  then have test: "int j \<le> q_latest_idx s ! i \<longleftrightarrow> j < length (qlist s i)" and len: "length (qlist s i) \<le> 65"
    by auto
  show ?case
  proof (cases "j < length (qlist s i)")
    case True
    obtain t where t: "age_one i j s = Ret () t" "age_inv i s0 t"
      using age_one_inv [OF less.prems(1) assms(2,3) True] by blast
    have "age_queue i (j + 1) t = Ret () s'"
      using less.prems(2) True len t(1) by (simp add: age_queue.simps [of i j s] test)
    moreover have "65 - (j + 1) < 65 - j" using True len by simp
    moreover have "k \<le> j + 1" using less.prems(3) by simp
    ultimately have "take k (qlist s' i) = take k (qlist t i)"
      using less.hyps [of "j + 1" t] t(2) by blast
    moreover have "take k (take j (qlist t i)) = take k (take j (qlist s i))"
      using age_one_prefix [OF less.prems(1) assms(2,3) True t(1)] by simp
    ultimately show ?thesis using less.prems(3) by (simp add: min_def)
  next
    case False
    then show ?thesis
      using less.prems(2) by (simp add: age_queue.simps [of i j s] test)
  qed
qed

text \<open>
  C20: The aging loop increments its index after deleting the entry at that index, so the entry
  that slides into the place is not examined: when the first two processes of a queue have both
  waited too long, only the first is promoted and the second stays in the queue as it was.
\<close>

theorem aging_skips_next:
  assumes "sched_inv {} s" "sched_cfg s = MLFQ" "0 < i" "i < 5" "qlist s i = x # y # zs"
    and "patience_threshold ! i < p_curr_wait_time (slot s x)"
    and "patience_threshold ! i < p_curr_wait_time (slot s y)"
  shows "\<exists>s'. age_queue i 0 s = Ret () s' \<and> slot s' x = promote (slot s x) \<and>
    hd (qlist s' i) = y \<and> slot s' y = slot s y"
proof -
  have start: "age_inv i s s" using assms(1,2) by (simp add: age_inv_def aged_def)
  have inv: "q_latest_idx s ! i \<ge> 0"
    using queue_test(1) [OF assms(1,2,4)] assms(5) by simp
  note one = age_one_spec [OF assms(1-4), of 0]
  obtain t where t: "age_one i 0 s = Ret () t" "sched_inv {} t" "ptable t = (ptable s)[x := promote (slot s x)]"
    "qlist t i = y # zs"
    using one assms(4-6) by auto
  have ti: "age_inv i s t" using age_one_inv [OF start assms(3,4), of 0] t(1) assms(5) by auto
  obtain s' where s': "age_queue i 1 t = Ret () s'" "age_inv i t s'"
  proof -
    have "age_inv i t t" using t(2) ti by (simp add: age_inv_def aged_def)
    from age_queue_inv [OF this assms(3,4)] that show thesis by blast
  qed
  have "take 1 (qlist s' i) = [y]"
    using age_queue_prefix [OF ti assms(3,4) s'(1), of 1] t(4) by simp
  then have hd: "hd (qlist s' i) = y" "y \<in> set (qlist s' i)"
    by (cases "qlist s' i"; auto)+
  have s'inv: "sched_inv {} s'" "sched_cfg s' = MLFQ" using s'(2) by (auto simp: age_inv_def)
  note y = sched_inv_delete(4,6) [OF s'inv assms(4) hd(2)]
  have x: "x < NPROC" "p_curr_queue_id (slot s x) = int i"
    using sched_inv_delete(4,6) [OF assms(1,2,4), of x] assms(5) by simp_all
  have "x \<noteq> y" using sched_inv_queues(4) [OF assms(1,2,4)] assms(5) by simp
  moreover have "slot s' y = slot t y"
    using s'(2) y unfolding age_inv_def by simp
  ultimately have ys: "slot s' y = slot s y" using t(3) by simp
  have tx: "slot t x = promote (slot s x)" using t(3) x(1) assms(1) by simp
  have "age_queue i 0 s = Ret () s'"
    using inv t(1) s'(1) by (simp add: age_queue.simps [of i 0 s])
  moreover have "slot s' x = promote (slot s x)"
  proof (rule ccontr)
    assume neq: "slot s' x \<noteq> promote (slot s x)"
    have "aged (slot t x) (slot s' x)" using s'(2) x(1) by (simp add: age_inv_def)
    then have "slot s' x = promote (promote (slot s x))" "patience_threshold ! nat (int i - 1) < 0"
      using neq tx x(2) by (auto simp: aged_def promote_def)
    then show False using assms(3,4) by (auto simp: patience_threshold_def nth_Cons split: nat.splits)
  qed
  ultimately show ?thesis using hd(1) ys by blast
qed

definition aging_example :: proc_state where
  "aging_example = (boot_state MLFQ)\<lparr>nextpid := 3,
     ptable := (replicate NPROC proc0)[0 := proc0\<lparr>p_pid := 1, p_state := RUNNABLE, p_curr_queue_id := 1, p_curr_wait_time := 21\<rparr>,
        1 := proc0\<lparr>p_pid := 2, p_state := RUNNABLE, p_curr_queue_id := 1, p_curr_wait_time := 21\<rparr>],
     queue_ptr := (replicate 5 (replicate 65 None))[1 := row_of [0, 1]], q_latest_idx := (replicate 5 (-1))[1 := 1]\<rparr>"

lemma aging_example_simps [simp]:
  "held aging_example = []" "sched_cfg aging_example = MLFQ" "nextpid aging_example = 3"
  "length (ptable aging_example) = NPROC"
  "i < NPROC \<Longrightarrow> slot aging_example i =
     (if i = 0 then proc0\<lparr>p_pid := 1, p_state := RUNNABLE, p_curr_queue_id := 1, p_curr_wait_time := 21\<rparr>
      else if i = 1 then proc0\<lparr>p_pid := 2, p_state := RUNNABLE, p_curr_queue_id := 1, p_curr_wait_time := 21\<rparr> else proc0)"
  by (simp_all add: aging_example_def boot_state_def nth_list_update NPROC_def)

lemma aging_example_inv: "sched_inv {} aging_example" "qlist aging_example 1 = [0, 1]"
proof -
  have q: "qlist aging_example q = (if q = 1 then [0, 1] else [])" if "q < 5" for q
    using that by (simp add: aging_example_def boot_state_def qlist_def row_of_def nth_list_update)
  then show "qlist aging_example 1 = [0, 1]" by simp
  have "wf_queues aging_example"
    using q by (auto simp: wf_queues_def NPROC_def)
      (auto simp: aging_example_def boot_state_def row_of_def nth_list_update)
  then show "sched_inv {} aging_example"
    using q by (auto simp: sched_inv_def pid_inv_def proc0_def)
qed

theorem aging_skips_next_witness:
  "\<exists>s'. age_queue 1 0 aging_example = Ret () s' \<and> p_curr_queue_id (slot s' 0) = 0 \<and> hd (qlist s' 1) = 1"
proof -
  have n: "0 < NPROC" "1 < NPROC" by (simp_all add: NPROC_def)
  have "patience_threshold ! 1 < p_curr_wait_time (slot aging_example 0)"
    "patience_threshold ! 1 < p_curr_wait_time (slot aging_example 1)"
    using n by (simp_all add: patience_threshold_def)
  from aging_skips_next [OF aging_example_inv(1) aging_example_simps(2) _ _ aging_example_inv(2) this]
  show ?thesis using n by (auto simp: promote_def)
qed

end
