(* ===== verification/Kstring.thy ===== *)
theory Kstring
  imports Prelude
begin

text \<open>
  \<open>string.c\<close> and the two string instructions of \<open>x86.h\<close> it uses, on a store of bytes. Pointers are
  32-bit words, pointer arithmetic wraps. Loops that count down a length are recursions on it;
  \<open>strlen\<close>, which runs until it meets a zero byte, is a partial function.
\<close>

type_synonym bmem = "uint32 \<Rightarrow> uchar"

unbundle bit_operations_syntax

section \<open>Operations\<close>

fun stosb :: "bmem \<Rightarrow> uint32 \<Rightarrow> uchar \<Rightarrow> nat \<Rightarrow> bmem" where
  "stosb m a v 0 = m"
| "stosb m a v (Suc n) = stosb (m(a := v)) (a + 1) v n"

text \<open>One store of a 32-bit word, least significant byte first.\<close>

definition store32 :: "bmem \<Rightarrow> uint32 \<Rightarrow> uint32 \<Rightarrow> bmem" where
  "store32 m a v = m(a := ucast v, a + 1 := ucast (drop_bit 8 v), a + 2 := ucast (drop_bit 16 v),
     a + 3 := ucast (drop_bit 24 v))"

fun stosl :: "bmem \<Rightarrow> uint32 \<Rightarrow> uint32 \<Rightarrow> nat \<Rightarrow> bmem" where
  "stosl m a v 0 = m"
| "stosl m a v (Suc n) = stosl (store32 m a v) (a + 4) v n"

definition memset :: "bmem \<Rightarrow> uint32 \<Rightarrow> uint32 \<Rightarrow> uint32 \<Rightarrow> bmem" where
  "memset m dst c n =
     (if dst mod 4 = 0 \<and> n mod 4 = 0 then
        let c = c AND 0xFF
        in stosl m dst (push_bit 24 c OR push_bit 16 c OR push_bit 8 c OR c) (unat (n div 4))
      else stosb m dst (ucast c) (unat n))"

fun memcmp_loop :: "bmem \<Rightarrow> uint32 \<Rightarrow> uint32 \<Rightarrow> nat \<Rightarrow> int" where
  "memcmp_loop m s1 s2 0 = 0"
| "memcmp_loop m s1 s2 (Suc n) =
     (if m s1 \<noteq> m s2 then uint (m s1) - uint (m s2) else memcmp_loop m (s1 + 1) (s2 + 1) n)"

definition memcmp :: "bmem \<Rightarrow> uint32 \<Rightarrow> uint32 \<Rightarrow> uint32 \<Rightarrow> int" where
  "memcmp m v1 v2 n = memcmp_loop m v1 v2 (unat n)"

fun copy_down :: "bmem \<Rightarrow> uint32 \<Rightarrow> uint32 \<Rightarrow> nat \<Rightarrow> bmem" where
  "copy_down m d s 0 = m"
| "copy_down m d s (Suc n) = copy_down (m(d - 1 := m (s - 1))) (d - 1) (s - 1) n"

fun copy_up :: "bmem \<Rightarrow> uint32 \<Rightarrow> uint32 \<Rightarrow> nat \<Rightarrow> bmem" where
  "copy_up m d s 0 = m"
| "copy_up m d s (Suc n) = copy_up (m(d := m s)) (d + 1) (s + 1) n"

definition memmove :: "bmem \<Rightarrow> uint32 \<Rightarrow> uint32 \<Rightarrow> uint32 \<Rightarrow> bmem" where
  "memmove m dst src n =
     (if src < dst \<and> src + n > dst then copy_down m (dst + n) (src + n) (unat n)
      else copy_up m dst src (unat n))"

definition memcpy :: "bmem \<Rightarrow> uint32 \<Rightarrow> uint32 \<Rightarrow> uint32 \<Rightarrow> bmem" where
  "memcpy m dst src n = memmove m dst src n"

fun strncmp_loop :: "bmem \<Rightarrow> uint32 \<Rightarrow> uint32 \<Rightarrow> nat \<Rightarrow> int" where
  "strncmp_loop m p q 0 = 0"
| "strncmp_loop m p q (Suc n) =
     (if m p \<noteq> 0 \<and> m p = m q then strncmp_loop m (p + 1) (q + 1) n else uint (m p) - uint (m q))"

definition strncmp :: "bmem \<Rightarrow> uint32 \<Rightarrow> uint32 \<Rightarrow> uint32 \<Rightarrow> int" where
  "strncmp m p q n = strncmp_loop m p q (unat n)"

fun strncpy_loop :: "bmem \<Rightarrow> uint32 \<Rightarrow> uint32 \<Rightarrow> nat \<Rightarrow> bmem" where
  "strncpy_loop m s t 0 = m"
| "strncpy_loop m s t (Suc n) =
     (let m' = m(s := m t)
      in if m' s \<noteq> 0 then strncpy_loop m' (s + 1) (t + 1) n else stosb m' (s + 1) 0 n)"

definition strncpy :: "bmem \<Rightarrow> uint32 \<Rightarrow> uint32 \<Rightarrow> int \<Rightarrow> bmem" where
  "strncpy m s t n = strncpy_loop m s t (nat n)"

fun safestrcpy_loop :: "bmem \<Rightarrow> uint32 \<Rightarrow> uint32 \<Rightarrow> nat \<Rightarrow> bmem" where
  "safestrcpy_loop m s t 0 = m(s := 0)"
| "safestrcpy_loop m s t (Suc n) =
     (let m' = m(s := m t)
      in if m' s \<noteq> 0 then safestrcpy_loop m' (s + 1) (t + 1) n else m'(s + 1 := 0))"

definition safestrcpy :: "bmem \<Rightarrow> uint32 \<Rightarrow> uint32 \<Rightarrow> int \<Rightarrow> bmem" where
  "safestrcpy m s t n = (if n \<le> 0 then m else safestrcpy_loop m s t (nat (n - 1)))"

partial_function (option) strlen_from :: "bmem \<Rightarrow> uint32 \<Rightarrow> nat \<Rightarrow> nat option" where
  "strlen_from m s n = (if m (s + of_nat n) \<noteq> 0 then strlen_from m s (n + 1) else Some n)"

definition strlen :: "bmem \<Rightarrow> uint32 \<Rightarrow> nat option" where
  "strlen m s = strlen_from m s 0"

section \<open>Ranges of addresses\<close>

text \<open>The offset of an address in a range decides whether a loop over the range reaches it.\<close>

lemma offset_step:
  fixes x a :: uint32
  shows "unat (x - (a + 1)) = (if x = a then 2 ^ 32 - 1 else unat (x - a) - 1)"
proof (cases "x = a")
  case True
  then show ?thesis by (simp add: unsigned_minus_1_eq_mask mask_eq_exp_minus_1)
next
  case False
  then have "unat (x - a) \<noteq> 0" by (simp add: unat_eq_0)
  moreover have "x - (a + 1) = (x - a) - 1" by simp
  ultimately show ?thesis using False by (simp only: unat_minus_one) (simp add: unat_eq_0 unat_minus_one)
qed

lemma stosb_at:
  "n \<le> 2 ^ 32 \<Longrightarrow> stosb m a v n x = (if unat (x - a) < n then v else m x)"
proof (induction n arbitrary: m a)
  case 0
  then show ?case by simp
next
  case (Suc n)
  then have "stosb m a v (Suc n) x = (if unat (x - (a + 1)) < n then v else (m(a := v)) x)"
    by simp
  also have "\<dots> = (if unat (x - a) < Suc n then v else m x)"
    using Suc.prems unat_eq_0 [of "x - a"] unfolding offset_step by (cases "x = a") auto
  finally show ?case .
qed

lemma store32_at:
  "store32 m a v x = (if unat (x - a) < 4 then ucast (drop_bit (8 * unat (x - a)) v) else m x)"
proof -
  consider "x = a" | "x = a + 1" | "x = a + 2" | "x = a + 3" | "\<not> unat (x - a) < 4"
  proof -
    have word: "w = of_nat k" if "unat w = k" for w :: uint32 and k
      using that by auto
    have "unat (x - a) < 4 \<Longrightarrow> unat (x - a) = 0 \<or> unat (x - a) = 1 \<or> unat (x - a) = 2 \<or> unat (x - a) = 3"
      by auto
    then have "unat (x - a) < 4 \<Longrightarrow> x - a = 0 \<or> x - a = 1 \<or> x - a = 2 \<or> x - a = 3"
      using word [of "x - a" 0] word [of "x - a" 1] word [of "x - a" 2] word [of "x - a" 3] by auto
    then show thesis using that by (metis add.commute diff_add_cancel add_0)
  qed
  then show ?thesis
    by cases (auto simp: store32_def)
qed

lemma offset4:
  fixes x a :: uint32
  shows "4 \<le> unat (x - a) \<Longrightarrow> unat (x - (a + 4)) = unat (x - a) - 4"
    and "unat (x - a) < 4 \<Longrightarrow> 2 ^ 32 - 4 \<le> unat (x - (a + 4))"
proof -
  define y where "y = x - a"
  have y: "x - (a + 4) = y - 4" by (simp add: y_def)
  show "unat (x - (a + 4)) = unat (x - a) - 4" if "4 \<le> unat (x - a)"
    unfolding y y_def [symmetric] using that by (simp add: unat_sub_if' y_def)
  show "2 ^ 32 - 4 \<le> unat (x - (a + 4))" if "unat (x - a) < 4"
    unfolding y using that by (simp add: unat_sub_if' flip: y_def)
qed

lemma stosl_at:
  "4 * n \<le> 2 ^ 32 \<Longrightarrow> stosl m a v n x =
     (if unat (x - a) < 4 * n then ucast (drop_bit (8 * (unat (x - a) mod 4)) v) else m x)"
proof (induction n arbitrary: m a)
  case 0
  then show ?case by simp
next
  case (Suc n)
  then have IH: "stosl m a v (Suc n) x = (if unat (x - (a + 4)) < 4 * n
      then ucast (drop_bit (8 * (unat (x - (a + 4)) mod 4)) v) else store32 m a v x)"
    by simp
  show ?case
  proof (cases "unat (x - a) < 4")
    case True
    then have "\<not> unat (x - (a + 4)) < 4 * n" using offset4(2) [OF True] Suc.prems by simp
    with True show ?thesis unfolding IH store32_at by simp
  next
    case False
    then have "unat (x - (a + 4)) = unat (x - a) - 4" by (intro offset4(1)) simp
    with False show ?thesis unfolding IH store32_at by (auto simp: le_mod_geq)
  qed
qed

lemma byte_word:
  fixes c :: uint32
  assumes "k < 4"
  shows "(ucast (drop_bit (8 * k) (push_bit 24 (c AND 0xFF) OR push_bit 16 (c AND 0xFF) OR push_bit 8 (c AND 0xFF) OR (c AND 0xFF))) :: uchar)
    = ucast c"
proof -
  have "k = 0 \<or> k = 1 \<or> k = 2 \<or> k = 3" using assms by auto
  moreover have mask: "(0xFF :: uint32) = mask 8" by (simp add: mask_eq_exp_minus_1)
  ultimately show ?thesis
    unfolding mask by (elim disjE; simp; intro bit_word_eqI) (auto simp: bit_simps)
qed

lemma memset_at:
  "memset m dst c n x = (if unat (x - dst) < unat n then ucast c else m x)"
proof (cases "dst mod 4 = 0 \<and> n mod 4 = 0")
  case True
  have n: "4 * unat (n div 4) = unat n"
  proof -
    have "unat n mod 4 = 0" using True unat_mod [of n 4] by simp
    then show ?thesis using mult_div_mod_eq [of 4 "unat n"] by (simp add: unat_div)
  qed
  have "unat n \<le> 2 ^ 32" using unsigned_less [of n, where ?'a = nat] by simp
  then have len: "4 * unat (n div 4) \<le> 2 ^ 32" by (simp only: n)
  have "memset m dst c n x = (if unat (x - dst) < unat n then ucast (drop_bit (8 * (unat (x - dst) mod 4))
      (push_bit 24 (c AND 0xFF) OR push_bit 16 (c AND 0xFF) OR push_bit 8 (c AND 0xFF) OR (c AND 0xFF))) else m x)"
    unfolding memset_def Let_def if_P [OF True] stosl_at [OF len] n ..
  then show ?thesis by (simp only: byte_word mod_less_divisor zero_less_numeral)
next
  case False
  have "unat n \<le> 2 ^ 32" using unsigned_less [of n, where ?'a = nat] by simp
  then show ?thesis unfolding memset_def if_not_P [OF False] by (rule stosb_at)
qed

lemma copy_up_at:
  "n \<le> 2 ^ 32 \<Longrightarrow> (\<And>k. 0 < k \<Longrightarrow> k < n \<Longrightarrow> \<forall>j<k. s + of_nat k \<noteq> d + of_nat j) \<Longrightarrow>
     copy_up m d s n x = (if unat (x - d) < n then m (s + (x - d)) else m x)"
proof (induction n arbitrary: m d s)
  case 0
  then show ?case by simp
next
  case (Suc n)
  have "copy_up m d s (Suc n) x =
      (if unat (x - (d + 1)) < n then (m(d := m s)) (s + 1 + (x - (d + 1))) else (m(d := m s)) x)"
  proof -
    have "\<forall>j<k. (s + 1) + of_nat k \<noteq> (d + 1) + of_nat j" if "0 < k" "k < n" for k
      using Suc.prems(2) [of "Suc k"] that by (auto simp: algebra_simps)
    then show ?thesis using Suc by simp
  qed
  also have "s + 1 + (x - (d + 1)) = s + (x - d)" by simp
  also have "(if unat (x - (d + 1)) < n then (m(d := m s)) (s + (x - d)) else (m(d := m s)) x) =
      (if unat (x - d) < Suc n then m (s + (x - d)) else m x)"
  proof (cases "x = d")
    case True
    then show ?thesis using Suc.prems(1) by (simp add: offset_step)
  next
    case False
    have "s + (x - d) \<noteq> d" if "unat (x - d) < Suc n"
      using Suc.prems(2) [of "unat (x - d)"] that False unat_eq_0 [of "x - d"] by auto
    with False show ?thesis using unat_eq_0 [of "x - d"] by (auto simp: offset_step)
  qed
  finally show ?case .
qed

text \<open>The backward loop is the forward loop on mirrored addresses.\<close>

lemma copy_down_at:
  "n \<le> 2 ^ 32 \<Longrightarrow> (\<And>k. 0 < k \<Longrightarrow> k < n \<Longrightarrow> \<forall>j<k. s - of_nat k \<noteq> d - of_nat j) \<Longrightarrow>
     copy_down m (d + 1) (s + 1) n x = (if unat (d - x) < n then m (s - (d - x)) else m x)"
proof (induction n arbitrary: m d s)
  case 0
  then show ?case by simp
next
  case (Suc n)
  have step: "unat (d - 1 - x) = (if x = d then 2 ^ 32 - 1 else unat (d - x) - 1)"
    using offset_step [of d x] by (simp add: algebra_simps)
  have "copy_down m (d + 1) (s + 1) (Suc n) x =
      (if unat (d - 1 - x) < n then (m(d := m s)) (s - 1 - (d - 1 - x)) else (m(d := m s)) x)"
  proof -
    have "\<forall>j<k. (s - 1) - of_nat k \<noteq> (d - 1) - of_nat j" if "0 < k" "k < n" for k
      using Suc.prems(2) [of "Suc k"] that by (auto simp: algebra_simps)
    then have "copy_down (m(d := m s)) (d - 1 + 1) (s - 1 + 1) n x =
        (if unat (d - 1 - x) < n then (m(d := m s)) (s - 1 - (d - 1 - x)) else (m(d := m s)) x)"
      using Suc.prems(1) by (intro Suc.IH) simp_all
    moreover have "copy_down m (d + 1) (s + 1) (Suc n) = copy_down (m(d := m s)) (d - 1 + 1) (s - 1 + 1) n" by simp
    ultimately show ?thesis by (simp only:)
  qed
  also have "s - 1 - (d - 1 - x) = s - (d - x)" by simp
  also have "(if unat (d - 1 - x) < n then (m(d := m s)) (s - (d - x)) else (m(d := m s)) x) =
      (if unat (d - x) < Suc n then m (s - (d - x)) else m x)"
  proof (cases "x = d")
    case True
    then show ?thesis using Suc.prems(1) by (simp add: step)
  next
    case False
    have "s - (d - x) \<noteq> d" if "unat (d - x) < Suc n"
      using Suc.prems(2) [of "unat (d - x)"] that False unat_eq_0 [of "d - x"] by auto
    with False show ?thesis using unat_eq_0 [of "d - x"] by (auto simp: step)
  qed
  finally show ?case .
qed

lemma add_of_nat_inj:
  fixes s d :: uint32
  assumes "s + of_nat k = d + of_nat j" "unat s + k < 2 ^ 32" "unat d + j < 2 ^ 32"
  shows "unat s + k = unat d + j"
proof -
  have "unat (s + of_nat k) = unat s + k" "unat (d + of_nat j) = unat d + j"
    using assms(2,3) by (simp_all add: unat_word_ariths unat_of_nat)
  with assms(1) show ?thesis by simp
qed

lemma mirror_less:
  fixes n y :: uint32
  assumes "0 < unat n"
  shows "unat (n - 1 - y) < unat n \<longleftrightarrow> unat y < unat n"
proof -
  have "unat (n - 1) = unat n - 1" using assms by (intro unat_minus_one) auto
  moreover have "unat y < 2 ^ 32" using unsigned_less [of y, where ?'a = nat] by simp
  ultimately show ?thesis
    using assms unat_sub_if' [of "n - 1" y] by (auto split: if_splits)
qed

section \<open>Properties\<close>

text \<open>
  C21: memmove is correct for overlapping ranges too: when neither range wraps around the address
  space, every destination byte gets the value its source byte had before the call, whichever
  direction the copy loop runs, and no other byte changes.
\<close>

theorem memmove_overlap_correct:
  assumes "unat src + unat n \<le> 2 ^ 32" "unat dst + unat n \<le> 2 ^ 32"
  shows "memmove m dst src n x = (if unat (x - dst) < unat n then m (src + (x - dst)) else m x)"
proof (cases "src < dst \<and> src + n > dst")
  case True
  then have "n \<noteq> 0" by auto
  then have n: "0 < unat n" using unat_eq_0 [of n] by linarith
  let ?d = "dst + n - 1" and ?s = "src + n - 1"
  have "copy_down m (?d + 1) (?s + 1) (unat n) x =
      (if unat (?d - x) < unat n then m (?s - (?d - x)) else m x)"
  proof (rule copy_down_at)
    show "unat n \<le> 2 ^ 32" using assms(1) by simp
    fix k assume k: "0 < k" "k < unat n"
    show "\<forall>j<k. ?s - of_nat k \<noteq> ?d - of_nat j"
    proof (intro allI impI notI)
      fix j assume j: "j < k" and eq: "?s - of_nat k = ?d - of_nat j"
      then have "src + of_nat j = dst + of_nat k" by (simp add: algebra_simps)
      then have "unat src + j = unat dst + k"
        using assms j k by (intro add_of_nat_inj) simp_all
      with True j show False by (simp add: word_less_nat_alt)
    qed
  qed
  moreover have "?d - x = n - 1 - (x - dst)" by simp
  then have "unat (?d - x) < unat n \<longleftrightarrow> unat (x - dst) < unat n"
    by (simp only: mirror_less [OF n])
  moreover have "?s - (?d - x) = src + (x - dst)" by simp
  ultimately show ?thesis using True by (simp add: memmove_def)
next
  case False
  have "copy_up m dst src (unat n) x = (if unat (x - dst) < unat n then m (src + (x - dst)) else m x)"
  proof (rule copy_up_at)
    show "unat n \<le> 2 ^ 32" using assms(1) by simp
    fix k assume k: "0 < k" "k < unat n"
    show "\<forall>j<k. src + of_nat k \<noteq> dst + of_nat j"
    proof (intro allI impI notI)
      fix j assume j: "j < k" and eq: "src + of_nat k = dst + of_nat j"
      then have e: "unat src + k = unat dst + j"
        using assms k by (intro add_of_nat_inj) simp_all
      with j have "src < dst" by (simp add: word_less_nat_alt)
      with False have "unat (src + n) \<le> unat dst" by (simp add: word_less_nat_alt)
      moreover have "unat (src + n) = unat src + unat n"
        using e assms j k by (simp add: unat_word_ariths)
      ultimately show False using e k by simp
    qed
  qed
  then show ?thesis unfolding memmove_def if_not_P [OF False] .
qed

theorem memmove_overlap_correct_witness: "memmove (\<lambda>a. ucast a) 1 0 3 3 = 2"
  using memmove_overlap_correct [of 0 3 1 "\<lambda>a. ucast a" 3] by simp

text \<open>
  C22: memset fills exactly the n bytes from dst with the low byte of c, whether it stores bytes or
  (for an aligned range) whole words.
\<close>

theorem memset_fills: "memset m dst c n x = (if unat (x - dst) < unat n then ucast c else m x)"
  by (rule memset_at)

lemma safestrcpy_loop_spec:
  assumes "n < 2 ^ 32" "\<And>j k. j \<le> n \<Longrightarrow> k \<le> n \<Longrightarrow> t + of_nat j \<noteq> s + of_nat k"
  shows "\<exists>k\<le>n. (\<forall>j<k. safestrcpy_loop m s t n (s + of_nat j) = m (t + of_nat j) \<and> m (t + of_nat j) \<noteq> 0) \<and>
    safestrcpy_loop m s t n (s + of_nat k) = 0 \<and> (k = n \<or> m (t + of_nat k) = 0) \<and>
    (\<forall>x. n < unat (x - s) \<longrightarrow> safestrcpy_loop m s t n x = m x)"
  using assms
proof (induction n arbitrary: m s t)
  case 0
  then show ?case by auto
next
  case (Suc n)
  let ?m = "m(s := m t)"
  show ?case
  proof (cases "m t = 0")
    case True
    have "s + 1 \<noteq> s" by simp
    then show ?thesis
      using True by (intro exI [of _ 0]) (auto simp: unat_eq_0)
  next
    case False
    have shift: "(t + 1) + of_nat j \<noteq> (s + 1) + of_nat k" if "j \<le> n" "k \<le> n" for j k
      using Suc.prems(2) [of "Suc j" "Suc k"] that by (simp add: algebra_simps)
    have "n < 2 ^ 32" using Suc.prems(1) by simp
    from Suc.IH [OF this shift, of ?m] obtain k where k: "k \<le> n"
      "\<And>j. j < k \<Longrightarrow> safestrcpy_loop ?m (s + 1) (t + 1) n (s + 1 + of_nat j) = ?m (t + 1 + of_nat j) \<and> ?m (t + 1 + of_nat j) \<noteq> 0"
      "safestrcpy_loop ?m (s + 1) (t + 1) n (s + 1 + of_nat k) = 0" "k = n \<or> ?m (t + 1 + of_nat k) = 0"
      "\<And>x. n < unat (x - (s + 1)) \<Longrightarrow> safestrcpy_loop ?m (s + 1) (t + 1) n x = ?m x"
      by blast
    have src: "?m (t + 1 + of_nat j) = m (t + 1 + of_nat j)" if "j \<le> n" for j
      using Suc.prems(2) [of "Suc j" 0] that by (simp add: algebra_simps)
    have loop: "safestrcpy_loop m s t (Suc n) = safestrcpy_loop ?m (s + 1) (t + 1) n"
      using False by (simp add: Let_def)
    have at0: "safestrcpy_loop ?m (s + 1) (t + 1) n s = m t"
      using k(5) [of s] Suc.prems(1) offset_step [of s s] by simp
    have "safestrcpy_loop m s t (Suc n) (s + of_nat j) = m (t + of_nat j) \<and> m (t + of_nat j) \<noteq> 0" if "j < Suc k" for j
    proof (cases j)
      case 0
      then show ?thesis using False at0 loop by simp
    next
      case (Suc i)
      then show ?thesis using k(1) k(2) [of i] src [of i] that loop by (simp add: algebra_simps)
    qed
    moreover have "safestrcpy_loop m s t (Suc n) (s + of_nat (Suc k)) = 0"
      using k(3) loop by (simp add: algebra_simps)
    moreover have "Suc k = Suc n \<or> m (t + of_nat (Suc k)) = 0"
      using k(1,4) src [of k] by (simp add: algebra_simps)
    moreover have "safestrcpy_loop m s t (Suc n) x = m x" if "Suc n < unat (x - s)" for x
    proof -
      have "x \<noteq> s" using that by auto
      then show ?thesis using k(5) [of x] that loop offset_step [of x s] by simp
    qed
    ultimately show ?thesis using k(1) by (intro exI [of _ "Suc k"]) simp
  qed
qed

text \<open>
  C23: safestrcpy(s, t, n) with n positive always leaves a NUL-terminated string within the n
  bytes of s: it copies the bytes of t up to its end or up to n-1 bytes, terminates them, and
  touches nothing outside the n bytes.
\<close>

theorem safestrcpy_terminates:
  assumes "0 < n" "n < 2 ^ 31" "\<forall>j<nat n. \<forall>k<nat n. t + of_nat j \<noteq> s + of_nat k"
  shows "\<exists>k<nat n. (\<forall>j<k. safestrcpy m s t n (s + of_nat j) = m (t + of_nat j) \<and> m (t + of_nat j) \<noteq> 0) \<and>
    safestrcpy m s t n (s + of_nat k) = 0 \<and> (k = nat n - 1 \<or> m (t + of_nat k) = 0) \<and>
    (\<forall>x. nat n \<le> unat (x - s) \<longrightarrow> safestrcpy m s t n x = m x)"
proof -
  have n: "nat (n - 1) < 2 ^ 32" "nat n = Suc (nat (n - 1))" using assms(1,2) by auto
  have "t + of_nat j \<noteq> s + of_nat k" if "j \<le> nat (n - 1)" "k \<le> nat (n - 1)" for j k
    using assms(3) that n(2) by simp
  from safestrcpy_loop_spec [OF n(1) this] show ?thesis
    using assms(1) n(2) by (auto simp: safestrcpy_def less_Suc_eq_le Suc_le_eq)
qed

theorem safestrcpy_terminates_witness: "safestrcpy (\<lambda>a. 7) 100 0 2 101 = 0"
proof -
  have "\<forall>j<nat 2. \<forall>k<nat 2. (0::uint32) + of_nat j \<noteq> 100 + of_nat k"
    by (auto simp: less_2_cases_iff)
  from safestrcpy_terminates [of 2 0 100 "\<lambda>a. 7", OF _ _ this] show ?thesis by auto
qed

end
