(* ===== verification/Bytes.thy ===== *)
theory Bytes
  imports Prelude
begin

text \<open>
  Reading and writing little-endian 16 and 32 bit values in a list of bytes, as the kernel does
  when it casts a pointer into a disk block to a pointer to a structure.
\<close>

unbundle bit_operations_syntax

type_synonym ushort = "16 word"

definition get_bytes :: "nat \<Rightarrow> nat \<Rightarrow> 'a list \<Rightarrow> 'a list" where
  "get_bytes off n b = take n (drop off b)"

definition put_bytes :: "nat \<Rightarrow> 'a list \<Rightarrow> 'a list \<Rightarrow> 'a list" where
  "put_bytes off xs b = take off b @ xs @ drop (off + length xs) b"

definition le32 :: "uchar list \<Rightarrow> uint32" where
  "le32 xs = ucast (xs ! 0) OR push_bit 8 (ucast (xs ! 1)) OR push_bit 16 (ucast (xs ! 2)) OR push_bit 24 (ucast (xs ! 3))"

definition un32 :: "uint32 \<Rightarrow> uchar list" where
  "un32 w = [ucast w, ucast (drop_bit 8 w), ucast (drop_bit 16 w), ucast (drop_bit 24 w)]"

definition le16 :: "uchar list \<Rightarrow> ushort" where
  "le16 xs = ucast (xs ! 0) OR push_bit 8 (ucast (xs ! 1))"

definition un16 :: "ushort \<Rightarrow> uchar list" where
  "un16 w = [ucast w, ucast (drop_bit 8 w)]"

definition get32 :: "nat \<Rightarrow> uchar list \<Rightarrow> uint32" where
  "get32 off b = le32 (get_bytes off 4 b)"

definition put32 :: "nat \<Rightarrow> uint32 \<Rightarrow> uchar list \<Rightarrow> uchar list" where
  "put32 off v b = put_bytes off (un32 v) b"

definition get16 :: "nat \<Rightarrow> uchar list \<Rightarrow> ushort" where
  "get16 off b = le16 (get_bytes off 2 b)"

definition put16 :: "nat \<Rightarrow> ushort \<Rightarrow> uchar list \<Rightarrow> uchar list" where
  "put16 off v b = put_bytes off (un16 v) b"

section \<open>Lemmas\<close>

lemma length_put_bytes [simp]: "off + length xs \<le> length b \<Longrightarrow> length (put_bytes off xs b) = length b"
  by (simp add: put_bytes_def)

lemma get_put_same [simp]: "off + length xs \<le> length b \<Longrightarrow> n = length xs \<Longrightarrow> get_bytes off n (put_bytes off xs b) = xs"
  by (simp add: get_bytes_def put_bytes_def)

lemma get_put_other:
  assumes "off + length xs \<le> length b" "i + n \<le> off \<or> off + length xs \<le> i"
  shows "get_bytes i n (put_bytes off xs b) = get_bytes i n b"
  using assms(2)
proof
  assume "i + n \<le> off"
  then show ?thesis using assms(1) by (simp add: get_bytes_def put_bytes_def drop_take)
next
  assume i: "off + length xs \<le> i"
  then have "drop i (put_bytes off xs b) = drop i b"
    using assms(1) by (simp add: put_bytes_def)
  then show ?thesis by (simp add: get_bytes_def)
qed

lemma length_un [simp]: "length (un32 v) = 4" "length (un16 w) = 2"
  by (simp_all add: un32_def un16_def)

lemma le32_un32 [simp]: "le32 (un32 v) = v"
proof (rule bit_word_eqI)
  fix n assume "n < LENGTH(32)"
  then have n: "n < 32" by simp
  have "n < 8 \<or> (8 \<le> n \<and> n < 16) \<or> (16 \<le> n \<and> n < 24) \<or> (24 \<le> n \<and> n < 32)" using n by linarith
  then show "bit (le32 (un32 v)) n \<longleftrightarrow> bit v n"
    using n by (auto simp: le32_def un32_def bit_simps)
qed

lemma le16_un16 [simp]: "le16 (un16 v) = v"
proof (rule bit_word_eqI)
  fix n assume "n < LENGTH(16)"
  then have n: "n < 16" by simp
  have "n < 8 \<or> (8 \<le> n \<and> n < 16)" using n by linarith
  then show "bit (le16 (un16 v)) n \<longleftrightarrow> bit v n"
    using n by (auto simp: le16_def un16_def bit_simps)
qed

lemma length_put32 [simp]: "off + 4 \<le> length b \<Longrightarrow> length (put32 off v b) = length b"
  and length_put16 [simp]: "off + 2 \<le> length b \<Longrightarrow> length (put16 off w b) = length b"
  by (simp_all add: put32_def put16_def)

lemma get32_put32: "off + 4 \<le> length b \<Longrightarrow> get32 off (put32 off v b) = v"
  by (simp add: get32_def put32_def)

lemma get16_put16: "off + 2 \<le> length b \<Longrightarrow> get16 off (put16 off v b) = v"
  by (simp add: get16_def put16_def)

lemma get32_put32_other: "off + 4 \<le> length b \<Longrightarrow> i + 4 \<le> off \<or> off + 4 \<le> i \<Longrightarrow> get32 i (put32 off v b) = get32 i b"
  by (simp add: get32_def put32_def get_put_other)

end
