(* ===== verification/Sleeplock.thy ===== *)
theory Sleeplock
  imports Proc
begin

text \<open>
  Sleep locks (\<open>sleeplock.c\<close>). The locks of the buffers and of the in-memory inodes are kept in one
  map from their identity to the structure; the spinlock inside a sleep lock and the channel its
  waiters sleep on are given by the identity. A caller that finds the lock taken ends in
  \<open>Block\<close>; when it is woken it runs the same test again.
\<close>

record sleeplock =
  sl_locked :: bool
  sl_pid :: int

datatype slid = SlBuf nat | SlInode nat

record slp_state = proc_state +
  slocks :: "slid \<Rightarrow> sleeplock"

primrec sl_lk :: "slid \<Rightarrow> lock" where
  "sl_lk (SlBuf i) = LkBuf i"
| "sl_lk (SlInode i) = LkInode i"

primrec sl_chan :: "slid \<Rightarrow> chan" where
  "sl_chan (SlBuf i) = ChBuf i"
| "sl_chan (SlInode i) = ChInode i"

definition initsleeplock :: "slid \<Rightarrow> 'a slp_state_scheme \<Rightarrow> 'a slp_state_scheme" where
  "initsleeplock l s = s\<lparr>slocks := (slocks s)(l := \<lparr>sl_locked = False, sl_pid = 0\<rparr>)\<rparr>"

definition acquiresleep :: "slid \<Rightarrow> 'a slp_state_scheme \<Rightarrow> (unit, 'a slp_state_scheme) outcome" where
  "acquiresleep l s =
     kbind (acquire (sl_lk l) s) (\<lambda>_ s.
     if sl_locked (slocks s l) then sleep (sl_chan l) (sl_lk l) s
     else
       case myproc s of
         None \<Rightarrow> Fault
       | Some p \<Rightarrow>
           let s = s\<lparr>slocks := (slocks s)(l := \<lparr>sl_locked = True, sl_pid = p_pid (slot s p)\<rparr>)\<rparr>
           in release (sl_lk l) s)"

definition releasesleep :: "slid \<Rightarrow> 'a slp_state_scheme \<Rightarrow> (unit, 'a slp_state_scheme) outcome" where
  "releasesleep l s =
     kbind (acquire (sl_lk l) s) (\<lambda>_ s.
     let s = s\<lparr>slocks := (slocks s)(l := \<lparr>sl_locked = False, sl_pid = 0\<rparr>)\<rparr>
     in kbind (wakeup (sl_chan l) s) (\<lambda>_ s. release (sl_lk l) s))"

definition holdingsleep :: "slid \<Rightarrow> 'a slp_state_scheme \<Rightarrow> (bool, 'a slp_state_scheme) outcome" where
  "holdingsleep l s =
     kbind (acquire (sl_lk l) s) (\<lambda>_ s.
     kbind (if sl_locked (slocks s l)
            then case myproc s of None \<Rightarrow> Fault | Some p \<Rightarrow> Ret (sl_pid (slocks s l) = p_pid (slot s p)) s
            else Ret False s) (\<lambda>r s.
     kbind (release (sl_lk l) s) (\<lambda>_ s. Ret r s)))"

section \<open>Lemmas\<close>

text \<open>What system calls rely on: a current process, the table invariant and no spinlock held.\<close>

definition in_proc :: "nat \<Rightarrow> 'a proc_state_scheme \<Rightarrow> bool" where
  "in_proc p s \<longleftrightarrow> sched_inv {} s \<and> held s = [] \<and> cpu_proc s = Some p \<and> p < NPROC \<and>
     p_state (slot s p) = RUNNING"

lemma in_procD:
  assumes "in_proc p s"
  shows "sched_inv {} s" "held s = []" "cpu_proc s = Some p" "p < NPROC" "myproc s = Some p"
    "p_state (slot s p) = RUNNING"
  using assms by (auto simp: in_proc_def myproc_def)

lemma in_proc_cong:
  assumes "ptable s' = ptable s" "nextpid s' = nextpid s" "sched_cfg s' = sched_cfg s"
    "queue_ptr s' = queue_ptr s" "q_latest_idx s' = q_latest_idx s" "held s' = held s" "cpu_proc s' = cpu_proc s"
  shows "in_proc p s' = in_proc p s"
  using assms sched_inv_cong [OF assms(1-5), of "{}"] by (simp add: in_proc_def)

lemma in_proc_slocks [simp]: "in_proc p (s\<lparr>slocks := l\<rparr>) = in_proc p s"
  by (rule in_proc_cong) simp_all

definition holds :: "slid \<Rightarrow> nat \<Rightarrow> 'a slp_state_scheme \<Rightarrow> bool" where
  "holds l p s \<longleftrightarrow> slocks s l = \<lparr>sl_locked = True, sl_pid = pid_of s p\<rparr>"

lemma acquiresleep_free:
  assumes "in_proc p s" "\<not> sl_locked (slocks s l)"
  shows "acquiresleep l s = Ret () (s\<lparr>slocks := (slocks s)(l := \<lparr>sl_locked = True, sl_pid = pid_of s p\<rparr>)\<rparr>)"
  using in_procD [OF assms(1)] assms(2) by (simp add: acquiresleep_def Let_def myproc_def)

lemma table_frame_slocks: "table_frame s s' \<Longrightarrow> slocks s' = slocks s"
  by (cases s; cases s') (simp add: table_frame_def)

lemma sleep_in_proc:
  assumes "in_proc p s"
  shows "\<exists>s'. sleep c lk (s\<lparr>held := [lk]\<rparr>) = Block c s' \<and> sleeps_on c (slot s' p) \<and> held s' = [LkPtable] \<and>
     proc_state.more s' = proc_state.more s"
proof -
  let ?s = "s\<lparr>held := [lk]\<rparr>"
  have "cpu_proc ?s = Some p" "held ?s = [lk]" "sched_inv {} ?s" "p_state (slot ?s p) = RUNNING"
    using in_procD [OF assms] by simp_all
  from sleep_Block [OF this(1,2) in_procD(4) [OF assms] this(3,4), of c]
  obtain s' where s': "sleep c lk ?s = Block c s'" "held s' = [LkPtable]" "table_frame (?s\<lparr>held := [LkPtable]\<rparr>) s'"
    "ptable s' = (ptable s)[p := (slot s p)\<lparr>p_chan := c, p_state := SLEEPING, p_context := CtxSched\<rparr>]"
    by auto
  moreover have "proc_state.more s' = proc_state.more s" using s'(3) by (simp add: table_frame_def)
  moreover have "p < length (ptable s)" using in_procD(1,4) [OF assms] by simp
  ultimately show ?thesis by (intro exI [of _ s']) (simp add: sleeps_on_def)
qed

lemma proc_more_slocks: "proc_state.more t = proc_state.more s \<Longrightarrow> slocks t = slocks s"
  by (cases s rule: slp_state.cases_scheme, cases t rule: slp_state.cases_scheme, hypsubst) simp

lemma acquiresleep_taken:
  assumes "in_proc p s" "sl_locked (slocks s l)"
  shows "\<exists>s'. acquiresleep l s = Block (sl_chan l) s' \<and> sleeps_on (sl_chan l) (slot s' p) \<and> slocks s' = slocks s"
  using sleep_in_proc [OF assms(1), of "sl_chan l" "sl_lk l"] assms(2) in_procD(2) [OF assms(1)] proc_more_slocks
  by (auto simp: acquiresleep_def)

lemma releasesleep_spec:
  assumes "in_proc p s"
  shows "\<exists>s'. releasesleep l s = Ret () s' \<and> in_proc p s' \<and> slot s' p = slot s p \<and>
     slocks s' = (slocks s)(l := \<lparr>sl_locked = False, sl_pid = 0\<rparr>) \<and> freelist s' = freelist s \<and> mem s' = mem s \<and>
     ticks s' = ticks s \<and> initproc s' = initproc s \<and> slp_state.more s' = slp_state.more s"
proof -
  note P = in_procD [OF assms]
  let ?s = "s\<lparr>held := [sl_lk l], slocks := (slocks s)(l := \<lparr>sl_locked = False, sl_pid = 0\<rparr>)\<rparr>"
  have "sched_inv {} ?s" using P(1) sched_inv_cong [of ?s s "{}"] by simp
  moreover have "LkPtable \<notin> set (held ?s)" by (cases l) simp_all
  ultimately obtain t where t: "wakeup (sl_chan l) ?s = Ret () t" "woken_upto NPROC (sl_chan l) ?s t"
    using wakeup_spec by blast
  have fr: "table_frame ?s t" "sched_inv {} t" "slot t p = slot s p"
    using t(2) P(4,6) by (auto simp: woken_upto_def sleeps_on_def)
  have eq: "held t = [sl_lk l]" "slocks t = (slocks s)(l := \<lparr>sl_locked = False, sl_pid = 0\<rparr>)" "freelist t = freelist s" "mem t = mem s"
     "ticks t = ticks s" "initproc t = initproc s" "cpu_proc t = cpu_proc s" "slp_state.more t = slp_state.more s"
    using fr(1) by (cases s; cases t; simp add: table_frame_def)+
  let ?u = "t\<lparr>held := []\<rparr>"
  have "releasesleep l s = Ret () ?u"
    using t(1) P(2) eq(1) by (simp add: releasesleep_def)
  moreover have "sched_inv {} ?u" using fr(2) sched_inv_cong [of ?u t "{}"] by simp
  ultimately show ?thesis
    using eq fr(3) P by (intro exI [of _ ?u]) (simp add: in_proc_def)
qed

lemma wakeup_held:
  assumes "in_proc p s" "lk \<noteq> LkPtable"
  shows "\<exists>t. wakeup c (s\<lparr>held := [lk]\<rparr>) = Ret () (t\<lparr>held := [lk]\<rparr>) \<and> in_proc p t \<and> slot t p = slot s p \<and>
     freelist t = freelist s \<and> mem t = mem s \<and> ticks t = ticks s \<and> initproc t = initproc s \<and>
     proc_state.more t = proc_state.more s"
proof -
  note P = in_procD [OF assms(1)]
  let ?s = "s\<lparr>held := [lk]\<rparr>"
  have "sched_inv {} ?s" using P(1) sched_inv_cong [of ?s s "{}"] by simp
  moreover have "LkPtable \<notin> set (held ?s)" using assms(2) by simp
  ultimately obtain t where t: "wakeup c ?s = Ret () t" "woken_upto NPROC c ?s t"
    using wakeup_spec by blast
  have fr: "table_frame ?s t" "sched_inv {} t" "slot t p = slot s p"
    using t(2) P(4,6) by (auto simp: woken_upto_def sleeps_on_def)
  have eq: "held t = [lk]" "freelist t = freelist s" "mem t = mem s"
     "ticks t = ticks s" "initproc t = initproc s" "cpu_proc t = cpu_proc s" "proc_state.more t = proc_state.more s"
    using fr(1) by (simp_all add: table_frame_def)
  let ?u = "t\<lparr>held := []\<rparr>"
  have u: "?u\<lparr>held := [lk]\<rparr> = t" using eq(1) by simp
  have "sched_inv {} ?u" using fr(2) sched_inv_cong [of ?u t "{}"] by simp
  then have "in_proc p ?u" using eq(6) fr(3) P by (simp add: in_proc_def)
  then show ?thesis using t(1) u eq fr(3) by (intro exI [of _ ?u]) simp
qed

lemma wakeup_keeps:
  assumes "in_proc p s" "lk \<noteq> LkPtable"
  shows "\<exists>s'. kbind (wakeup c (s\<lparr>held := [lk]\<rparr>)) (\<lambda>_. release lk) = Ret () s' \<and> in_proc p s' \<and> slot s' p = slot s p \<and>
     freelist s' = freelist s \<and> mem s' = mem s \<and> ticks s' = ticks s \<and> initproc s' = initproc s \<and>
     proc_state.more s' = proc_state.more s"
proof -
  obtain t where t: "wakeup c (s\<lparr>held := [lk]\<rparr>) = Ret () (t\<lparr>held := [lk]\<rparr>)" "in_proc p t" "slot t p = slot s p"
    "freelist t = freelist s" "mem t = mem s" "ticks t = ticks s" "initproc t = initproc s"
    "proc_state.more t = proc_state.more s" using wakeup_held [OF assms] by blast
  moreover have "release lk (t\<lparr>held := [lk]\<rparr>) = Ret () t" using in_procD(2) [OF t(2)] by simp
  ultimately show ?thesis by auto
qed

end
