(* ===== verification/Block_Cache.thy ===== *)
theory Block_Cache
  imports Prelude
begin

text \<open>
  The contract of a block cache for the layers above it. A state has a view (what reading a block
  gives), a disk with the trace of the writes to it, the blocks that are held and the blocks kept
  in memory for the log; \<open>has n i s\<close> says that the caller holds block \<open>n\<close> in buffer \<open>i\<close>.
\<close>

locale block_cache =
  fixes rd :: "uint32 \<Rightarrow> 's \<Rightarrow> (nat, 's) outcome"
    and wr :: "nat \<Rightarrow> 's \<Rightarrow> (unit, 's) outcome"
    and rel :: "nat \<Rightarrow> 's \<Rightarrow> (unit, 's) outcome"
    and setd :: "nat \<Rightarrow> 'b \<Rightarrow> 's \<Rightarrow> 's"
    and data :: "'s \<Rightarrow> nat \<Rightarrow> 'b"
    and inv :: "'s \<Rightarrow> bool"
    and frame :: "'s \<Rightarrow> 's \<Rightarrow> bool"
    and has :: "nat \<Rightarrow> nat \<Rightarrow> 's \<Rightarrow> bool"
    and view :: "'s \<Rightarrow> nat \<Rightarrow> 'b"
    and disk :: "'s \<Rightarrow> nat \<Rightarrow> 'b"
    and trace :: "'s \<Rightarrow> (nat \<times> 'b) list"
    and holding :: "'s \<Rightarrow> nat set"
    and pinned :: "'s \<Rightarrow> nat set"
    and size :: "'s \<Rightarrow> nat"
    and cap :: nat
  assumes frame_trans: "frame s t \<Longrightarrow> frame t u \<Longrightarrow> frame s u"
    and frame_size: "frame s t \<Longrightarrow> size t = size s"
    and finite_pinned: "inv s \<Longrightarrow> finite (holding s \<union> pinned s)"
    and data_has: "inv s \<Longrightarrow> has n i s \<Longrightarrow> data s i = view s n"
    and has_unique: "inv s \<Longrightarrow> has n i s \<Longrightarrow> has m i s \<Longrightarrow> m = n"
    and clean: "inv s \<Longrightarrow> n \<notin> holding s \<Longrightarrow> n \<notin> pinned s \<Longrightarrow> view s n = disk s n"
    and rd_law: "inv s \<Longrightarrow> unat b < size s \<Longrightarrow> unat b \<notin> holding s \<Longrightarrow>
        unat b \<in> pinned s \<or> card (holding s \<union> pinned s) < cap \<Longrightarrow>
        \<exists>i s'. rd b s = Ret i s' \<and> inv s' \<and> frame s s' \<and> has (unat b) i s' \<and> view s' = view s \<and> disk s' = disk s \<and>
          trace s' = trace s \<and> holding s' = insert (unat b) (holding s) \<and> pinned s' = pinned s \<and>
          (\<forall>m j. has m j s \<longrightarrow> has m j s')"
    and setd_law: "inv s \<Longrightarrow> has n i s \<Longrightarrow>
        inv (setd i d s) \<and> frame s (setd i d s) \<and> view (setd i d s) = (view s)(n := d) \<and> disk (setd i d s) = disk s \<and>
        trace (setd i d s) = trace s \<and> holding (setd i d s) = holding s \<and> pinned (setd i d s) = pinned s \<and>
        (\<forall>m j. has m j s \<longrightarrow> has m j (setd i d s))"
    and wr_law: "inv s \<Longrightarrow> has n i s \<Longrightarrow> n < size s \<Longrightarrow>
        \<exists>s'. wr i s = Ret () s' \<and> inv s' \<and> frame s s' \<and> view s' = view s \<and> disk s' = (disk s)(n := view s n) \<and>
          trace s' = trace s @ [(n, view s n)] \<and> holding s' = holding s \<and> pinned s' = pinned s - {n} \<and>
          (\<forall>m j. has m j s \<longrightarrow> has m j s')"
    and rel_law: "inv s \<Longrightarrow> has n i s \<Longrightarrow> n \<in> pinned s \<or> view s n = disk s n \<Longrightarrow>
        \<exists>s'. rel i s = Ret () s' \<and> inv s' \<and> frame s s' \<and> view s' = view s \<and> disk s' = disk s \<and>
          trace s' = trace s \<and> holding s' = holding s - {n} \<and> pinned s' = pinned s \<and>
          (\<forall>m j. j \<noteq> i \<longrightarrow> has m j s \<longrightarrow> has m j s')"
begin

text \<open>Reading a block and giving it back changes nothing.\<close>

lemma read_release:
  assumes "inv s" "unat b < size s" "unat b \<notin> holding s" "unat b \<in> pinned s \<or> card (holding s \<union> pinned s) < cap"
  shows "\<exists>i s1 s2. rd b s = Ret i s1 \<and> frame s s1 \<and> data s1 i = view s (unat b) \<and> rel i s1 = Ret () s2 \<and>
     inv s2 \<and> frame s s2 \<and> view s2 = view s \<and> disk s2 = disk s \<and> trace s2 = trace s \<and> holding s2 = holding s \<and>
     pinned s2 = pinned s"
proof -
  from rd_law [OF assms] obtain i s1 where 1: "rd b s = Ret i s1" "inv s1" "frame s s1" "has (unat b) i s1"
    "view s1 = view s" "disk s1 = disk s" "trace s1 = trace s" "holding s1 = insert (unat b) (holding s)"
    "pinned s1 = pinned s" by blast
  have "unat b \<in> pinned s1 \<or> view s1 (unat b) = disk s1 (unat b)"
    using clean [OF assms(1,3)] 1(5,6,9) by auto
  from rel_law [OF 1(2,4) this] obtain s2 where 2: "rel i s1 = Ret () s2" "inv s2" "frame s1 s2" "view s2 = view s1"
    "disk s2 = disk s1" "trace s2 = trace s1" "holding s2 = holding s1 - {unat b}" "pinned s2 = pinned s1" by blast
  have "data s1 i = view s (unat b)" using data_has [OF 1(2,4)] 1(5) by simp
  moreover have "holding s2 = holding s" using 1(8) 2(7) assms(3) by auto
  ultimately show ?thesis
    using 1 2 frame_trans [OF 1(3) 2(3)] by (intro exI [of _ i] exI [of _ s1] exI [of _ s2]) simp
qed

text \<open>Two different blocks held at once.\<close>

lemma read_two:
  assumes "inv s" "unat a < size s" "unat b < size s" "unat a \<noteq> unat b" "holding s = {}"
    and "card (pinned s) < cap" "unat b \<in> pinned s \<or> card (pinned s) + 1 < cap"
  shows "\<exists>i s1 j s2. rd a s = Ret i s1 \<and> frame s s1 \<and> rd b s1 = Ret j s2 \<and> frame s s2 \<and> inv s2 \<and>
     has (unat a) i s2 \<and> has (unat b) j s2 \<and> view s2 = view s \<and> disk s2 = disk s \<and> trace s2 = trace s \<and>
     holding s2 = {unat a, unat b} \<and> pinned s2 = pinned s"
proof -
  have "unat a \<notin> holding s" "unat a \<in> pinned s \<or> card (holding s \<union> pinned s) < cap" using assms(5,6) by simp_all
  from rd_law [OF assms(1,2) this] obtain i s1 where 1: "rd a s = Ret i s1" "inv s1" "frame s s1" "has (unat a) i s1"
    "view s1 = view s" "disk s1 = disk s" "trace s1 = trace s" "holding s1 = {unat a}"
    "pinned s1 = pinned s" using assms(5) by auto
  have fin: "finite (pinned s)" using finite_pinned [OF assms(1)] by simp
  have "unat b < size s1" using assms(3) frame_size [OF 1(3)] by simp
  moreover have "unat b \<notin> holding s1" using 1(8) assms(4) by simp
  moreover have "card (insert (unat a) (pinned s)) \<le> card (pinned s) + 1" using card_insert_le_m1 fin
    by (simp add: card_insert_if)
  then have "unat b \<in> pinned s1 \<or> card (holding s1 \<union> pinned s1) < cap"
    using 1(8,9) assms(7) by auto
  ultimately obtain j s2 where 2: "rd b s1 = Ret j s2" "inv s2" "frame s1 s2" "has (unat b) j s2"
    "view s2 = view s1" "disk s2 = disk s1" "trace s2 = trace s1" "holding s2 = insert (unat b) (holding s1)"
    "pinned s2 = pinned s1" "\<forall>m j. has m j s1 \<longrightarrow> has m j s2" using rd_law [OF 1(2)] by blast
  have "has (unat a) i s2" "holding s2 = {unat a, unat b}" using 1(4,8) 2(8,10) by auto
  then show ?thesis using 1 2 frame_trans [OF 1(3) 2(3)]
    by (intro exI [of _ i] exI [of _ s1] exI [of _ j] exI [of _ s2]) simp
qed

text \<open>Writing to the disk what the caller put into a block, and giving it back.\<close>

lemma write_release:
  assumes "inv s" "has n i s" "n < size s"
  shows "\<exists>s1 s2. wr i (setd i d s) = Ret () s1 \<and> frame s s1 \<and> rel i s1 = Ret () s2 \<and> inv s2 \<and> frame s s2 \<and>
     view s2 = (view s)(n := d) \<and> disk s2 = (disk s)(n := d) \<and> trace s2 = trace s @ [(n, d)] \<and>
     holding s2 = holding s - {n} \<and> pinned s2 = pinned s - {n}"
proof -
  let ?t = "setd i d s"
  note t = setd_law [OF assms(1,2), of d]
  have t': "inv ?t" "has n i ?t" "n < size ?t" using t frame_size [of s ?t] assms(2,3) by simp_all
  from wr_law [OF this] obtain s1 where 1: "wr i ?t = Ret () s1" "inv s1" "frame ?t s1" "view s1 = view ?t"
    "disk s1 = (disk ?t)(n := view ?t n)" "trace s1 = trace ?t @ [(n, view ?t n)]" "holding s1 = holding ?t"
    "pinned s1 = pinned ?t - {n}" "has n i s1" using t'(2) by metis
  have "n \<in> pinned s1 \<or> view s1 n = disk s1 n" using 1(4,5) by simp
  from rel_law [OF 1(2,9) this] obtain s2 where 2: "rel i s1 = Ret () s2" "inv s2" "frame s1 s2" "view s2 = view s1"
    "disk s2 = disk s1" "trace s2 = trace s1" "holding s2 = holding s1 - {n}" "pinned s2 = pinned s1" by blast
  have "frame s s1" using t 1(3) frame_trans by blast
  with t 1 2 show ?thesis using frame_trans [OF _ 2(3)]
    by (intro exI [of _ s1] exI [of _ s2]) simp
qed

text \<open>Copying the held block \<open>a\<close> over the held block \<open>b\<close>, writing \<open>b\<close> and giving both back.\<close>

lemma copy_held:
  assumes "inv s" "has a i s" "has b j s" "a \<noteq> b" "b < size s" "a \<in> pinned s \<or> view s a = disk s a"
  shows "\<exists>s1 s2 s3. wr j (setd j (data s i) s) = Ret () s1 \<and> frame s s1 \<and> rel i s1 = Ret () s2 \<and> frame s s2 \<and>
     rel j s2 = Ret () s3 \<and> inv s3 \<and> frame s s3 \<and> view s3 = (view s)(b := view s a) \<and>
     disk s3 = (disk s)(b := view s a) \<and> trace s3 = trace s @ [(b, view s a)] \<and>
     holding s3 = holding s - {a, b} \<and> pinned s3 = pinned s - {b}"
proof -
  let ?d = "data s i" let ?t = "setd j ?d s"
  have d: "?d = view s a" using data_has [OF assms(1,2)] .
  have ij: "i \<noteq> j" using has_unique [OF assms(1,2)] assms(3,4) by blast
  note t = setd_law [OF assms(1,3), of ?d]
  have t': "inv ?t" "has b j ?t" "b < size ?t" "has a i ?t"
    using t frame_size [of s ?t] assms(2,3,5) by simp_all
  from wr_law [OF t'(1-3)] obtain s1 where 1: "wr j ?t = Ret () s1" "inv s1" "frame ?t s1" "view s1 = view ?t"
    "disk s1 = (disk ?t)(b := view ?t b)" "trace s1 = trace ?t @ [(b, view ?t b)]" "holding s1 = holding ?t"
    "pinned s1 = pinned ?t - {b}" "has b j s1" "has a i s1" using t'(2,4) by metis
  have "a \<in> pinned s1 \<or> view s1 a = disk s1 a" using 1(4,5,8) t assms(4,6) by auto
  from rel_law [OF 1(2,10) this] obtain s2 where 2: "rel i s1 = Ret () s2" "inv s2" "frame s1 s2" "view s2 = view s1"
    "disk s2 = disk s1" "trace s2 = trace s1" "holding s2 = holding s1 - {a}" "pinned s2 = pinned s1" "has b j s2"
    using 1(9) ij by metis
  have "b \<in> pinned s2 \<or> view s2 b = disk s2 b" using 1(4,5) 2(4,5) by simp
  from rel_law [OF 2(2,9) this] obtain s3 where 3: "rel j s2 = Ret () s3" "inv s3" "frame s2 s3" "view s3 = view s2"
    "disk s3 = disk s2" "trace s3 = trace s2" "holding s3 = holding s2 - {b}" "pinned s3 = pinned s2" by blast
  have f1: "frame s s1" using t 1(3) frame_trans by blast
  have f2: "frame s s2" using frame_trans [OF f1 2(3)] .
  have f3: "frame s s3" using frame_trans [OF f2 3(3)] .
  have "holding s3 = holding s - {a, b}" using t 1(7) 2(7) 3(7) by auto
  with t 1 2 3 f1 f2 f3 d show ?thesis
    by (intro exI [of _ s1] exI [of _ s2] exI [of _ s3]) simp
qed

end

end
