(* ===== verification/Bio.thy ===== *)
theory Bio
  imports Sleeplock Block_Cache
begin

text \<open>
  The buffer cache (\<open>bio.c\<close>) over the memory disk of \<open>memide.c\<close>. The buffers stand in an array
  with the list head as its last element, and the list of buffers in order of use is the
  doubly linked list through \<open>b_prev\<close> and \<open>b_next\<close> (indices into the array), as in the code.
  A walk along the list has fuel for one round; running out of it is \<open>Fault\<close>. \<open>dtrace\<close> records
  the blocks written to the disk in order: it is read by no operation and serves to state what
  a crash between two writes leaves behind.
\<close>

type_synonym block = "uchar list"

definition BSIZE :: nat where "BSIZE = 512"

record buf =
  b_valid :: bool
  b_dirty :: bool
  b_dev :: uint32
  b_blockno :: uint32
  b_refcnt :: uint32
  b_prev :: nat
  b_next :: nat
  b_data :: block

record bio_state = slp_state +
  bufs :: "buf list"
  memdisk :: "nat \<Rightarrow> block"
  disksize :: nat
  dtrace :: "(nat \<times> block) list"

abbreviation buf_at :: "'a bio_state_scheme \<Rightarrow> nat \<Rightarrow> buf" where
  "buf_at s i \<equiv> bufs s ! i"

abbreviation bhead :: nat where
  "bhead \<equiv> NBUF"

definition upd_buf :: "nat \<Rightarrow> (buf \<Rightarrow> buf) \<Rightarrow> 'a bio_state_scheme \<Rightarrow> 'a bio_state_scheme" where
  "upd_buf i f s = s\<lparr>bufs := (bufs s)[i := f (bufs s ! i)]\<rparr>"

section \<open>The memory disk\<close>

definition iderw :: "nat \<Rightarrow> 'a bio_state_scheme \<Rightarrow> (unit, 'a bio_state_scheme) outcome" where
  "iderw i s =
     kbind (holdingsleep (SlBuf i) s) (\<lambda>h s.
     let b = buf_at s i; n = unat (b_blockno b)
     in if \<not> h then Panic ''iderw: buf not locked''
        else if b_valid b \<and> \<not> b_dirty b then Panic ''iderw: nothing to do''
        else if b_dev b \<noteq> 1 then Panic ''iderw: request not for disk 1''
        else if disksize s \<le> n then Panic ''iderw: block out of range''
        else
          let s = (if b_dirty b
                   then (upd_buf i (\<lambda>b. b\<lparr>b_dirty := False\<rparr>) s)
                          \<lparr>memdisk := (memdisk s)(n := b_data b), dtrace := dtrace s @ [(n, b_data b)]\<rparr>
                   else upd_buf i (\<lambda>b. b\<lparr>b_data := memdisk s n\<rparr>) s)
          in Ret () (upd_buf i (\<lambda>b. b\<lparr>b_valid := True\<rparr>) s))"

section \<open>The cache\<close>

text \<open>One step of the loop that builds the list.\<close>

definition binit_one :: "nat \<Rightarrow> 'a bio_state_scheme \<Rightarrow> 'a bio_state_scheme" where
  "binit_one i s =
     (let s = upd_buf i (\<lambda>b. b\<lparr>b_next := b_next (buf_at s bhead)\<rparr>) s;
          s = upd_buf i (\<lambda>b. b\<lparr>b_prev := bhead\<rparr>) s;
          s = initsleeplock (SlBuf i) s;
          s = upd_buf (b_next (buf_at s bhead)) (\<lambda>b. b\<lparr>b_prev := i\<rparr>) s
      in upd_buf bhead (\<lambda>b. b\<lparr>b_next := i\<rparr>) s)"

definition binit :: "'a bio_state_scheme \<Rightarrow> 'a bio_state_scheme" where
  "binit s =
     (let s = upd_buf bhead (\<lambda>b. b\<lparr>b_prev := bhead\<rparr>) s;
          s = upd_buf bhead (\<lambda>b. b\<lparr>b_next := bhead\<rparr>) s
      in fold binit_one [0..<NBUF] s)"

text \<open>The walks along the list: \<open>None\<close> is out of fuel, \<open>Some None\<close> back at the head.\<close>

primrec bwalk :: "(buf \<Rightarrow> nat) \<Rightarrow> (buf \<Rightarrow> bool) \<Rightarrow> buf list \<Rightarrow> nat \<Rightarrow> nat \<Rightarrow> nat option option" where
  "bwalk nx P bs 0 i = None"
| "bwalk nx P bs (Suc fuel) i =
     (if i = bhead then Some None
      else if P (bs ! i) then Some (Some i)
      else bwalk nx P bs fuel (nx (bs ! i)))"

definition bget :: "uint32 \<Rightarrow> uint32 \<Rightarrow> 'a bio_state_scheme \<Rightarrow> (nat, 'a bio_state_scheme) outcome" where
  "bget dev blockno s =
     kbind (acquire LkBcache s) (\<lambda>_ s.
     case bwalk b_next (\<lambda>b. b_dev b = dev \<and> b_blockno b = blockno) (bufs s) (NBUF + 1) (b_next (buf_at s bhead)) of
       None \<Rightarrow> Fault
     | Some (Some i) \<Rightarrow>
         let s = upd_buf i (\<lambda>b. b\<lparr>b_refcnt := b_refcnt b + 1\<rparr>) s
         in kbind (release LkBcache s) (\<lambda>_ s.
            kbind (acquiresleep (SlBuf i) s) (\<lambda>_ s. Ret i s))
     | Some None \<Rightarrow>
         (case bwalk b_prev (\<lambda>b. b_refcnt b = 0 \<and> \<not> b_dirty b) (bufs s) (NBUF + 1) (b_prev (buf_at s bhead)) of
            None \<Rightarrow> Fault
          | Some None \<Rightarrow> Panic ''bget: no buffers''
          | Some (Some i) \<Rightarrow>
              let s = upd_buf i (\<lambda>b. b\<lparr>b_dev := dev, b_blockno := blockno, b_valid := False, b_dirty := False,
                        b_refcnt := 1\<rparr>) s
              in kbind (release LkBcache s) (\<lambda>_ s.
                 kbind (acquiresleep (SlBuf i) s) (\<lambda>_ s. Ret i s))))"

definition bread :: "uint32 \<Rightarrow> uint32 \<Rightarrow> 'a bio_state_scheme \<Rightarrow> (nat, 'a bio_state_scheme) outcome" where
  "bread dev blockno s =
     kbind (bget dev blockno s) (\<lambda>i s.
     if \<not> b_valid (buf_at s i) then kbind (iderw i s) (\<lambda>_ s. Ret i s) else Ret i s)"

definition bwrite :: "nat \<Rightarrow> 'a bio_state_scheme \<Rightarrow> (unit, 'a bio_state_scheme) outcome" where
  "bwrite i s =
     kbind (holdingsleep (SlBuf i) s) (\<lambda>h s.
     if \<not> h then Panic ''bwrite''
     else iderw i (upd_buf i (\<lambda>b. b\<lparr>b_dirty := True\<rparr>) s))"

definition brelse_move :: "nat \<Rightarrow> 'a bio_state_scheme \<Rightarrow> 'a bio_state_scheme" where
  "brelse_move i s =
     (let s = upd_buf (b_next (buf_at s i)) (\<lambda>b. b\<lparr>b_prev := b_prev (buf_at s i)\<rparr>) s;
          s = upd_buf (b_prev (buf_at s i)) (\<lambda>b. b\<lparr>b_next := b_next (buf_at s i)\<rparr>) s;
          s = upd_buf i (\<lambda>b. b\<lparr>b_next := b_next (buf_at s bhead)\<rparr>) s;
          s = upd_buf i (\<lambda>b. b\<lparr>b_prev := bhead\<rparr>) s;
          s = upd_buf (b_next (buf_at s bhead)) (\<lambda>b. b\<lparr>b_prev := i\<rparr>) s
      in upd_buf bhead (\<lambda>b. b\<lparr>b_next := i\<rparr>) s)"

definition brelse :: "nat \<Rightarrow> 'a bio_state_scheme \<Rightarrow> (unit, 'a bio_state_scheme) outcome" where
  "brelse i s =
     kbind (holdingsleep (SlBuf i) s) (\<lambda>h s.
     if \<not> h then Panic ''brelse''
     else
       kbind (releasesleep (SlBuf i) s) (\<lambda>_ s.
       kbind (acquire LkBcache s) (\<lambda>_ s.
       let s = upd_buf i (\<lambda>b. b\<lparr>b_refcnt := b_refcnt b - 1\<rparr>) s;
           s = (if b_refcnt (buf_at s i) = 0 then brelse_move i s else s)
       in release LkBcache s)))"

section \<open>Linked lists through an array\<close>

fun links :: "(nat \<Rightarrow> nat) \<Rightarrow> nat list \<Rightarrow> bool" where
  "links f (a # b # xs) \<longleftrightarrow> f a = b \<and> links f (b # xs)"
| "links f xs \<longleftrightarrow> True"

lemma links_append: "links f (xs @ y # zs) \<longleftrightarrow> links f (xs @ [y]) \<and> links f (y # zs)"
proof (induction xs)
  case (Cons a xs)
  then show ?case by (cases xs) auto
qed simp

lemma links_upd: "a \<notin> set (butlast xs) \<Longrightarrow> links (f(a := v)) xs = links f xs"
  by (induction f xs rule: links.induct) auto

lemma links_remove:
  assumes "links f (A @ a # i # c # C)" "a \<notin> set A" "a \<notin> set (butlast (c # C))"
  shows "links (f(a := c)) (A @ a # c # C)"
proof -
  have "links f (A @ [a])" "links f (c # C)"
    using assms(1) unfolding links_append [of f A a "i # c # C"] by auto
  moreover have "links (f(a := c)) (A @ [a]) = links f (A @ [a])"
    using assms(2) by (intro links_upd) simp
  moreover have "links (f(a := c)) (c # C) = links f (c # C)"
    using assms(3) by (intro links_upd)
  ultimately show ?thesis unfolding links_append [of _ A a "c # C"] by simp
qed

lemma links_insert:
  assumes "links f (A @ a # c # C)" "a \<notin> set A" "a \<notin> set (butlast (c # C))" "i \<notin> set (A @ a # c # C)"
  shows "links (f(i := c, a := i)) (A @ a # i # c # C)"
proof -
  have ni: "i \<noteq> a" "i \<notin> set A" "i \<notin> set (butlast (c # C))" using assms(4) in_set_butlastD [of i "c # C"] by auto
  have "links (f(i := c, a := i)) (A @ [a]) = links f (A @ [a])"
    using assms(2) ni by (simp add: links_upd)
  moreover have "links (f(i := c, a := i)) (c # C) = links f (c # C)"
    using assms(3) ni by (simp add: links_upd)
  moreover have "links f (A @ [a])" "links f (c # C)"
    using assms(1) unfolding links_append [of f A a "c # C"] by auto
  ultimately show ?thesis using ni unfolding links_append [of _ A a "i # c # C"] by simp
qed

definition ring :: "buf list \<Rightarrow> nat list \<Rightarrow> bool" where
  "ring bs xs \<longleftrightarrow> length bs = NBUF + 1 \<and> distinct xs \<and> set xs = {..<NBUF} \<and>
     links (\<lambda>i. b_next (bs ! i)) (bhead # xs @ [bhead]) \<and> links (\<lambda>i. b_prev (bs ! i)) (bhead # rev xs @ [bhead])"

lemma links_hd: "links f (a # ys @ [b]) \<Longrightarrow> f a = hd (ys @ [b])"
  by (cases ys) auto

lemma ring_head: "ring bs xs \<Longrightarrow> b_next (bs ! bhead) = hd (xs @ [bhead]) \<and> b_prev (bs ! bhead) = hd (rev xs @ [bhead])"
  unfolding ring_def by (blast dest: links_hd)

lemma bwalk_links:
  "links (\<lambda>i. nx (bs ! i)) (ys @ [bhead]) \<Longrightarrow> bhead \<notin> set ys \<Longrightarrow> length ys < fuel \<Longrightarrow>
     bwalk nx P bs fuel (hd (ys @ [bhead])) = Some (find (\<lambda>i. P (bs ! i)) ys)"
proof (induction ys arbitrary: fuel)
  case Nil
  then show ?case by (cases fuel) auto
next
  case (Cons y ys)
  then obtain k where "fuel = Suc k" by (cases fuel) auto
  with Cons show ?case by (cases ys) auto
qed

lemma ring_walk:
  assumes "ring bs xs"
  shows "bwalk b_next P bs (NBUF + 1) (b_next (bs ! bhead)) = Some (find (\<lambda>i. P (bs ! i)) xs)"
    and "bwalk b_prev P bs (NBUF + 1) (b_prev (bs ! bhead)) = Some (find (\<lambda>i. P (bs ! i)) (rev xs))"
proof -
  have r: "distinct xs" "set xs = {..<NBUF}" "links (\<lambda>i. b_next (bs ! i)) (bhead # xs @ [bhead])"
    "links (\<lambda>i. b_prev (bs ! i)) (bhead # rev xs @ [bhead])" using assms by (auto simp: ring_def)
  have len: "length xs = NBUF" using distinct_card [OF r(1)] r(2) by simp
  have tl: "links f (a # ys @ [b]) \<Longrightarrow> links f (ys @ [b])" for f a b ys by (cases ys) auto
  show "bwalk b_next P bs (NBUF + 1) (b_next (bs ! bhead)) = Some (find (\<lambda>i. P (bs ! i)) xs)"
    using ring_head [OF assms] bwalk_links [OF tl [OF r(3)], of "NBUF + 1"] r(2) len by simp
  show "bwalk b_prev P bs (NBUF + 1) (b_prev (bs ! bhead)) = Some (find (\<lambda>i. P (bs ! i)) (rev xs))"
    using ring_head [OF assms] bwalk_links [OF tl [OF r(4)], of "NBUF + 1"] r(2) len by simp
qed

definition nxs :: "buf list \<Rightarrow> nat \<Rightarrow> nat" where "nxs bs = (\<lambda>j. b_next (bs ! j))"
definition pvs :: "buf list \<Rightarrow> nat \<Rightarrow> nat" where "pvs bs = (\<lambda>j. b_prev (bs ! j))"

lemma nxs_upd [simp]:
  "k < length bs \<Longrightarrow> nxs (bs[k := (bs ! k)\<lparr>b_next := v\<rparr>]) = (nxs bs)(k := v)"
  "nxs (bs[k := (bs ! k)\<lparr>b_prev := v\<rparr>]) = nxs bs"
  by (auto simp: nxs_def nth_list_update fun_eq_iff) (metis list_update_beyond not_le nth_list_update buf.select_convs(7) buf.surjective buf.update_convs(6))

lemma pvs_upd [simp]:
  "k < length bs \<Longrightarrow> pvs (bs[k := (bs ! k)\<lparr>b_prev := v\<rparr>]) = (pvs bs)(k := v)"
  "pvs (bs[k := (bs ! k)\<lparr>b_next := v\<rparr>]) = pvs bs"
  by (auto simp: pvs_def nth_list_update fun_eq_iff) (metis list_update_beyond not_le nth_list_update buf.select_convs(6) buf.surjective buf.update_convs(7))
definition set_next :: "nat \<Rightarrow> nat \<Rightarrow> buf list \<Rightarrow> buf list" where
  "set_next k v bs = bs[k := (bs ! k)\<lparr>b_next := v\<rparr>]"
definition set_prev :: "nat \<Rightarrow> nat \<Rightarrow> buf list \<Rightarrow> buf list" where
  "set_prev k v bs = bs[k := (bs ! k)\<lparr>b_prev := v\<rparr>]"

lemma set_link_simps [simp]:
  "length (set_next k v bs) = length bs" "length (set_prev k v bs) = length bs"
  "k < length bs \<Longrightarrow> nxs (set_next k v bs) = (nxs bs)(k := v)" "nxs (set_prev k v bs) = nxs bs"
  "k < length bs \<Longrightarrow> pvs (set_prev k v bs) = (pvs bs)(k := v)" "pvs (set_next k v bs) = pvs bs"
  by (simp_all add: set_next_def set_prev_def)

lemma brelse_move_bufs:
  "bufs (brelse_move i s) =
     (let bs = bufs s; bs = set_prev (nxs bs i) (pvs bs i) bs; bs = set_next (pvs bs i) (nxs bs i) bs;
          bs = set_next i (nxs bs bhead) bs; bs = set_prev i bhead bs; bs = set_prev (nxs bs bhead) i bs
      in set_next bhead i bs)"
  by (simp add: brelse_move_def upd_buf_def Let_def set_next_def set_prev_def nxs_def pvs_def)

text \<open>Linking element \<open>i\<close> in after the head, and unlinking it, on the two pointer functions.\<close>

lemma insert_front_links:
  fixes nx pv :: "nat \<Rightarrow> nat"
  assumes "links nx (h # xs @ [h])" "links pv (h # rev xs @ [h])" "distinct (h # i # xs)"
  shows "links (nx(i := nx h, h := i)) (h # i # xs @ [h])"
    and "links (pv(i := h, nx h := i)) (h # rev xs @ [i, h])"
proof -
  obtain d D where D: "xs @ [h] = d # D" by (cases "xs @ [h]") auto
  have dh: "nx h = d" using links_hd [OF assms(1)] D by simp
  have "set (butlast (d # D)) = set xs" by (metis D butlast_snoc)
  moreover have "i \<notin> set (d # D)" unfolding D [symmetric] using assms(3) by auto
  ultimately have "links (nx(i := d, h := i)) ([] @ h # i # d # D)"
    using assms(1,3) D by (intro links_insert) auto
  then show "links (nx(i := nx h, h := i)) (h # i # xs @ [h])" using D dh by simp
  obtain E where E: "h # rev xs = E @ [d]"
  proof (cases xs)
    case Nil
    with D that [of "[]"] show thesis by simp
  next
    case (Cons y ys)
    with D that [of "h # rev ys"] show thesis by simp
  qed
  have "distinct (h # rev xs)" using assms(3) by simp
  then have "d \<notin> set E" unfolding E by simp
  moreover have "i \<notin> set (h # rev xs)" using assms(3) by simp
  then have "i \<notin> set (E @ [d]) \<union> {h}" using assms(3) unfolding E by simp
  moreover have "links pv (E @ d # h # [])" using assms(2) E by (metis append.assoc append_Cons append_Nil)
  ultimately have "links (pv(i := h, d := i)) (E @ d # i # h # [])"
    by (intro links_insert) auto
  then show "links (pv(i := h, nx h := i)) (h # rev xs @ [i, h])"
    using E dh by (metis append.assoc append_Cons append_Nil)
qed

lemma unlink_links:
  fixes nx pv :: "nat \<Rightarrow> nat"
  assumes "links nx (h # A @ i # C @ [h])" "links pv (h # rev C @ i # rev A @ [h])"
    and "distinct (h # A @ i # C)"
  defines "a \<equiv> last (h # A)" and "c \<equiv> hd (C @ [h])"
  shows "nx i = c" "pv i = a"
    and "links (nx(a := c)) (h # (A @ C) @ [h])" "links (pv(c := a)) (h # rev (A @ C) @ [h])"
proof -
  obtain A' where A': "h # A = A' @ [a]" unfolding a_def by (metis append_butlast_last_id list.distinct(1))
  obtain C' where C': "C @ [h] = c # C'" unfolding c_def by (cases C) auto
  have ch: "set (butlast (c # C')) = set C" using C' by (metis butlast_snoc)
  have aA: "a \<in> set (h # A)" unfolding a_def by (rule last_in_set) simp
  have dA: "distinct (A' @ [a])" using assms(3) A' [symmetric] by auto
  have nx: "links nx (A' @ a # i # c # C')" using assms(1) A' C' by (metis append.assoc append_Cons append_Nil)
  have "a \<notin> set A'" "a \<notin> set (butlast (c # C'))"
    using dA aA assms(3) unfolding ch by auto
  note rem = links_remove [OF nx this]
  show "nx i = c" using nx unfolding links_append [of nx A' a "i # c # C'"] by simp
  show "links (nx(a := c)) (h # (A @ C) @ [h])"
    using rem A' C' by (metis append.assoc append_Cons append_Nil)
  have C'': "h # rev C = rev C' @ [c]" using arg_cong [OF C', of rev] by simp
  have A'': "rev A @ [h] = a # rev A'" using arg_cong [OF A', of rev] by simp
  have pv: "links pv (rev C' @ c # i # a # rev A')" using assms(2) A'' C'' by (metis append.assoc append_Cons append_Nil)
  then show "pv i = a" unfolding links_append [of pv "rev C'" c "i # a # rev A'"] by simp
  have "distinct (h # rev C)" using assms(3) by simp
  then have "c \<notin> set (rev C')" unfolding C'' by simp
  moreover have "set (butlast (a # rev A')) = set A" by (metis A'' butlast_snoc set_rev)
  moreover have "c \<in> set (C @ [h])" unfolding C' by simp
  ultimately have "links (pv(c := a)) (rev C' @ c # a # rev A')"
    using assms(3) by (intro links_remove [OF pv]) auto
  then show "links (pv(c := a)) (h # rev (A @ C) @ [h])"
    using A'' C'' by (metis append.assoc append_Cons append_Nil rev_append)
qed

lemma ring_alt:
  "ring bs xs \<longleftrightarrow> length bs = NBUF + 1 \<and> distinct xs \<and> set xs = {..<NBUF} \<and>
     links (nxs bs) (bhead # xs @ [bhead]) \<and> links (pvs bs) (bhead # rev xs @ [bhead])"
  by (simp add: ring_def nxs_def pvs_def)

lemma brelse_move_ring:
  assumes "ring (bufs s) xs" "i < NBUF"
  shows "ring (bufs (brelse_move i s)) (i # remove1 i xs)"
proof -
  let ?bs = "bufs s"
  have r: "length ?bs = NBUF + 1" "distinct xs" "set xs = {..<NBUF}" "links (nxs ?bs) (bhead # xs @ [bhead])"
    "links (pvs ?bs) (bhead # rev xs @ [bhead])" using assms(1) by (auto simp: ring_alt)
  have "i \<in> set xs" using assms(2) r(3) by simp
  then obtain A C where xs: "xs = A @ i # C" "i \<notin> set A" by (metis split_list_first)
  have dist: "distinct (bhead # A @ i # C)" using r(2,3) xs by auto
  define a where "a = last (bhead # A)"
  define c where "c = hd (C @ [bhead])"
  have nxl: "links (nxs ?bs) (bhead # A @ i # C @ [bhead])" using r(4) xs by simp
  have pvl: "links (pvs ?bs) (bhead # rev C @ i # rev A @ [bhead])" using r(5) xs by simp
  note un = unlink_links [OF nxl pvl dist, folded a_def c_def]
  have "distinct (bhead # i # A @ C)" using dist by auto
  note mv = insert_front_links [OF un(3,4) this]
  have sub: "set A \<subseteq> {..<NBUF}" "set C \<subseteq> {..<NBUF}" using r(3) unfolding xs(1) by auto
  have "a \<in> set (bhead # A)" unfolding a_def by (rule last_in_set) simp
  then have a: "a < NBUF + 1" "a \<noteq> i" using sub(1) xs(2) assms(2) by auto
  have "c \<in> set (C @ [bhead])" unfolding c_def by (rule hd_in_set) simp
  then have c: "c < NBUF + 1" "c \<noteq> i" using sub(2) dist assms(2) by auto
  let ?nx1 = "(nxs ?bs)(a := c)" and ?pv1 = "(pvs ?bs)(c := a)"
  define bs2 where "bs2 = set_next a c (set_prev c a ?bs)"
  have bs2: "nxs bs2 = ?nx1" "pvs bs2 = ?pv1" "length bs2 = NBUF + 1"
    using a c r(1) by (simp_all add: bs2_def)
  have h: "?nx1 bhead < NBUF + 1" "i \<noteq> bhead"
  proof -
    obtain d D where D: "A @ C @ [bhead] = d # D" by (cases "A @ C @ [bhead]") simp_all
    have "(?nx1(i := ?nx1 bhead, bhead := i)) i = d" using mv(1) D by simp
    then have "?nx1 bhead = d" using assms(2) by simp
    moreover have "d \<in> set (A @ C @ [bhead])" unfolding D by simp
    ultimately show "?nx1 bhead < NBUF + 1" using sub by auto
  qed (use assms(2) in simp)
  have "bufs (brelse_move i s) = set_next bhead i (set_prev (nxs bs2 bhead) i (set_prev i bhead (set_next i (nxs bs2 bhead) bs2)))"
  proof -
    have "nxs ?bs i = c" "pvs ?bs i = a" using un(1,2) by simp_all
    then show ?thesis
      using a c r(1) assms(2) by (simp add: brelse_move_bufs Let_def bs2_def)
  qed
  then have "nxs (bufs (brelse_move i s)) = ?nx1(i := ?nx1 bhead, bhead := i)"
    "pvs (bufs (brelse_move i s)) = ?pv1(i := bhead, ?nx1 bhead := i)" "length (bufs (brelse_move i s)) = NBUF + 1"
    using bs2 h assms(2) by simp_all
  moreover have "remove1 i xs = A @ C" using xs by (simp add: remove1_append)
  moreover have "set (i # A @ C) = {..<NBUF}" using r(3) xs by auto
  ultimately show ?thesis
    using mv dist by (simp add: ring_alt)
qed

lemma brelse_move_frame:
  "slocks (brelse_move i s) = slocks s" "memdisk (brelse_move i s) = memdisk s" "held (brelse_move i s) = held s"
  "dtrace (brelse_move i s) = dtrace s" "disksize (brelse_move i s) = disksize s"
  by (simp_all add: brelse_move_def upd_buf_def Let_def)
lemma binit_ring:
  assumes "length (bufs s) = NBUF + 1"
  shows "ring (bufs (binit s)) (rev [0..<NBUF])"
proof -
  let ?s0 = "upd_buf bhead (\<lambda>b. b\<lparr>b_next := bhead\<rparr>) (upd_buf bhead (\<lambda>b. b\<lparr>b_prev := bhead\<rparr>) s)"
  have "n \<le> NBUF \<Longrightarrow> length (bufs (fold binit_one [0..<n] ?s0)) = NBUF + 1 \<and>
      links (nxs (bufs (fold binit_one [0..<n] ?s0))) (bhead # rev [0..<n] @ [bhead]) \<and>
      links (pvs (bufs (fold binit_one [0..<n] ?s0))) (bhead # [0..<n] @ [bhead])" for n
  proof (induction n)
    case 0
    then show ?case using assms by (simp add: upd_buf_def nxs_def pvs_def)
  next
    case (Suc n)
    let ?s = "fold binit_one [0..<n] ?s0"
    let ?bs = "bufs ?s"
    have IH: "length ?bs = NBUF + 1" "links (nxs ?bs) (bhead # rev [0..<n] @ [bhead])"
      "links (pvs ?bs) (bhead # rev (rev [0..<n]) @ [bhead])" using Suc by simp_all
    have "distinct (bhead # n # rev [0..<n])" using Suc.prems by auto
    note ins = insert_front_links [OF IH(2,3) this]
    have h: "nxs ?bs bhead < NBUF + 1"
    proof -
      have "nxs ?bs bhead = hd (rev [0..<n] @ [bhead])" by (rule links_hd [OF IH(2)])
      moreover have "hd (rev [0..<n] @ [bhead]) \<in> set (rev [0..<n] @ [bhead])" by (rule hd_in_set) simp
      ultimately have "nxs ?bs bhead \<in> set (rev [0..<n] @ [bhead])" by (simp only:)
      then show ?thesis using Suc.prems by auto
    qed
    have "bufs (binit_one n ?s) = set_next bhead n (set_prev (nxs ?bs bhead) n (set_prev n bhead (set_next n (nxs ?bs bhead) ?bs)))"
      using IH(1) Suc.prems
      by (simp add: binit_one_def upd_buf_def Let_def set_next_def set_prev_def nxs_def initsleeplock_def nth_list_update)
    then have "nxs (bufs (binit_one n ?s)) = (nxs ?bs)(n := nxs ?bs bhead, bhead := n)"
      "pvs (bufs (binit_one n ?s)) = (pvs ?bs)(n := bhead, nxs ?bs bhead := n)" "length (bufs (binit_one n ?s)) = NBUF + 1"
      using h IH(1) Suc.prems by simp_all
    note eqs = this
    have "links (nxs (bufs (binit_one n ?s))) (bhead # n # rev [0..<n] @ [bhead])"
      "links (pvs (bufs (binit_one n ?s))) (bhead # rev (rev [0..<n]) @ [n, bhead])"
      using ins unfolding eqs .
    with eqs(3) show ?case by simp
  qed
  from this [of NBUF] show ?thesis
    by (simp add: binit_def Let_def ring_alt atLeast0LessThan)
qed

section \<open>The cache as a view of the disk\<close>

text \<open>
  The block the rest of the kernel sees: the cached copy if there is one, the disk otherwise. A
  buffer that is neither locked nor dirty agrees with the disk, and no block is cached twice
  (before its first use a buffer belongs to device 0). The reference counts are those of a
  moment at which no other process waits for a buffer.
\<close>

definition cached :: "'a bio_state_scheme \<Rightarrow> nat \<Rightarrow> nat \<Rightarrow> bool" where
  "cached s n i \<longleftrightarrow> i < NBUF \<and> b_dev (buf_at s i) = 1 \<and> unat (b_blockno (buf_at s i)) = n"

definition bview :: "'a bio_state_scheme \<Rightarrow> nat \<Rightarrow> block" where
  "bview s n = (case find (\<lambda>i. cached s n i \<and> b_valid (buf_at s i)) [0..<NBUF] of
     Some i \<Rightarrow> b_data (buf_at s i) | None \<Rightarrow> memdisk s n)"

definition buf_ok :: "(nat \<Rightarrow> block) \<Rightarrow> bool \<Rightarrow> buf \<Rightarrow> bool" where
  "buf_ok d l b \<longleftrightarrow> b_refcnt b = (if l then 1 else 0) \<and> (b_dev b = 1 \<and> \<not> l \<longrightarrow> b_valid b) \<and> (b_dirty b \<longrightarrow> b_valid b) \<and>
     (l \<or> b_dirty b \<longrightarrow> b_dev b = 1) \<and>
     (b_dev b = 1 \<and> b_valid b \<and> \<not> l \<and> \<not> b_dirty b \<longrightarrow> b_data b = d (unat (b_blockno b)))"

definition blocked :: "'a bio_state_scheme \<Rightarrow> nat \<Rightarrow> bool" where
  "blocked s i \<longleftrightarrow> sl_locked (slocks s (SlBuf i))"

definition bio_inv :: "'a bio_state_scheme \<Rightarrow> bool" where
  "bio_inv s \<longleftrightarrow> (\<exists>xs. ring (bufs s) xs) \<and>
     (\<forall>n i j. cached s n i \<and> cached s n j \<longrightarrow> i = j) \<and>
     (\<forall>i<NBUF. buf_ok (memdisk s) (blocked s i) (buf_at s i))"

lemma bio_inv_ring: "bio_inv s \<Longrightarrow> length (bufs s) = NBUF + 1"
  by (auto simp: bio_inv_def ring_def)

lemma bview_cached:
  assumes "bio_inv s" "cached s n i" "b_valid (buf_at s i)"
  shows "bview s n = b_data (buf_at s i)"
proof -
  have "i < NBUF" using assms(2) by (simp add: cached_def)
  with assms obtain j where j: "find (\<lambda>i. cached s n i \<and> b_valid (buf_at s i)) [0..<NBUF] = Some j"
    by (metis (no_types, lifting) find_upt_exists)
  then have "cached s n j" by (simp add: find_upt_Some)
  with assms(1,2) have "j = i" by (auto simp: bio_inv_def)
  with j show ?thesis by (simp add: bview_def)
qed

lemma bview_uncached:
  assumes "\<And>i. cached s n i \<Longrightarrow> \<not> b_valid (buf_at s i)"
  shows "bview s n = memdisk s n"
proof -
  have "find (\<lambda>i. cached s n i \<and> b_valid (buf_at s i)) [0..<NBUF] = None"
    using assms by (auto simp: find_upt_None)
  then show ?thesis by (simp add: bview_def)
qed

text \<open>The buffer held by the caller: locked by it, valid, for block \<open>n\<close>.\<close>

definition has_buf :: "nat \<Rightarrow> nat \<Rightarrow> nat \<Rightarrow> 'a bio_state_scheme \<Rightarrow> bool" where
  "has_buf p n i s \<longleftrightarrow> cached s n i \<and> b_valid (buf_at s i) \<and> holds (SlBuf i) p s"

lemma holdingsleep_holds:
  assumes "in_proc p s" "holds l p s"
  shows "holdingsleep l s = Ret True s"
  using in_procD [OF assms(1)] assms(2) by (simp add: holdingsleep_def holds_def myproc_def)

lemma iderw_read:
  assumes "in_proc p s" "holds (SlBuf i) p s" "\<not> b_valid (buf_at s i)" "\<not> b_dirty (buf_at s i)"
    "b_dev (buf_at s i) = 1" "unat (b_blockno (buf_at s i)) < disksize s" "i < length (bufs s)"
  shows "iderw i s = Ret () (upd_buf i (\<lambda>b. b\<lparr>b_data := memdisk s (unat (b_blockno (buf_at s i))), b_valid := True\<rparr>) s)"
  using assms by (simp add: iderw_def holdingsleep_holds Let_def upd_buf_def)

lemma iderw_write:
  assumes "in_proc p s" "holds (SlBuf i) p s" "b_dirty (buf_at s i)"
    "b_dev (buf_at s i) = 1" "unat (b_blockno (buf_at s i)) < disksize s" "i < length (bufs s)"
  shows "iderw i s = Ret () ((upd_buf i (\<lambda>b. b\<lparr>b_dirty := False, b_valid := True\<rparr>) s)
     \<lparr>memdisk := (memdisk s)(unat (b_blockno (buf_at s i)) := b_data (buf_at s i)),
      dtrace := dtrace s @ [(unat (b_blockno (buf_at s i)), b_data (buf_at s i))]\<rparr>)"
  using assms by (simp add: iderw_def holdingsleep_holds Let_def upd_buf_def)

definition free_buf :: "'a bio_state_scheme \<Rightarrow> nat \<Rightarrow> bool" where
  "free_buf s i \<longleftrightarrow> i < NBUF \<and> b_refcnt (buf_at s i) = 0 \<and> \<not> b_dirty (buf_at s i)"

definition lock_buf :: "nat \<Rightarrow> nat \<Rightarrow> (buf \<Rightarrow> buf) \<Rightarrow> 'a bio_state_scheme \<Rightarrow> 'a bio_state_scheme" where
  "lock_buf p i f s = (upd_buf i f s)\<lparr>slocks := (slocks s)(SlBuf i := \<lparr>sl_locked = True, sl_pid = pid_of s p\<rparr>)\<rparr>"

lemma in_proc_bufs [simp]: "in_proc p (s\<lparr>bufs := bs\<rparr>) = in_proc p s" "in_proc p (upd_buf i f s) = in_proc p s"
  by (rule in_proc_cong; simp add: upd_buf_def)+

lemma release_upd_buf:
  "held s = [] \<Longrightarrow> release LkBcache (upd_buf i f (s\<lparr>held := [LkBcache]\<rparr>)) = Ret () (upd_buf i f s)"
  by (simp add: upd_buf_def)

lemma lock_buf_simps [simp]:
  "ptable (lock_buf p i f s) = ptable s" "held (lock_buf p i f s) = held s" "memdisk (lock_buf p i f s) = memdisk s"
  "dtrace (lock_buf p i f s) = dtrace s" "disksize (lock_buf p i f s) = disksize s"
  "bufs (lock_buf p i f s) = (bufs s)[i := f (bufs s ! i)]"
  "in_proc p' (lock_buf p i f s) = in_proc p' s" "holds (SlBuf i) p (lock_buf p i f s)"
  by (simp_all add: lock_buf_def upd_buf_def holds_def in_proc_bufs)

lemma bget_hit:
  assumes "in_proc p s" "bio_inv s" "cached s (unat blk) i" "\<not> blocked s i"
  shows "bget 1 blk s = Ret i (lock_buf p i (\<lambda>b. b\<lparr>b_refcnt := b_refcnt b + 1\<rparr>) s)"
proof -
  obtain xs where xs: "ring (bufs s) xs" using assms(2) by (auto simp: bio_inv_def)
  have len: "length (bufs s) = NBUF + 1" using bio_inv_ring [OF assms(2)] .
  have i: "i < NBUF" using assms(3) by (simp add: cached_def)
  let ?P = "\<lambda>b. b_dev b = 1 \<and> b_blockno b = blk"
  have "find (\<lambda>i. ?P (bufs s ! i)) xs = Some i"
  proof -
    have "i \<in> set xs" using xs i by (simp add: ring_def)
    moreover have Pi: "?P (bufs s ! i)" using assms(3) by (auto simp: cached_def intro: unsigned_word_eqI)
    ultimately obtain j where j: "find (\<lambda>i. ?P (bufs s ! i)) xs = Some j"
      by (cases "find (\<lambda>i. ?P (bufs s ! i)) xs") (auto simp: find_None_iff)
    then have "?P (bufs s ! j)" "j \<in> set xs" by (auto simp: find_Some_iff)
    then have "cached s (unat blk) j" using xs by (auto simp: cached_def ring_def)
    with assms(2,3) have "j = i" unfolding bio_inv_def by blast
    with j show ?thesis by simp
  qed
  then have walk: "bwalk b_next ?P (bufs s) (NBUF + 1) (b_next (bufs s ! bhead)) = Some (Some i)"
    using ring_walk(1) [OF xs, of ?P] by simp
  let ?s = "upd_buf i (\<lambda>b. b\<lparr>b_refcnt := b_refcnt b + 1\<rparr>) s"
  have ip: "in_proc p ?s" using assms(1) by simp
  have "acquiresleep (SlBuf i) ?s = Ret () (lock_buf p i (\<lambda>b. b\<lparr>b_refcnt := b_refcnt b + 1\<rparr>) s)"
    using acquiresleep_free [OF ip, of "SlBuf i"] assms(4) by (simp add: lock_buf_def blocked_def) (simp add: upd_buf_def)
  moreover have held: "held s = []" using in_procD(2) [OF assms(1)] .
  ultimately show ?thesis using walk
    by (simp add: bget_def Let_def release_upd_buf del: bwalk.simps)
qed

lemma bget_miss:
  assumes "in_proc p s" "bio_inv s" "\<And>i. \<not> cached s (unat blk) i" "\<exists>i. free_buf s i"
  shows "\<exists>i. free_buf s i \<and> bget 1 blk s = Ret i (lock_buf p i (\<lambda>b. b\<lparr>b_dev := 1, b_blockno := blk, b_valid := False,
     b_dirty := False, b_refcnt := 1\<rparr>) s)"
proof -
  obtain xs where xs: "ring (bufs s) xs" using assms(2) by (auto simp: bio_inv_def)
  let ?P = "\<lambda>b. b_dev b = 1 \<and> b_blockno b = blk" and ?Q = "\<lambda>b. b_refcnt b = 0 \<and> \<not> b_dirty b"
  have "find (\<lambda>i. ?P (bufs s ! i)) xs = None"
    using assms(3) xs by (auto simp: find_None_iff cached_def ring_def)
  then have walk1: "bwalk b_next ?P (bufs s) (NBUF + 1) (b_next (bufs s ! bhead)) = Some None"
    using ring_walk(1) [OF xs, of ?P] by simp
  obtain i where fi: "find (\<lambda>i. ?Q (bufs s ! i)) (rev xs) = Some i"
    using assms(4) xs by (cases "find (\<lambda>i. ?Q (bufs s ! i)) (rev xs)") (auto simp: find_None_iff free_buf_def ring_def)
  then have walk2: "bwalk b_prev ?Q (bufs s) (NBUF + 1) (b_prev (bufs s ! bhead)) = Some (Some i)"
    using ring_walk(2) [OF xs, of ?Q] by simp
  have "i \<in> set (rev xs)" "?Q (bufs s ! i)"
    using fi nth_mem [of _ "rev xs"] by (auto simp: find_Some_iff simp del: set_rev)
  then have free: "free_buf s i" using xs by (auto simp: free_buf_def ring_def)
  have nl: "\<not> blocked s i" using free assms(2) by (auto simp: bio_inv_def free_buf_def buf_ok_def split: if_splits)
  let ?f = "\<lambda>b. b\<lparr>b_dev := 1, b_blockno := blk, b_valid := False, b_dirty := False, b_refcnt := 1\<rparr>"
  let ?s = "upd_buf i ?f s"
  have ip: "in_proc p ?s" using assms(1) by simp
  have "acquiresleep (SlBuf i) ?s = Ret () (lock_buf p i ?f s)"
    using acquiresleep_free [OF ip, of "SlBuf i"] nl by (simp add: lock_buf_def blocked_def) (simp add: upd_buf_def)
  moreover have held: "held s = []" using in_procD(2) [OF assms(1)] .
  ultimately have "bget 1 blk s = Ret i (lock_buf p i ?f s)" using walk1 walk2
    by (simp add: bget_def Let_def release_upd_buf del: bwalk.simps)
  with free show ?thesis by blast
qed

section \<open>What the operations do to the view\<close>

text \<open>A buffer up to its place in the list, and a step that changes no buffer but \<open>i\<close>.\<close>

definition bcore :: "buf \<Rightarrow> buf" where
  "bcore b = b\<lparr>b_prev := 0, b_next := 0\<rparr>"

lemma bcoreD:
  assumes "bcore b = bcore c"
  shows "b_valid b = b_valid c" "b_dirty b = b_dirty c" "b_dev b = b_dev c" "b_blockno b = b_blockno c"
    "b_refcnt b = b_refcnt c" "b_data b = b_data c"
  using assms by (cases b; cases c; simp add: bcore_def)+

definition others_same :: "nat \<Rightarrow> 'a bio_state_scheme \<Rightarrow> 'b bio_state_scheme \<Rightarrow> bool" where
  "others_same i s s' \<longleftrightarrow> (\<forall>j<NBUF. j \<noteq> i \<longrightarrow>
     bcore (buf_at s' j) = bcore (buf_at s j) \<and> slocks s' (SlBuf j) = slocks s (SlBuf j))"

lemma others_sameD:
  assumes "others_same i s s'" "j \<noteq> i"
  shows "cached s' n j = cached s n j" "j < NBUF \<Longrightarrow> blocked s' j = blocked s j"
    "j < NBUF \<Longrightarrow> bcore (buf_at s' j) = bcore (buf_at s j)"
  using assms bcoreD [of "buf_at s' j" "buf_at s j"]
  by (auto simp: others_same_def cached_def blocked_def)

lemma bio_inv_change:
  assumes inv: "bio_inv s" and ring: "ring (bufs s') xs" and oth: "others_same i s s'"
    and ok: "buf_ok (memdisk s') (blocked s' i) (buf_at s' i)"
    and uniq: "\<And>n j. cached s' n i \<Longrightarrow> cached s n j \<Longrightarrow> j = i"
    and disk: "\<And>n j. j \<noteq> i \<Longrightarrow> cached s n j \<Longrightarrow> memdisk s' n = memdisk s n"
  shows "bio_inv s'"
  unfolding bio_inv_def
proof (intro conjI allI impI)
  show "\<exists>xs. ring (bufs s') xs" using ring by blast
  fix n j k
  assume "cached s' n j \<and> cached s' n k"
  then show "j = k"
    using inv uniq others_sameD(1) [OF oth] unfolding bio_inv_def by metis
next
  fix j assume j: "j < NBUF"
  show "buf_ok (memdisk s') (blocked s' j) (buf_at s' j)"
  proof (cases "j = i")
    case False
    note c = others_sameD [OF oth False]
    have "cached s (unat (b_blockno (buf_at s j))) j" if "b_dev (buf_at s j) = 1" using that j by (simp add: cached_def)
    moreover have "buf_ok (memdisk s) (blocked s j) (buf_at s j)" using inv j by (simp add: bio_inv_def)
    ultimately show ?thesis
      using c(2) [OF j] bcoreD [OF c(3) [OF j]] disk [OF False] by (simp add: buf_ok_def)
  qed (use ok in simp)
qed

lemma bview_change:
  assumes inv: "bio_inv s" "bio_inv s'" and oth: "others_same i s s'"
  shows "cached s' n i \<Longrightarrow> b_valid (buf_at s' i) \<Longrightarrow> bview s' n = b_data (buf_at s' i)"
    and "\<not> cached s' n i \<Longrightarrow> cached s n i \<Longrightarrow> bview s' n = memdisk s' n"
    and "\<not> cached s' n i \<Longrightarrow> \<not> cached s n i \<Longrightarrow> memdisk s' n = memdisk s n \<Longrightarrow> bview s' n = bview s n"
proof -
  show "cached s' n i \<Longrightarrow> b_valid (buf_at s' i) \<Longrightarrow> bview s' n = b_data (buf_at s' i)"
    using bview_cached [OF inv(2)] .
  show "bview s' n = memdisk s' n" if "\<not> cached s' n i" "cached s n i"
  proof (rule bview_uncached)
    fix j assume j: "cached s' n j"
    with that(1) have "j \<noteq> i" by blast
    with j have "cached s n j" using others_sameD(1) [OF oth] by blast
    with that(2) inv(1) have "j = i" by (auto simp: bio_inv_def)
    with \<open>j \<noteq> i\<close> show "\<not> b_valid (buf_at s' j)" by simp
  qed
  have "cached s' n j = cached s n j" if "\<not> cached s' n i" "\<not> cached s n i" for j
    using that others_sameD(1) [OF oth] by (cases "j = i") simp_all
  moreover have "b_valid (buf_at s' j) = b_valid (buf_at s j) \<and> b_data (buf_at s' j) = b_data (buf_at s j)"
    if "\<not> cached s' n i" "cached s' n j" for j
  proof -
    have "j \<noteq> i" "j < NBUF" using that by (auto simp: cached_def)
    then show ?thesis using bcoreD [OF others_sameD(3) [OF oth]] by simp
  qed
  ultimately show "bview s' n = bview s n"
    if "\<not> cached s' n i" "\<not> cached s n i" "memdisk s' n = memdisk s n"
    using that bview_cached [OF inv(1)] bview_cached [OF inv(2)] bview_uncached [of s n] bview_uncached [of s' n]
    by metis
qed

text \<open>Rewriting one buffer in place keeps the list.\<close>

lemma ring_upd:
  assumes "ring bs xs" "b_prev b = b_prev (bs ! i)" "b_next b = b_next (bs ! i)"
  shows "ring (bs[i := b]) xs"
proof (cases "i < length bs")
  case True
  have "(\<lambda>j. b_next (bs[i := b] ! j)) = (\<lambda>j. b_next (bs ! j))" "(\<lambda>j. b_prev (bs[i := b] ! j)) = (\<lambda>j. b_prev (bs ! j))"
    using assms(2,3) True by (auto simp: nth_list_update fun_eq_iff)
  then show ?thesis using assms(1) by (simp add: ring_def)
qed (use assms(1) in \<open>simp add: not_less list_update_beyond\<close>)

definition keeps_links :: "(buf \<Rightarrow> buf) \<Rightarrow> bool" where
  "keeps_links f \<longleftrightarrow> (\<forall>b. b_prev (f b) = b_prev b \<and> b_next (f b) = b_next b)"

lemma ring_keeps_links: "ring bs xs \<Longrightarrow> keeps_links f \<Longrightarrow> ring (bs[i := f (bs ! i)]) xs"
  by (rule ring_upd) (simp_all add: keeps_links_def)

lemma brelse_move_core:
  assumes "j < length (bufs s)"
  shows "bcore (bufs (brelse_move i s) ! j) = bcore (bufs s ! j)" "length (bufs (brelse_move i s)) = length (bufs s)"
proof -
  have n: "bcore (set_next k v bs ! j) = bcore (bs ! j)" if "j < length bs" for k v bs
    using that by (cases "k = j") (simp_all add: set_next_def bcore_def)
  have p: "bcore (set_prev k v bs ! j) = bcore (bs ! j)" if "j < length bs" for k v bs
    using that by (cases "k = j") (simp_all add: set_prev_def bcore_def)
  show "bcore (bufs (brelse_move i s) ! j) = bcore (bufs s ! j)" "length (bufs (brelse_move i s)) = length (bufs s)"
    using assms by (simp_all add: brelse_move_bufs Let_def n p)
qed

text \<open>What every operation of the cache keeps for its caller.\<close>

definition bio_rel :: "nat \<Rightarrow> 'a bio_state_scheme \<Rightarrow> 'a bio_state_scheme \<Rightarrow> bool" where
  "bio_rel p s s' \<longleftrightarrow> in_proc p s' \<and> slot s' p = slot s p \<and> bio_inv s' \<and> disksize s' = disksize s \<and>
     freelist s' = freelist s \<and> mem s' = mem s \<and> ticks s' = ticks s \<and> initproc s' = initproc s \<and>
     bio_state.more s' = bio_state.more s \<and> (\<forall>k. slocks s' (SlInode k) = slocks s (SlInode k))"

lemma bio_rel_refl: "in_proc p s \<Longrightarrow> bio_inv s \<Longrightarrow> bio_rel p s s"
  by (simp add: bio_rel_def)

lemma bio_rel_trans: "bio_rel p s t \<Longrightarrow> bio_rel p t u \<Longrightarrow> bio_rel p s u"
  by (simp add: bio_rel_def)

lemma bio_relD:
  assumes "bio_rel p s s'"
  shows "in_proc p s'" "bio_inv s'" "disksize s' = disksize s" "slot s' p = slot s p" "bio_state.more s' = bio_state.more s"
  using assms by (simp_all add: bio_rel_def)

text \<open>The buffers a process may not take: locked or waiting for the log.\<close>

definition busy :: "'a bio_state_scheme \<Rightarrow> nat set" where
  "busy s = {i. i < NBUF \<and> (blocked s i \<or> b_dirty (buf_at s i))}"

lemma busy_free:
  assumes "bio_inv s" "card (busy s) < NBUF"
  shows "\<exists>i. free_buf s i"
proof (rule ccontr)
  assume "\<not> ?thesis"
  then have "{..<NBUF} \<subseteq> busy s"
    using assms(1) by (auto simp: bio_inv_def buf_ok_def busy_def free_buf_def split: if_splits)
  then have "card {..<NBUF} \<le> card (busy s)" by (intro card_mono) (auto simp: busy_def)
  with assms(2) show False by simp
qed

text \<open>The blocks with a dirty buffer.\<close>

definition dirty :: "'a bio_state_scheme \<Rightarrow> nat set" where
  "dirty s = {n. \<exists>i. cached s n i \<and> b_dirty (buf_at s i)}"

text \<open>
  The state after \<open>bread\<close>: the caller holds the buffer \<open>i\<close> of the block, every block looks as
  before, and nothing was written.
\<close>

definition bread_post :: "nat \<Rightarrow> nat \<Rightarrow> nat \<Rightarrow> 'a bio_state_scheme \<Rightarrow> 'a bio_state_scheme \<Rightarrow> bool" where
  "bread_post p n i s s' \<longleftrightarrow> bio_rel p s s' \<and> has_buf p n i s' \<and> \<not> blocked s i \<and> b_data (buf_at s' i) = bview s n \<and>
     bview s' = bview s \<and> memdisk s' = memdisk s \<and> dtrace s' = dtrace s \<and> busy s' = insert i (busy s) \<and> dirty s' = dirty s \<and>
     others_same i s s' \<and> (b_dirty (buf_at s' i) \<or> b_data (buf_at s' i) = memdisk s' n)"

lemma bread_ret:
  assumes "in_proc p s" "bio_inv s" "unat blk < disksize s" "\<And>i. cached s (unat blk) i \<Longrightarrow> \<not> blocked s i"
    and "(\<exists>i. cached s (unat blk) i) \<or> card (busy s) < NBUF"
  shows "\<exists>i f. bread 1 blk s = Ret i (lock_buf p i f s) \<and> i < NBUF \<and> \<not> blocked s i \<and> keeps_links f \<and>
     (let b = buf_at s i; b' = f b in b_dev b' = 1 \<and> b_blockno b' = blk \<and> b_valid b' \<and> b_refcnt b' = 1 \<and>
        b_dirty b' = b_dirty b \<and> b_data b' = bview s (unat blk) \<and>
        (\<not> cached s (unat blk) i \<longrightarrow> (\<forall>j. \<not> cached s (unat blk) j) \<and> \<not> b_dirty b))"
proof (cases "\<exists>i. cached s (unat blk) i")
  case True
  then obtain i where i: "cached s (unat blk) i" by blast
  let ?f = "\<lambda>b. b\<lparr>b_refcnt := b_refcnt b + 1\<rparr>"
  have c: "i < NBUF" "b_dev (buf_at s i) = 1" "b_blockno (buf_at s i) = blk"
    using i by (auto simp: cached_def intro: unsigned_word_eqI)
  have nb: "\<not> blocked s i" using assms(4) [OF i] .
  have "buf_ok (memdisk s) (blocked s i) (buf_at s i)" using assms(2) c(1) by (simp add: bio_inv_def)
  then have ok: "b_refcnt (buf_at s i) = 0" "b_valid (buf_at s i)" using c nb by (auto simp: buf_ok_def)
  have len: "length (bufs s) = NBUF + 1" using bio_inv_ring [OF assms(2)] .
  have "bread 1 blk s = Ret i (lock_buf p i ?f s)"
    using bget_hit [OF assms(1,2) i nb] ok(2) c(1) len by (simp add: bread_def)
  moreover have "keeps_links ?f" by (simp add: keeps_links_def)
  ultimately show ?thesis
    using c nb ok i bview_cached [OF assms(2) i ok(2)] by (intro exI [of _ i] exI [of _ ?f]) simp
next
  case False
  then have nc: "\<And>i. \<not> cached s (unat blk) i" by blast
  have "card (busy s) < NBUF" using assms(5) False by blast
  then obtain i where i: "free_buf s i" and get: "bget 1 blk s = Ret i (lock_buf p i (\<lambda>b. b\<lparr>b_dev := 1, b_blockno := blk,
      b_valid := False, b_dirty := False, b_refcnt := 1\<rparr>) s)"
    using bget_miss [OF assms(1,2) nc busy_free [OF assms(2)]] by blast
  let ?t = "lock_buf p i (\<lambda>b. b\<lparr>b_dev := 1, b_blockno := blk, b_valid := False, b_dirty := False, b_refcnt := 1\<rparr>) s"
  let ?f = "\<lambda>b. b\<lparr>b_dev := 1, b_blockno := blk, b_dirty := False, b_refcnt := 1, b_data := memdisk s (unat blk), b_valid := True\<rparr>"
  have len: "length (bufs s) = NBUF + 1" using bio_inv_ring [OF assms(2)] .
  have c: "i < NBUF" "\<not> b_dirty (buf_at s i)" using i by (auto simp: free_buf_def)
  have nb: "\<not> blocked s i"
    using i assms(2) by (auto simp: bio_inv_def free_buf_def buf_ok_def split: if_splits)
  have at: "buf_at ?t i = (buf_at s i)\<lparr>b_dev := 1, b_blockno := blk, b_valid := False, b_dirty := False, b_refcnt := 1\<rparr>"
    using c len by simp
  have "iderw i ?t = Ret () (upd_buf i (\<lambda>b. b\<lparr>b_data := memdisk ?t (unat (b_blockno (buf_at ?t i))), b_valid := True\<rparr>) ?t)"
    by (rule iderw_read [of p]) (use assms(1,3) at c len in simp_all)
  also have "upd_buf i (\<lambda>b. b\<lparr>b_data := memdisk ?t (unat (b_blockno (buf_at ?t i))), b_valid := True\<rparr>) ?t = lock_buf p i ?f s"
    by (rule bio_state.equality) (use c len in \<open>simp_all add: lock_buf_def upd_buf_def\<close>)
  finally have "bread 1 blk s = Ret i (lock_buf p i ?f s)"
    using get at by (simp add: bread_def)
  moreover have "keeps_links ?f" by (simp add: keeps_links_def)
  ultimately show ?thesis
    using c nb nc bview_uncached [of s "unat blk"] by (intro exI [of _ i] exI [of _ ?f]) simp
qed

lemma lock_buf_others:
  "others_same i s (lock_buf p i f s)"
  by (auto simp: others_same_def lock_buf_def upd_buf_def)

lemma cached_upd:
  assumes "length (bufs s) = NBUF + 1" "i < NBUF"
  shows "cached (lock_buf p i f s) n i \<longleftrightarrow> b_dev (f (buf_at s i)) = 1 \<and> unat (b_blockno (f (buf_at s i))) = n"
    "buf_at (lock_buf p i f s) i = f (buf_at s i)" "blocked (lock_buf p i f s) i"
  using assms by (auto simp: cached_def lock_buf_def upd_buf_def blocked_def)

lemma dirty_change:
  assumes "others_same i s s'"
    and "\<And>n. cached s' n i \<and> b_dirty (buf_at s' i) \<longleftrightarrow> cached s n i \<and> b_dirty (buf_at s i)"
  shows "dirty s' = dirty s"
proof -
  have "cached s' n j \<and> b_dirty (buf_at s' j) \<longleftrightarrow> cached s n j \<and> b_dirty (buf_at s j)" for n j
  proof (cases "j = i")
    case False
    note o = others_sameD [OF assms(1) False]
    show ?thesis using o(1) bcoreD(2) [OF o(3)] by (auto simp: cached_def)
  qed (use assms(2) in simp)
  then show ?thesis by (simp add: dirty_def)
qed

lemma busy_change:
  assumes "others_same i s s'" "i < NBUF"
  shows "busy s' = (if blocked s' i \<or> b_dirty (buf_at s' i) then insert i (busy s) else busy s - {i})"
proof -
  have "j \<in> busy s' \<longleftrightarrow> j \<in> busy s" if "j \<noteq> i" for j
    using others_sameD [OF assms(1) that] bcoreD(2) [of "buf_at s' j" "buf_at s j"] by (auto simp: busy_def)
  moreover have "i \<in> busy s' \<longleftrightarrow> blocked s' i \<or> b_dirty (buf_at s' i)" using assms(2) by (simp add: busy_def)
  ultimately show ?thesis by (simp add: set_eq_iff) metis
qed

lemma bread_spec:
  assumes "in_proc p s" "bio_inv s" "unat blk < disksize s" "\<And>i. cached s (unat blk) i \<Longrightarrow> \<not> blocked s i"
    and "(\<exists>i. cached s (unat blk) i) \<or> card (busy s) < NBUF"
  shows "\<exists>i s'. bread 1 blk s = Ret i s' \<and> bread_post p (unat blk) i s s'"
proof -
  let ?n = "unat blk"
  obtain i f where rd: "bread 1 blk s = Ret i (lock_buf p i f s)" and i: "i < NBUF" "\<not> blocked s i" "keeps_links f"
    and b': "b_dev (f (buf_at s i)) = 1" "b_blockno (f (buf_at s i)) = blk" "b_valid (f (buf_at s i))"
      "b_refcnt (f (buf_at s i)) = 1" "b_dirty (f (buf_at s i)) = b_dirty (buf_at s i)"
      "b_data (f (buf_at s i)) = bview s ?n"
    and new: "\<not> cached s ?n i \<Longrightarrow> (\<forall>j. \<not> cached s ?n j) \<and> \<not> b_dirty (buf_at s i)"
    using bread_ret [OF assms] unfolding Let_def by blast
  let ?s = "lock_buf p i f s"
  have len: "length (bufs s) = NBUF + 1" using bio_inv_ring [OF assms(2)] .
  note at = cached_upd [OF len i(1), of p f]
  have cch: "cached ?s n i \<longleftrightarrow> n = ?n" for n using at(1) b' by auto
  have oth: "others_same i s ?s" by (rule lock_buf_others)
  obtain xs where xs: "ring (bufs s) xs" using assms(2) by (auto simp: bio_inv_def)
  have uniq: "j = i" if "cached s ?n j" for j
    using that new assms(2) unfolding bio_inv_def by metis
  have inv: "bio_inv ?s"
  proof (rule bio_inv_change [OF assms(2) _ oth])
    show "ring (bufs ?s) xs" using ring_keeps_links [OF xs i(3)] by simp
    show "buf_ok (memdisk ?s) (blocked ?s i) (buf_at ?s i)" using at b' by (simp add: buf_ok_def)
    show "j = i" if "cached ?s n i" "cached s n j" for n j using that cch uniq by simp
  qed simp
  have ok: "buf_ok (memdisk s) (blocked s i) (buf_at s i)" using assms(2) i(1) by (simp add: bio_inv_def)
  have "bview ?s n = bview s n" for n
  proof (cases "n = ?n")
    case True
    then show ?thesis using bview_change(1) [OF assms(2) inv oth] cch at(2) b' by simp
  next
    case False
    then have nc: "\<not> cached ?s n i" using cch by simp
    show ?thesis
    proof (cases "cached s n i")
      case True
      then have "b_valid (buf_at s i)" "\<not> b_dirty (buf_at s i)" "unat (b_blockno (buf_at s i)) = n" "b_dev (buf_at s i) = 1"
        using ok i(2) new False by (auto simp: buf_ok_def cached_def)
      with True show ?thesis
        using bview_change(2) [OF assms(2) inv oth nc] bview_cached [OF assms(2) True] ok i(2) by (auto simp: buf_ok_def)
    qed (use bview_change(3) [OF assms(2) inv oth nc] in simp)
  qed
  moreover have "has_buf p ?n i ?s" using cch at(2) b' by (simp add: has_buf_def)
  moreover have "busy ?s = insert i (busy s)" using busy_change [OF oth i(1)] at(3) by simp
  moreover have "dirty ?s = dirty s"
  proof (rule dirty_change [OF oth])
    show "cached ?s n i \<and> b_dirty (buf_at ?s i) \<longleftrightarrow> cached s n i \<and> b_dirty (buf_at s i)" for n
      using cch at(2) b' new by (auto simp: cached_def)
  qed
  moreover have "b_dirty (buf_at ?s i) \<or> b_data (buf_at ?s i) = memdisk s ?n"
  proof (cases "cached s ?n i")
    case True
    then show ?thesis using at(2) b' ok i(2) bview_cached [OF assms(2) True] by (auto simp: buf_ok_def cached_def)
  qed (use at(2) b' new bview_uncached [of s ?n] in simp)
  moreover have "bio_rel p s ?s"
    using assms(1) inv by (simp add: bio_rel_def lock_buf_def upd_buf_def)
  ultimately show ?thesis using rd i(2) oth at(2) b'
    by (intro exI [of _ i] exI [of _ ?s]) (simp add: bread_post_def fun_eq_iff)
qed

text \<open>A step on the buffer the caller holds.\<close>

lemma held_change:
  assumes inv: "bio_inv s" and c: "cached s n i" and ring: "ring (bufs s') xs" and oth: "others_same i s s'"
    and b': "b_dev (buf_at s' i) = 1" "b_blockno (buf_at s' i) = b_blockno (buf_at s i)" "b_valid (buf_at s' i)"
    and ok: "buf_ok (memdisk s') (blocked s' i) (buf_at s' i)"
    and disk: "\<And>m. m \<noteq> n \<Longrightarrow> memdisk s' m = memdisk s m"
  shows "bio_inv s'" "bview s' = (bview s)(n := b_data (buf_at s' i))" "cached s' = cached s"
    "dirty s' = (if b_dirty (buf_at s' i) then insert n (dirty s) else dirty s - {n})"
proof -
  have i: "i < NBUF" "unat (b_blockno (buf_at s i)) = n" "b_dev (buf_at s i) = 1" using c by (auto simp: cached_def)
  have cc: "cached s' m j = cached s m j" for m j
    using others_sameD(1) [OF oth] b' i by (cases "j = i") (auto simp: cached_def)
  then show "cached s' = cached s" by (simp add: fun_eq_iff)
  have ci: "cached s m i \<longleftrightarrow> m = n" for m using c i by (auto simp: cached_def)
  have uniq: "j = i" if "cached s n j" for j using that c inv unfolding bio_inv_def by metis
  show inv': "bio_inv s'"
  proof (rule bio_inv_change [OF inv ring oth ok])
    show "memdisk s' m = memdisk s m" if "j \<noteq> i" "cached s m j" for m j using that uniq disk by metis
  qed (use cc ci uniq in auto)
  show "bview s' = (bview s)(n := b_data (buf_at s' i))"
  proof
    fix m
    show "bview s' m = ((bview s)(n := b_data (buf_at s' i))) m"
      using bview_change [OF inv inv' oth, of m] ci cc b'(3) disk by (cases "m = n") simp_all
  qed
  have "cached s' m j \<and> b_dirty (buf_at s' j) \<longleftrightarrow> cached s m j \<and> (if m = n then b_dirty (buf_at s' i) else b_dirty (buf_at s j))" for m j
  proof (cases "j = i")
    case False
    note o = others_sameD [OF oth False]
    show ?thesis using o(1) bcoreD(2) [OF o(3)] False uniq by (auto simp: cached_def)
  qed (use cc ci in auto)
  then show "dirty s' = (if b_dirty (buf_at s' i) then insert n (dirty s) else dirty s - {n})"
    using c by (auto simp: dirty_def split: if_splits)
qed

lemma has_bufD:
  assumes "has_buf p n i s" "bio_inv s"
  shows "i < NBUF" "cached s n i" "b_dev (buf_at s i) = 1" "unat (b_blockno (buf_at s i)) = n" "b_valid (buf_at s i)"
    "blocked s i" "b_refcnt (buf_at s i) = 1" "holds (SlBuf i) p s" "bview s n = b_data (buf_at s i)"
proof -
  show "i < NBUF" "cached s n i" "b_dev (buf_at s i) = 1" "unat (b_blockno (buf_at s i)) = n" "b_valid (buf_at s i)"
    "holds (SlBuf i) p s" using assms(1) by (auto simp: has_buf_def cached_def)
  then show "blocked s i" by (simp add: holds_def blocked_def)
  with \<open>i < NBUF\<close> show "b_refcnt (buf_at s i) = 1" using assms(2) by (simp add: bio_inv_def buf_ok_def)
  show "bview s n = b_data (buf_at s i)" using bview_cached [OF assms(2)] assms(1) by (simp add: has_buf_def)
qed

text \<open>The caller rewrites the data of a buffer it holds.\<close>

lemma set_data_spec:
  fixes s :: "'a bio_state_scheme" and d :: block
  assumes "in_proc p s" "bio_inv s" "has_buf p n i s"
  defines "s' \<equiv> upd_buf i (\<lambda>b. b\<lparr>b_data := d\<rparr>) s"
  shows "bio_rel p s s'" "has_buf p n i s'" "bview s' = (bview s)(n := d)" "memdisk s' = memdisk s" "dtrace s' = dtrace s"
    "busy s' = busy s" "dirty s' = dirty s" "others_same i s s'" "b_dirty (buf_at s' i) = b_dirty (buf_at s i)"
    "b_data (buf_at s' i) = d" "cached s' = cached s"
proof -
  note h = has_bufD [OF assms(3,2)]
  have len: "length (bufs s) = NBUF + 1" using bio_inv_ring [OF assms(2)] .
  obtain xs where xs: "ring (bufs s) xs" using assms(2) by (auto simp: bio_inv_def)
  have at: "buf_at s' i = (buf_at s i)\<lparr>b_data := d\<rparr>" using h(1) len by (simp add: s'_def upd_buf_def)
  show oth: "others_same i s s'" by (auto simp: s'_def others_same_def upd_buf_def)
  have r: "ring (bufs s') xs" using ring_upd [OF xs] by (simp add: s'_def upd_buf_def)
  have bl: "blocked s' i" using h(6) by (simp add: s'_def upd_buf_def blocked_def)
  have ok: "buf_ok (memdisk s') (blocked s' i) (buf_at s' i)" using at bl h by (simp add: buf_ok_def)
  note ch = held_change [OF assms(2) h(2) r oth _ _ _ ok]
  have md: "memdisk s' = memdisk s" by (simp add: s'_def upd_buf_def)
  have inv: "bio_inv s'" "bview s' = (bview s)(n := d)" "cached s' = cached s"
    "dirty s' = (if b_dirty (buf_at s i) then insert n (dirty s) else dirty s - {n})"
    using ch at h md by simp_all
  then show "bview s' = (bview s)(n := d)" "cached s' = cached s" by simp_all
  show "bio_rel p s s'" using assms(1) inv(1) by (simp add: bio_rel_def s'_def) (simp add: upd_buf_def)
  show "has_buf p n i s'" using h at inv(3) by (simp add: has_buf_def holds_def) (simp add: s'_def upd_buf_def)
  show "memdisk s' = memdisk s" "dtrace s' = dtrace s" by (simp_all add: s'_def upd_buf_def)
  show "busy s' = busy s"
    using busy_change [OF oth h(1)] bl h(1,6) by (auto simp: busy_def)
  have "n \<in> dirty s \<longleftrightarrow> b_dirty (buf_at s i)"
    using assms(2) h(2) unfolding dirty_def bio_inv_def by blast
  then show "dirty s' = dirty s" using inv(4) by auto
  show "b_dirty (buf_at s' i) = b_dirty (buf_at s i)" "b_data (buf_at s' i) = d" using at by simp_all
qed

text \<open>Writing it to the disk.\<close>

definition bwrite_post :: "nat \<Rightarrow> nat \<Rightarrow> nat \<Rightarrow> 'a bio_state_scheme \<Rightarrow> 'a bio_state_scheme \<Rightarrow> bool" where
  "bwrite_post p n i s s' \<longleftrightarrow> bio_rel p s s' \<and> has_buf p n i s' \<and> bview s' = bview s \<and>
     memdisk s' = (memdisk s)(n := bview s n) \<and> dtrace s' = dtrace s @ [(n, bview s n)] \<and> busy s' = busy s \<and>
     dirty s' = dirty s - {n} \<and> others_same i s s' \<and> \<not> b_dirty (buf_at s' i) \<and> b_data (buf_at s' i) = b_data (buf_at s i)"

lemma bwrite_spec:
  assumes "in_proc p s" "bio_inv s" "has_buf p n i s" "n < disksize s"
  shows "\<exists>s'. bwrite i s = Ret () s' \<and> bwrite_post p n i s s'"
proof -
  note h = has_bufD [OF assms(3,2)]
  let ?t = "upd_buf i (\<lambda>b. b\<lparr>b_dirty := True\<rparr>) s"
  let ?s = "s\<lparr>bufs := (bufs s)[i := (buf_at s i)\<lparr>b_dirty := False, b_valid := True\<rparr>],
     memdisk := (memdisk s)(n := b_data (buf_at s i)), dtrace := dtrace s @ [(n, b_data (buf_at s i))]\<rparr>"
  have len: "length (bufs s) = NBUF + 1" using bio_inv_ring [OF assms(2)] .
  have "iderw i ?t = Ret () ?s"
    using iderw_write [of p ?t i] assms(1,4) h len by (simp add: upd_buf_def holds_def)
  then have w: "bwrite i s = Ret () ?s" by (simp add: bwrite_def holdingsleep_holds [OF assms(1) h(8)])
  obtain xs where xs: "ring (bufs s) xs" using assms(2) by (auto simp: bio_inv_def)
  have at: "buf_at ?s i = (buf_at s i)\<lparr>b_dirty := False, b_valid := True\<rparr>" using h(1) len by simp
  have oth: "others_same i s ?s" by (simp add: others_same_def)
  have r: "ring (bufs ?s) xs" using ring_upd [OF xs] by simp
  have bl: "blocked ?s i" using h(6) by (simp add: blocked_def)
  have ok: "buf_ok (memdisk ?s) (blocked ?s i) (buf_at ?s i)" using at bl h by (simp add: buf_ok_def)
  have inv: "bio_inv ?s" "bview ?s = (bview s)(n := b_data (buf_at s i))" "cached ?s = cached s" "dirty ?s = dirty s - {n}"
    using held_change [OF assms(2) h(2) r oth _ _ _ ok] at h by simp_all
  have "bview ?s = bview s" using inv(2) h(9) by (simp add: fun_eq_iff)
  moreover have "bio_rel p s ?s"
    using assms(1) inv(1) in_proc_cong [of ?s s p] by (simp add: bio_rel_def)
  moreover have "has_buf p n i ?s" using h at inv(3) by (simp add: has_buf_def holds_def)
  moreover have "busy ?s = busy s" using busy_change [OF oth h(1)] bl h(1,6) by (auto simp: busy_def)
  ultimately have "bwrite_post p n i s ?s" using inv(4) oth at h(9) by (simp add: bwrite_post_def)
  with w show ?thesis by blast
qed

text \<open>Giving it back; the buffer becomes the most recently used one.\<close>

definition brelse_post :: "nat \<Rightarrow> nat \<Rightarrow> nat \<Rightarrow> 'a bio_state_scheme \<Rightarrow> 'a bio_state_scheme \<Rightarrow> bool" where
  "brelse_post p n i s s' \<longleftrightarrow> bio_rel p s s' \<and> bview s' = bview s \<and> memdisk s' = memdisk s \<and> dtrace s' = dtrace s \<and>
     \<not> blocked s' i \<and> busy s' = (if b_dirty (buf_at s i) then busy s else busy s - {i}) \<and> dirty s' = dirty s \<and>
     others_same i s s' \<and> cached s' = cached s \<and> (\<forall>xs. ring (bufs s) xs \<longrightarrow> ring (bufs s') (i # remove1 i xs))"

lemma brelse_move_bufs_only: "brelse_move i s = s\<lparr>bufs := bufs (brelse_move i s)\<rparr>"
  by (simp add: brelse_move_def upd_buf_def Let_def)

lemma slp_more_bio:
  "slp_state.more t = slp_state.more s \<Longrightarrow> bufs t = bufs s \<and> memdisk t = memdisk s \<and> disksize t = disksize s \<and>
     dtrace t = dtrace s \<and> bio_state.more t = bio_state.more s"
  by (cases s rule: bio_state.cases_scheme, cases t rule: bio_state.cases_scheme, hypsubst) simp

lemma brelse_spec:
  assumes "in_proc p s" "bio_inv s" "has_buf p n i s" "b_dirty (buf_at s i) \<or> b_data (buf_at s i) = memdisk s n"
  shows "\<exists>s'. brelse i s = Ret () s' \<and> brelse_post p n i s s'"
proof -
  note h = has_bufD [OF assms(3,2)]
  obtain t where t: "releasesleep (SlBuf i) s = Ret () t" "in_proc p t" "slot t p = slot s p"
    "slocks t = (slocks s)(SlBuf i := \<lparr>sl_locked = False, sl_pid = 0\<rparr>)" "freelist t = freelist s" "mem t = mem s"
    "ticks t = ticks s" "initproc t = initproc s" "slp_state.more t = slp_state.more s"
    using releasesleep_spec [OF assms(1)] by blast
  have bt: "bufs t = bufs s" "memdisk t = memdisk s" "disksize t = disksize s" "dtrace t = dtrace s"
    "bio_state.more t = bio_state.more s"
    using slp_more_bio [OF t(9)] by simp_all
  let ?v = "upd_buf i (\<lambda>b. b\<lparr>b_refcnt := b_refcnt b - 1\<rparr>) (t\<lparr>held := [LkBcache]\<rparr>)"
  let ?b = "bufs (brelse_move i ?v)"
  let ?s = "t\<lparr>bufs := ?b\<rparr>"
  have len: "length (bufs s) = NBUF + 1" using bio_inv_ring [OF assms(2)] .
  have mv: "brelse_move i ?v = ?v\<lparr>bufs := ?b\<rparr>" by (rule brelse_move_bufs_only)
  have atv: "buf_at ?v i = (buf_at s i)\<lparr>b_refcnt := 0\<rparr>" "length (bufs ?v) = NBUF + 1"
    using h(1,7) len by (simp_all add: upd_buf_def bt)
  have "release LkBcache (brelse_move i ?v) = Ret () ?s"
    by (subst mv) (use in_procD(2) [OF t(2)] in \<open>simp add: upd_buf_def\<close>)
  then have ret: "brelse i s = Ret () ?s"
    using t(1) in_procD(2) [OF t(2)] atv by (simp add: brelse_def holdingsleep_holds [OF assms(1) h(8)])
  have rng: "ring ?b (i # remove1 i xs)" if "ring (bufs s) xs" for xs
  proof (rule brelse_move_ring [OF _ h(1)])
    show "ring (bufs ?v) xs" using ring_upd [OF that] by (simp add: upd_buf_def bt)
  qed
  obtain xs where xs: "ring (bufs s) xs" using assms(2) by (auto simp: bio_inv_def)
  have core: "bcore (buf_at ?s j) = bcore (buf_at ?v j)" if "j < NBUF" for j
    using brelse_move_core(1) [of j ?v i] that atv(2) by simp
  have at: "b_valid (buf_at ?s i)" "b_dirty (buf_at ?s i) = b_dirty (buf_at s i)" "b_dev (buf_at ?s i) = 1"
    "b_blockno (buf_at ?s i) = b_blockno (buf_at s i)" "b_refcnt (buf_at ?s i) = 0" "b_data (buf_at ?s i) = b_data (buf_at s i)"
    using bcoreD [OF core [OF h(1)]] atv(1) h by simp_all
  have oth: "others_same i s ?s"
    using core by (auto simp: others_same_def t(4)) (simp add: upd_buf_def bt)
  have bl: "\<not> blocked ?s i" by (simp add: blocked_def t(4))
  have ok: "buf_ok (memdisk ?s) (blocked ?s i) (buf_at ?s i)"
    using at bl h assms(4) by (auto simp: buf_ok_def bt)
  have "ring (bufs ?s) (i # remove1 i xs)" using rng [OF xs] by simp
  note ch = held_change [OF assms(2) h(2) this oth at(3,4,1) ok]
  have inv: "bio_inv ?s" "bview ?s = bview s" "cached ?s = cached s"
    "dirty ?s = (if b_dirty (buf_at s i) then insert n (dirty s) else dirty s - {n})"
    using ch at h(9) by (simp_all add: bt fun_eq_iff)
  have "bio_rel p s ?s" using inv(1) t by (simp add: bio_rel_def bt)
  moreover have "n \<in> dirty s \<longleftrightarrow> b_dirty (buf_at s i)"
    using assms(2) h(2) unfolding dirty_def bio_inv_def by blast
  then have "dirty ?s = dirty s" using inv(4) by auto
  moreover have "busy ?s = (if b_dirty (buf_at s i) then busy s else busy s - {i})"
    using busy_change [OF oth h(1)] bl at(2) h(1) by (auto simp: busy_def)
  ultimately have "brelse_post p n i s ?s"
    using inv bl oth rng by (simp add: brelse_post_def bt)
  with ret show ?thesis by blast
qed

section \<open>The cache meets the contract\<close>

definition held_blocks :: "'a bio_state_scheme \<Rightarrow> nat set" where
  "held_blocks s = {n. \<exists>i. cached s n i \<and> blocked s i}"

lemma bio_invD:
  assumes "bio_inv s"
  shows "cached s n i \<Longrightarrow> cached s n j \<Longrightarrow> i = j" "i < NBUF \<Longrightarrow> buf_ok (memdisk s) (blocked s i) (buf_at s i)"
  using assms by (auto simp: bio_inv_def)

lemma busy_blocks:
  assumes "bio_inv s"
  shows "card (busy s) = card (held_blocks s \<union> dirty s)" "finite (held_blocks s \<union> dirty s)"
proof -
  let ?f = "\<lambda>i. unat (b_blockno (buf_at s i))"
  have c: "cached s (?f i) i" if "i \<in> busy s" for i
    using that bio_invD(2) [OF assms, of i] by (auto simp: busy_def cached_def buf_ok_def)
  have "held_blocks s \<union> dirty s = ?f ` busy s"
  proof
    show "held_blocks s \<union> dirty s \<subseteq> ?f ` busy s"
      by (auto simp: held_blocks_def dirty_def busy_def cached_def image_iff)
    show "?f ` busy s \<subseteq> held_blocks s \<union> dirty s"
      using c by (auto simp: held_blocks_def dirty_def busy_def)
  qed
  moreover have "inj_on ?f (busy s)"
    using c bio_invD(1) [OF assms] by (auto simp: inj_on_def) metis
  moreover have "finite (busy s)" by (simp add: busy_def)
  ultimately show "card (busy s) = card (held_blocks s \<union> dirty s)" "finite (held_blocks s \<union> dirty s)"
    by (simp_all add: card_image)
qed

lemma has_buf_unique: "has_buf p n i s \<Longrightarrow> has_buf p m i s \<Longrightarrow> m = n"
  by (simp add: has_buf_def cached_def)

lemma has_buf_other:
  assumes "others_same i s s'" "slot s' p = slot s p" "j \<noteq> i" "has_buf p m j s"
  shows "has_buf p m j s'"
  using others_sameD [OF assms(1,3)] bcoreD(1) [of "buf_at s' j" "buf_at s j"] assms
  by (auto simp: has_buf_def holds_def cached_def others_same_def)

lemma bview_clean:
  assumes "bio_inv s" "n \<notin> held_blocks s" "n \<notin> dirty s"
  shows "bview s n = memdisk s n"
proof (cases "\<exists>i. cached s n i \<and> b_valid (buf_at s i)")
  case True
  then obtain i where i: "cached s n i" "b_valid (buf_at s i)" by blast
  then have "\<not> blocked s i" "\<not> b_dirty (buf_at s i)" using assms(2,3) by (auto simp: held_blocks_def dirty_def)
  then show ?thesis
    using bview_cached [OF assms(1) i] bio_invD(2) [OF assms(1), of i] i by (auto simp: buf_ok_def cached_def)
qed (use bview_uncached [of s n] in blast)

lemma dirty_iff: "bio_inv s \<Longrightarrow> cached s n i \<Longrightarrow> n \<in> dirty s \<longleftrightarrow> b_dirty (buf_at s i)"
  using bio_invD(1) [of s] by (auto simp: dirty_def)

lemma held_blocks_split:
  assumes "others_same i s s'"
  shows "m \<in> held_blocks s' \<longleftrightarrow> (\<exists>j. j \<noteq> i \<and> cached s m j \<and> blocked s j) \<or> cached s' m i \<and> blocked s' i"
    and "m \<in> held_blocks s \<longleftrightarrow> (\<exists>j. j \<noteq> i \<and> cached s m j \<and> blocked s j) \<or> cached s m i \<and> blocked s i"
proof -
  have "cached s' m j \<and> blocked s' j \<longleftrightarrow> cached s m j \<and> blocked s j" if "j \<noteq> i" for j
    using others_sameD(1,2) [OF assms that] by (auto simp: cached_def)
  then show "m \<in> held_blocks s' \<longleftrightarrow> (\<exists>j. j \<noteq> i \<and> cached s m j \<and> blocked s j) \<or> cached s' m i \<and> blocked s' i"
    unfolding held_blocks_def mem_Collect_eq by metis
  show "m \<in> held_blocks s \<longleftrightarrow> (\<exists>j. j \<noteq> i \<and> cached s m j \<and> blocked s j) \<or> cached s m i \<and> blocked s i"
    by (auto simp: held_blocks_def)
qed

text \<open>The posts of the operations in terms of blocks.\<close>

lemma bread_block:
  assumes "bread_post p n i s s'"
  shows "held_blocks s' = insert n (held_blocks s)" "has_buf p m j s \<Longrightarrow> has_buf p m j s'"
proof -
  have b: "has_buf p n i s'" "\<not> blocked s i" "others_same i s s'" "bio_inv s'" "slot s' p = slot s p"
    using assms by (auto simp: bread_post_def bio_rel_def)
  have c: "blocked s' i" "cached s' m i \<longleftrightarrow> m = n" for m
    using has_bufD [OF b(1,4)] by (auto simp: cached_def)
  show "held_blocks s' = insert n (held_blocks s)"
    using held_blocks_split [OF b(3)] b(2) c by (auto simp: set_eq_iff)
  show "has_buf p m j s'" if "has_buf p m j s"
  proof -
    have "blocked s j" using that by (simp add: has_buf_def holds_def blocked_def)
    with b(2) have "j \<noteq> i" by blast
    from has_buf_other [OF b(3,5) this that] show ?thesis .
  qed
qed

lemma held_block:
  assumes "has_buf p n i s" "has_buf p n i s'" "others_same i s s'" "slot s' p = slot s p" "cached s' = cached s"
  shows "held_blocks s' = held_blocks s" "has_buf p m j s \<Longrightarrow> has_buf p m j s'"
proof -
  have "blocked s i" "blocked s' i" using assms(1,2) by (auto simp: has_buf_def holds_def blocked_def)
  then show "held_blocks s' = held_blocks s" using held_blocks_split [OF assms(3)] assms(5) by (auto simp: set_eq_iff)
  show "has_buf p m j s'" if "has_buf p m j s"
    using has_buf_other [OF assms(3,4) _ that] has_buf_unique [OF assms(1)] that assms(2) by (cases "j = i") auto
qed

lemma brelse_block:
  assumes "brelse_post p n i s s'" "has_buf p n i s" "bio_inv s"
  shows "held_blocks s' = held_blocks s - {n}" "j \<noteq> i \<Longrightarrow> has_buf p m j s \<Longrightarrow> has_buf p m j s'"
proof -
  have b: "\<not> blocked s' i" "others_same i s s'" "slot s' p = slot s p"
    using assms(1) by (auto simp: brelse_post_def bio_rel_def)
  have c: "cached s m i \<longleftrightarrow> m = n" "cached s n j \<Longrightarrow> j = i" for m j
    using has_bufD(2) [OF assms(2,3)] bio_invD(1) [OF assms(3)] by (auto simp: cached_def)
  show "held_blocks s' = held_blocks s - {n}"
    using held_blocks_split [OF b(2)] b(1) c by (auto simp: set_eq_iff)
  show "j \<noteq> i \<Longrightarrow> has_buf p m j s \<Longrightarrow> has_buf p m j s'" using has_buf_other [OF b(2,3)] by blast
qed

lemma bwrite_cached:
  assumes "bwrite_post p n i s s'" "has_buf p n i s"
  shows "cached s' = cached s"
proof -
  have "others_same i s s'" "has_buf p n i s'" using assms(1) by (auto simp: bwrite_post_def)
  moreover have "cached t m i \<longleftrightarrow> m = n" if "has_buf p n i t" for m and t :: "'a bio_state_scheme"
    using that by (auto simp: has_buf_def cached_def)
  ultimately have "cached s' m j = cached s m j" for m j
    using others_sameD(1) [of i s s' j] assms(2) by (cases "j = i") auto
  then show ?thesis by (simp add: fun_eq_iff)
qed

text \<open>Marking a held buffer dirty keeps its block in the cache.\<close>

lemma pin_spec:
  fixes s :: "'a bio_state_scheme"
  assumes "in_proc p s" "bio_inv s" "has_buf p n i s"
  defines "s' \<equiv> upd_buf i (\<lambda>b. b\<lparr>b_dirty := True\<rparr>) s"
  shows "bio_rel p s s'" "bview s' = bview s" "memdisk s' = memdisk s" "dtrace s' = dtrace s" "dirty s' = insert n (dirty s)"
    "held_blocks s' = held_blocks s" "has_buf p m j s \<Longrightarrow> has_buf p m j s'"
proof -
  note h = has_bufD [OF assms(3,2)]
  have len: "length (bufs s) = NBUF + 1" using bio_inv_ring [OF assms(2)] .
  obtain xs where xs: "ring (bufs s) xs" using assms(2) by (auto simp: bio_inv_def)
  have at: "buf_at s' i = (buf_at s i)\<lparr>b_dirty := True\<rparr>" using h(1) len by (simp add: s'_def upd_buf_def)
  have oth: "others_same i s s'" by (auto simp: s'_def others_same_def upd_buf_def)
  have r: "ring (bufs s') xs" using ring_upd [OF xs] by (simp add: s'_def upd_buf_def)
  have bl: "blocked s' i" using h(6) by (simp add: s'_def upd_buf_def blocked_def)
  have ok: "buf_ok (memdisk s') (blocked s' i) (buf_at s' i)" using at bl h by (simp add: buf_ok_def)
  show md: "memdisk s' = memdisk s" "dtrace s' = dtrace s" by (simp_all add: s'_def upd_buf_def)
  have inv: "bio_inv s'" "bview s' = (bview s)(n := b_data (buf_at s i))" "cached s' = cached s" "dirty s' = insert n (dirty s)"
    using held_change [OF assms(2) h(2) r oth _ _ _ ok] at h md by simp_all
  then show "bview s' = bview s" "dirty s' = insert n (dirty s)" using h(9) by (simp_all add: fun_eq_iff)
  show rel: "bio_rel p s s'" using assms(1) inv(1) by (simp add: bio_rel_def s'_def) (simp add: upd_buf_def)
  have hb: "has_buf p n i s'" using h at inv(3) by (simp add: has_buf_def holds_def) (simp add: s'_def upd_buf_def)
  note held_block [OF assms(3) hb oth bio_relD(4) [OF rel] inv(3)]
  then show "held_blocks s' = held_blocks s" "has_buf p m j s \<Longrightarrow> has_buf p m j s'" by auto
qed

interpretation bc: block_cache "bread 1" bwrite brelse "\<lambda>i d. upd_buf i (\<lambda>b. b\<lparr>b_data := d\<rparr>)" "\<lambda>s i. b_data (buf_at s i)"
  "\<lambda>s. in_proc p s \<and> bio_inv s" "bio_rel p" "has_buf p" bview memdisk dtrace held_blocks dirty disksize NBUF
  for p
proof (unfold_locales, goal_cases)
  case (1 s t u)
  then show ?case by (rule bio_rel_trans)
next
  case (2 s t)
  then show ?case by (simp add: bio_rel_def)
next
  case (3 s)
  then show ?case using busy_blocks(2) by blast
next
  case (4 s n i)
  then show ?case using has_bufD(9) by metis
next
  case (5 s n i m)
  then show ?case using has_buf_unique by blast
next
  case (6 s n)
  then show ?case using bview_clean by blast
next
  case (7 s b)
  have nb: "\<not> blocked s i" if "cached s (unat b) i" for i using that 7(3) by (auto simp: held_blocks_def)
  have "(\<exists>i. cached s (unat b) i) \<or> card (busy s) < NBUF"
    using 7(1,4) busy_blocks(1) [of s] by (auto simp: dirty_def)
  then obtain i s' where r: "bread 1 b s = Ret i s'" "bread_post p (unat b) i s s'"
    using bread_spec [of p s b] 7(1,2) nb by blast
  show ?case using r bread_block [OF r(2)]
    by (intro exI [of _ i] exI [of _ s']) (simp add: bread_post_def bio_rel_def)
next
  case (8 s n i d)
  have i: "in_proc p s" "bio_inv s" using 8(1) by auto
  note d = set_data_spec [OF i 8(2), of d]
  show ?case using d held_block [OF 8(2) d(2,8) bio_relD(4) [OF d(1)] d(11)] bio_relD(1,2) [OF d(1)] by simp
next
  case (9 s n i)
  have i: "in_proc p s" "bio_inv s" using 9(1) by auto
  obtain s' where r: "bwrite i s = Ret () s'" "bwrite_post p n i s s'" using bwrite_spec [OF i 9(2,3)] by blast
  then have b: "bio_rel p s s'" "has_buf p n i s'" "others_same i s s'" by (auto simp: bwrite_post_def)
  show ?case using r held_block [OF 9(2) b(2,3) bio_relD(4) [OF b(1)] bwrite_cached [OF r(2) 9(2)]] bio_relD(1,2) [OF b(1)]
    by (intro exI [of _ s']) (simp add: bwrite_post_def)
next
  case (10 s n i)
  have i: "in_proc p s" "bio_inv s" using 10(1) by auto
  have "b_dirty (buf_at s i) \<or> b_data (buf_at s i) = memdisk s n"
    using 10(3) dirty_iff [OF i(2) has_bufD(2) [OF 10(2) i(2)]] has_bufD(9) [OF 10(2) i(2)] by simp
  then obtain s' where r: "brelse i s = Ret () s'" "brelse_post p n i s s'" using brelse_spec [OF i 10(2)] by blast
  show ?case using r brelse_block [OF r(2) 10(2) i(2)]
    by (intro exI [of _ s']) (simp add: brelse_post_def bio_rel_def)
qed

section \<open>The cache after boot\<close>

definition buf0 :: buf where
  "buf0 = \<lparr>b_valid = False, b_dirty = False, b_dev = 0, b_blockno = 0, b_refcnt = 0, b_prev = 0, b_next = 0,
     b_data = replicate BSIZE 0\<rparr>"

lemma upd_link_core:
  assumes "\<And>b. bcore (f b) = bcore b"
  shows "map bcore (bufs (upd_buf i f s)) = map bcore (bufs s)"
proof (cases "i < length (bufs s)")
  case True
  then show ?thesis by (simp add: upd_buf_def map_update assms) (metis list_update_id map_update nth_map)
qed (simp add: upd_buf_def not_less list_update_beyond)

lemma binit_one_spec:
  "map bcore (bufs (binit_one i s)) = map bcore (bufs s)"
  "slocks (binit_one i s) = (slocks s)(SlBuf i := \<lparr>sl_locked = False, sl_pid = 0\<rparr>)"
  "binit_one i s = s\<lparr>slocks := slocks (binit_one i s), bufs := bufs (binit_one i s)\<rparr>"
proof -
  have slk: "bufs (initsleeplock l t) = bufs t" for l t by (simp add: initsleeplock_def)
  show "map bcore (bufs (binit_one i s)) = map bcore (bufs s)"
    by (simp add: binit_one_def Let_def upd_link_core slk bcore_def)
  show "slocks (binit_one i s) = (slocks s)(SlBuf i := \<lparr>sl_locked = False, sl_pid = 0\<rparr>)"
    by (simp add: binit_one_def Let_def upd_buf_def initsleeplock_def)
  show "binit_one i s = s\<lparr>slocks := slocks (binit_one i s), bufs := bufs (binit_one i s)\<rparr>"
    by (rule bio_state.equality) (simp_all add: binit_one_def Let_def upd_buf_def initsleeplock_def)
qed

lemma binit_fold:
  "map bcore (bufs (fold binit_one is s)) = map bcore (bufs s)"
  "i \<in> set is \<Longrightarrow> slocks (fold binit_one is s) (SlBuf i) = \<lparr>sl_locked = False, sl_pid = 0\<rparr>"
  "\<exists>l b. fold binit_one is s = s\<lparr>slocks := l, bufs := b\<rparr>"
proof -
  show "map bcore (bufs (fold binit_one is s)) = map bcore (bufs s)"
    by (induction "is" arbitrary: s) (simp_all add: binit_one_spec(1))
  show "\<exists>l b. fold binit_one is s = s\<lparr>slocks := l, bufs := b\<rparr>"
  proof (induction "is" arbitrary: s)
    case Nil
    have "fold binit_one [] s = s\<lparr>slocks := slocks s, bufs := bufs s\<rparr>" by simp
    then show ?case by blast
  next
    case (Cons j js)
    obtain l b where "fold binit_one js (binit_one j s) = (binit_one j s)\<lparr>slocks := l, bufs := b\<rparr>"
      using Cons.IH by blast
    also have "\<dots> = s\<lparr>slocks := l, bufs := b\<rparr>"
      by (subst binit_one_spec(3)) simp
    finally show ?case by auto
  qed
  show "i \<in> set is \<Longrightarrow> slocks (fold binit_one is s) (SlBuf i) = \<lparr>sl_locked = False, sl_pid = 0\<rparr>"
  proof (induction "is" rule: rev_induct)
    case (snoc j js)
    then show ?case by (cases "i = j") (auto simp: binit_one_spec(2))
  qed simp
qed

lemma binit_frame: "\<exists>l b. binit s = s\<lparr>slocks := l, bufs := b\<rparr>"
proof -
  let ?t = "upd_buf bhead (\<lambda>b. b\<lparr>b_next := bhead\<rparr>) (upd_buf bhead (\<lambda>b. b\<lparr>b_prev := bhead\<rparr>) s)"
  have "binit s = fold binit_one [0..<NBUF] ?t" by (simp add: binit_def Let_def)
  then obtain l b where "binit s = ?t\<lparr>slocks := l, bufs := b\<rparr>"
    using binit_fold(3) [of "[0..<NBUF]" ?t] by auto
  moreover have "?t\<lparr>slocks := l, bufs := b\<rparr> = s\<lparr>slocks := l, bufs := b\<rparr>"
    by (rule bio_state.equality) (simp_all add: upd_buf_def)
  ultimately show ?thesis by auto
qed

lemma binit_spec:
  assumes "bufs s = replicate (NBUF + 1) buf0"
  shows "bio_inv (binit s)" "memdisk (binit s) = memdisk s" "bview (binit s) = memdisk s"
    "\<And>n i. \<not> cached (binit s) n i" "busy (binit s) = {}" "dirty (binit s) = {}" "held_blocks (binit s) = {}"
    "i < NBUF \<Longrightarrow> \<not> blocked (binit s) i"
proof -
  let ?t = "upd_buf bhead (\<lambda>b. b\<lparr>b_next := bhead\<rparr>) (upd_buf bhead (\<lambda>b. b\<lparr>b_prev := bhead\<rparr>) s)"
  have b: "binit s = fold binit_one [0..<NBUF] ?t" by (simp add: binit_def Let_def)
  have m: "map bcore (bufs (binit s)) = replicate (NBUF + 1) (bcore buf0)"
    unfolding b binit_fold(1) by (simp add: upd_link_core bcore_def assms)
  have len: "length (bufs (binit s)) = NBUF + 1" using arg_cong [OF m, of length] by simp
  have core: "bcore (buf_at (binit s) i) = bcore buf0" if "i < NBUF" for i
    using arg_cong [OF m, of "\<lambda>l. l ! i"] that len by (simp del: replicate_Suc)
  have at: "b_dev (buf_at (binit s) i) = 0" "\<not> b_valid (buf_at (binit s) i)" "\<not> b_dirty (buf_at (binit s) i)"
    "b_refcnt (buf_at (binit s) i) = 0" if "i < NBUF" for i
    using bcoreD [OF core [OF that]] by (simp_all add: buf0_def)
  show un: "\<not> blocked (binit s) i" if "i < NBUF" for i
    using that unfolding b blocked_def by (simp add: binit_fold(2))
  show nc: "\<not> cached (binit s) n i" for n i using at by (auto simp: cached_def)
  have "length (bufs s) = NBUF + 1" using assms by simp
  from binit_ring [OF this] show "bio_inv (binit s)"
    unfolding bio_inv_def using nc at un by (auto simp: buf_ok_def)
  show md: "memdisk (binit s) = memdisk s" using binit_frame [of s] by auto
  show "bview (binit s) = memdisk s" using bview_uncached [of "binit s"] nc md by (simp add: fun_eq_iff)
  show "busy (binit s) = {}" using at un by (auto simp: busy_def)
  show "dirty (binit s) = {}" "held_blocks (binit s) = {}" using nc by (auto simp: dirty_def held_blocks_def)
qed

text \<open>An example: process 1 runs, the cache is the one \<open>binit\<close> builds, the disk is all zero.\<close>

definition bio_boot :: "'a \<Rightarrow> 'a bio_state_scheme" where
  "bio_boot m = (let s = proc_example PBS in
     \<lparr>held = [], use_lock = use_lock s, freelist = freelist s, mem = mem s, kend = kend s, sched_cfg = PBS,
      ptable = ptable s, nextpid = nextpid s, initproc = initproc s, ticks = ticks s, cpu_proc = Some 0, cr3 = cr3 s,
      kpgdir = kpgdir s, ts_esp0 = ts_esp0 s, trapret_addr = trapret_addr s, forkret_addr = forkret_addr s,
      queue_ptr = queue_ptr s, q_latest_idx = q_latest_idx s, klog = klog s,
      slocks = (\<lambda>_. \<lparr>sl_locked = False, sl_pid = 0\<rparr>), bufs = replicate (NBUF + 1) buf0,
      memdisk = (\<lambda>_. replicate BSIZE 0), disksize = 1000, dtrace = [], \<dots> = m\<rparr>)"

definition bio_example :: "'a \<Rightarrow> 'a bio_state_scheme" where
  "bio_example m = binit (bio_boot m)"

lemma bio_boot_simps [simp]:
  "bufs (bio_boot m) = replicate (NBUF + 1) buf0" "memdisk (bio_boot m) = (\<lambda>_. replicate BSIZE 0)"
  "disksize (bio_boot m) = 1000" "dtrace (bio_boot m) = []" "bio_state.more (bio_boot m) = m"
  "ptable (bio_boot m) = ptable (proc_example PBS)" "cpu_proc (bio_boot m) = Some 0" "held (bio_boot m) = []"
  by (simp_all add: bio_boot_def Let_def)

lemma bio_example_simps [simp]:
  "disksize (bio_example m) = 1000" "dtrace (bio_example m) = []" "bio_state.more (bio_example m) = m"
  "ptable (bio_example m) = ptable (proc_example PBS)" "memdisk (bio_example m) = (\<lambda>_. replicate BSIZE 0)"
  "held (bio_example m) = []" "cpu_proc (bio_example m) = Some 0"
  using binit_frame [of "bio_boot m"] by (auto simp: bio_example_def)

lemma in_proc_example: "in_proc 0 (bio_example m)"
proof -
  obtain l b where b: "bio_example m = (bio_boot m)\<lparr>slocks := l, bufs := b\<rparr>"
    using binit_frame [of "bio_boot m"] by (auto simp: bio_example_def)
  have "sched_inv {} (bio_example m) = sched_inv {} (proc_example PBS)"
    unfolding b by (rule sched_inv_cong) (simp_all add: bio_boot_def Let_def)
  then show ?thesis by (simp add: in_proc_def example_inv NPROC_def slot_example)
qed

lemma bio_example_ok: "bio_inv (bio_example m)" "bview (bio_example m) = (\<lambda>_. replicate BSIZE 0)"
    "\<not> cached (bio_example m) n i" "busy (bio_example m) = {}" "dirty (bio_example m) = {}"
    "held_blocks (bio_example m) = {}" "i < NBUF \<Longrightarrow> \<not> blocked (bio_example m) i"
  using binit_spec [of "bio_boot m"] by (simp_all add: bio_example_def del: replicate_Suc)

section \<open>Properties\<close>

text \<open>
  C24: bread returns. When the block is on the disk, not held by another process and some buffer is
  neither locked nor dirty, the caller gets a valid buffer of that block, locked by it, that holds
  what was last written to the block through the cache (the disk where nothing was); no block
  changes in the view or on the disk and the invariant of the cache is kept: in particular no block
  is ever in two buffers.
\<close>

theorem bread_coherent:
  assumes "in_proc p s" "bio_inv s" "unat blk < disksize s" "\<forall>i. cached s (unat blk) i \<longrightarrow> \<not> blocked s i"
    and "card (busy s) < NBUF"
  shows "\<exists>i s'. bread 1 blk s = Ret i s' \<and> in_proc p s' \<and> bio_inv s' \<and> has_buf p (unat blk) i s' \<and>
     b_data (buf_at s' i) = bview s (unat blk) \<and> bview s' = bview s \<and> memdisk s' = memdisk s \<and> dtrace s' = dtrace s"
  using bread_spec [OF assms(1-3)] assms(4,5) by (auto simp: bread_post_def bio_rel_def)

theorem bread_coherent_witness:
  "\<exists>i s'. bread 1 7 (bio_example ()) = Ret i s' \<and> has_buf 0 7 i s' \<and> b_data (buf_at s' i) = replicate BSIZE 0"
proof -
  have "unat (7::uint32) < disksize (bio_example ())" "card (busy (bio_example ())) < NBUF"
    "\<forall>i. cached (bio_example ()) (unat (7::uint32)) i \<longrightarrow> \<not> blocked (bio_example ()) i"
    by (simp_all add: bio_example_ok NBUF_def MAXOPBLOCKS_def)
  from bread_coherent [OF in_proc_example bio_example_ok(1) this(1,3,2)] show ?thesis
    by (auto simp: bio_example_ok(2))
qed

text \<open>
  C25: brelse of a held buffer whose data is on the disk (or which the log keeps dirty) returns,
  unlocks the buffer and moves it to the front of the list of buffers, the others staying in order:
  the list is in order of last use, which is what bget's walk from its other end relies on. The
  view, the disk and the invariant are kept.
\<close>

theorem brelse_most_recent:
  assumes "in_proc p s" "bio_inv s" "has_buf p n i s" "b_dirty (buf_at s i) \<or> b_data (buf_at s i) = memdisk s n"
    and "ring (bufs s) xs"
  shows "\<exists>s'. brelse i s = Ret () s' \<and> in_proc p s' \<and> bio_inv s' \<and> \<not> blocked s' i \<and>
     ring (bufs s') (i # remove1 i xs) \<and> bview s' = bview s \<and> memdisk s' = memdisk s"
  using brelse_spec [OF assms(1-4)] assms(5) by (auto simp: brelse_post_def bio_rel_def)

theorem brelse_most_recent_witness:
  "\<exists>i s s' xs. bread 1 7 (bio_example ()) = Ret i s \<and> brelse i s = Ret () s' \<and> ring (bufs s') (i # xs)"
proof -
  have 1: "unat (7::uint32) < disksize (bio_example ())" and 2: "card (busy (bio_example ())) < NBUF"
    by (simp_all add: bio_example_ok NBUF_def MAXOPBLOCKS_def)
  obtain i s where r: "bread 1 7 (bio_example ()) = Ret i s" "bread_post 0 (unat (7::uint32)) i (bio_example ()) s"
    using bread_spec [OF in_proc_example bio_example_ok(1) 1 _ disjI2 [OF 2]] by (auto simp: bio_example_ok(3))
  then have s: "in_proc 0 s" "bio_inv s" "has_buf 0 7 i s" "b_dirty (buf_at s i) \<or> b_data (buf_at s i) = memdisk s 7"
    by (auto simp: bread_post_def bio_rel_def)
  then obtain xs where "ring (bufs s) xs" by (auto simp: bio_inv_def)
  from brelse_most_recent [OF s this] r(1) show ?thesis by blast
qed

end
