(* ===== verification/Fs_Layout.thy ===== *)
theory Fs_Layout
  imports Bytes Bio
begin

text \<open>
  The on-disk format of \<open>fs.h\<close>: the super block, the inodes and the directory entries as
  structures laid over the bytes of a disk block, with the block numbers the macros compute.
\<close>

definition ROOTINO :: uint32 where "ROOTINO = 1"
definition NDIRECT :: nat where "NDIRECT = 12"
definition NINDIRECT :: nat where "NINDIRECT = BSIZE div 4"
definition MAXFILE :: nat where "MAXFILE = NDIRECT + NINDIRECT"
definition DIRSIZ :: nat where "DIRSIZ = 14"

record superblock =
  sb_size :: uint32
  sb_nblocks :: uint32
  sb_ninodes :: uint32
  sb_nlog :: uint32
  sb_logstart :: uint32
  sb_inodestart :: uint32
  sb_bmapstart :: uint32

record dinode =
  di_type :: ushort
  di_major :: ushort
  di_minor :: ushort
  di_nlink :: ushort
  di_size :: uint32
  di_addrs :: "uint32 list"

record dirent =
  de_inum :: ushort
  de_name :: "uchar list"

definition sizeof_dinode :: nat where "sizeof_dinode = 64"
definition sizeof_dirent :: nat where "sizeof_dirent = 16"
definition IPB :: nat where "IPB = BSIZE div sizeof_dinode"
definition BPB :: nat where "BPB = BSIZE * 8"

definition IBLOCK :: "uint32 \<Rightarrow> superblock \<Rightarrow> uint32" where
  "IBLOCK i sb = i div of_nat IPB + sb_inodestart sb"

definition BBLOCK :: "uint32 \<Rightarrow> superblock \<Rightarrow> uint32" where
  "BBLOCK b sb = b div of_nat BPB + sb_bmapstart sb"

lemmas layout_sizes = ROOTINO_def NDIRECT_def NINDIRECT_def MAXFILE_def DIRSIZ_def sizeof_dinode_def sizeof_dirent_def
  IPB_def BPB_def BSIZE_def

section \<open>Structures in blocks\<close>

definition get_superblock :: "block \<Rightarrow> superblock" where
  "get_superblock b = \<lparr>sb_size = get32 0 b, sb_nblocks = get32 4 b, sb_ninodes = get32 8 b, sb_nlog = get32 12 b,
     sb_logstart = get32 16 b, sb_inodestart = get32 20 b, sb_bmapstart = get32 24 b\<rparr>"

text \<open>The array of \<open>n\<close> words at an offset, and \<open>memmove\<close> of such an array into the block.\<close>

definition get32s :: "nat \<Rightarrow> nat \<Rightarrow> block \<Rightarrow> uint32 list" where
  "get32s off n b = map (\<lambda>i. get32 (off + 4 * i) b) [0..<n]"

definition put32s :: "nat \<Rightarrow> uint32 list \<Rightarrow> block \<Rightarrow> block" where
  "put32s off vs b = put_bytes off (concat (map un32 vs)) b"

text \<open>Element \<open>k\<close> of the inode array in a block: read by \<open>ilock\<close>, written field by field by \<open>iupdate\<close>.\<close>

definition get_dinode :: "nat \<Rightarrow> block \<Rightarrow> dinode" where
  "get_dinode k b = (let off = sizeof_dinode * k in
     \<lparr>di_type = get16 off b, di_major = get16 (off + 2) b, di_minor = get16 (off + 4) b, di_nlink = get16 (off + 6) b,
      di_size = get32 (off + 8) b, di_addrs = get32s (off + 12) (NDIRECT + 1) b\<rparr>)"

definition put_dinode :: "nat \<Rightarrow> dinode \<Rightarrow> block \<Rightarrow> block" where
  "put_dinode k d b = (let off = sizeof_dinode * k;
     b = put16 off (di_type d) b; b = put16 (off + 2) (di_major d) b; b = put16 (off + 4) (di_minor d) b;
     b = put16 (off + 6) (di_nlink d) b; b = put32 (off + 8) (di_size d) b
     in put32s (off + 12) (di_addrs d) b)"

definition dirent_of :: "uchar list \<Rightarrow> dirent" where
  "dirent_of xs = \<lparr>de_inum = get16 0 xs, de_name = get_bytes 2 DIRSIZ xs\<rparr>"

definition bytes_of_dirent :: "dirent \<Rightarrow> uchar list" where
  "bytes_of_dirent d = un16 (de_inum d) @ de_name d"

definition readsb :: "uint32 \<Rightarrow> 'a bio_state_scheme \<Rightarrow> (superblock, 'a bio_state_scheme) outcome" where
  "readsb dev s =
     kbind (bread dev 1 s) (\<lambda>i s.
     let sb = get_superblock (b_data (buf_at s i))
     in kbind (brelse i s) (\<lambda>_ s. Ret sb s))"

section \<open>Lemmas\<close>

lemma length_concat_un32 [simp]: "length (concat (map un32 vs)) = 4 * length vs"
  by (induction vs) simp_all

lemma length_get32s [simp]: "length (get32s off n b) = n"
  by (simp add: get32s_def)

lemma length_put32s [simp]: "off + 4 * length vs \<le> length b \<Longrightarrow> length (put32s off vs b) = length b"
  by (simp add: put32s_def)

lemma get_bytes_concat:
  "i < length vs \<Longrightarrow> get_bytes (4 * i) 4 (concat (map un32 vs)) = un32 (vs ! i)"
proof (induction vs arbitrary: i)
  case (Cons v vs)
  show ?case
  proof (cases i)
    case 0
    then show ?thesis by (simp add: get_bytes_def)
  next
    case (Suc j)
    then have "drop (4 * i) (un32 v @ concat (map un32 vs)) = drop (4 * j) (concat (map un32 vs))" by simp
    then show ?thesis using Cons Suc by (simp add: get_bytes_def)
  qed
qed simp

lemma get_bytes_get_bytes: "i + k \<le> n \<Longrightarrow> get_bytes i k (get_bytes off n b) = get_bytes (off + i) k b"
  by (simp add: get_bytes_def drop_take min_def add.commute)

lemma get32s_put32s:
  assumes "off + 4 * length vs \<le> length b"
  shows "get32s off (length vs) (put32s off vs b) = vs"
proof (rule nth_equalityI)
  fix i assume "i < length (get32s off (length vs) (put32s off vs b))"
  then have i: "i < length vs" by simp
  have "get_bytes (off + 4 * i) 4 (put32s off vs b) = get_bytes (4 * i) 4 (get_bytes off (4 * length vs) (put32s off vs b))"
    using i by (intro get_bytes_get_bytes [symmetric]) simp
  also have "\<dots> = un32 (vs ! i)"
    using assms i by (simp add: put32s_def get_bytes_concat)
  finally show "get32s off (length vs) (put32s off vs b) ! i = vs ! i"
    using i by (simp add: get32s_def get32_def)
qed simp

text \<open>Reads of a structure do not see a write to disjoint bytes.\<close>

lemma get_put_disjoint:
  assumes "off + length xs \<le> length b"
  shows "i + 2 \<le> off \<or> off + length xs \<le> i \<Longrightarrow> get16 i (put_bytes off xs b) = get16 i b"
    "i + 4 \<le> off \<or> off + length xs \<le> i \<Longrightarrow> get32 i (put_bytes off xs b) = get32 i b"
    "i + 4 * n \<le> off \<or> off + length xs \<le> i \<Longrightarrow> get32s i n (put_bytes off xs b) = get32s i n b"
  using assms by (auto simp: get16_def get32_def get32s_def get_put_other)

lemma put_dinode_length:
  assumes "k < IPB" "length (di_addrs d) = NDIRECT + 1" "length b = BSIZE"
  shows "length (put_dinode k d b) = BSIZE"
  using assms by (simp add: put_dinode_def Let_def layout_sizes)

lemma get_put_dinode:
  assumes "k < IPB" "length (di_addrs d) = NDIRECT + 1" "length b = BSIZE"
  shows "get_dinode k (put_dinode k d b) = d"
  using assms get32s_put32s [of "64 * k + 12" "di_addrs d"]
  by (simp add: get_dinode_def put_dinode_def Let_def layout_sizes put16_def put32_def put32s_def get_put_disjoint)
    (simp add: get16_def get32_def)

lemma get_put_dinode_other:
  assumes "k < IPB" "j < IPB" "j \<noteq> k" "length (di_addrs d) = NDIRECT + 1" "length b = BSIZE"
  shows "get_dinode j (put_dinode k d b) = get_dinode j b"
proof -
  have "64 * j + 64 \<le> 64 * k \<or> 64 * k + 64 \<le> 64 * j" using assms(3) by linarith
  then show ?thesis using assms
    by (elim disjE) (simp_all add: get_dinode_def put_dinode_def Let_def layout_sizes put16_def put32_def put32s_def
      get_put_disjoint)
qed

lemma dirent_of_bytes: "length (de_name d) = DIRSIZ \<Longrightarrow> dirent_of (bytes_of_dirent d) = d"
  by (simp add: dirent_of_def bytes_of_dirent_def get16_def get_bytes_def)

section \<open>Properties\<close>

text \<open>
  C26: iupdate followed by ilock's read of the disk inode gives back the inode: storing an inode
  structure into its slot of a block and loading it again is the identity, the block keeps its
  size, and the seven other inodes of the block are not affected. The same holds of a directory
  entry and its sixteen bytes.
\<close>

theorem disk_inode_roundtrip:
  assumes "k < IPB" "length (di_addrs d) = NDIRECT + 1" "length b = BSIZE" "length (de_name e) = DIRSIZ"
  shows "get_dinode k (put_dinode k d b) = d \<and> length (put_dinode k d b) = BSIZE \<and>
     (\<forall>j<IPB. j \<noteq> k \<longrightarrow> get_dinode j (put_dinode k d b) = get_dinode j b) \<and> dirent_of (bytes_of_dirent e) = e"
  using get_put_dinode get_put_dinode_other put_dinode_length dirent_of_bytes assms by blast

theorem disk_inode_roundtrip_witness:
  "get_dinode 3 (put_dinode 3 \<lparr>di_type = 2, di_major = 0, di_minor = 0, di_nlink = 1, di_size = 700,
       di_addrs = replicate 13 0xABCDEF01\<rparr> (replicate 512 7)) =
     \<lparr>di_type = 2, di_major = 0, di_minor = 0, di_nlink = 1, di_size = 700, di_addrs = replicate 13 0xABCDEF01\<rparr>"
  using disk_inode_roundtrip [of 3 "\<lparr>di_type = 2, di_major = 0, di_minor = 0, di_nlink = 1, di_size = 700,
       di_addrs = replicate 13 0xABCDEF01\<rparr>" "replicate 512 7" "\<lparr>de_inum = 1, de_name = replicate 14 65\<rparr>"]
  by (simp add: layout_sizes)

end
