(* ===== verification/Log.thy ===== *)
theory Log
  imports Fs_Layout "HOL-Library.Sublist"
begin

text \<open>
  The redo log (\<open>log.c\<close>): transactions, commit and crash recovery. The header is kept in memory in
  \<open>lg\<close> and on disk in the first block of the log. A process that has to wait in \<open>begin_op\<close> ends in
  \<open>Block\<close>; when it is woken it makes the same tests again.
\<close>

record logheader =
  lh_n :: int
  lh_block :: "uint32 list"

record log =
  lg_start :: int
  lg_size :: int
  lg_outstanding :: int
  lg_committing :: bool
  lg_dev :: uint32
  lg_lh :: logheader

record log_state = bio_state +
  lg :: log

abbreviation lgn :: "'a log_state_scheme \<Rightarrow> int" where
  "lgn s \<equiv> lh_n (lg_lh (lg s))"

abbreviation lgblock :: "'a log_state_scheme \<Rightarrow> uint32 list" where
  "lgblock s \<equiv> lh_block (lg_lh (lg s))"

definition upd_lg :: "(log \<Rightarrow> log) \<Rightarrow> 'a log_state_scheme \<Rightarrow> 'a log_state_scheme" where
  "upd_lg f s = s\<lparr>lg := f (lg s)\<rparr>"

definition set_lh_n :: "int \<Rightarrow> log \<Rightarrow> log" where
  "set_lh_n n l = l\<lparr>lg_lh := (lg_lh l)\<lparr>lh_n := n\<rparr>\<rparr>"

definition set_lh_block :: "nat \<Rightarrow> uint32 \<Rightarrow> log \<Rightarrow> log" where
  "set_lh_block i b l = l\<lparr>lg_lh := (lg_lh l)\<lparr>lh_block := (lh_block (lg_lh l))[i := b]\<rparr>\<rparr>"

text \<open>Block number of the log block with index \<open>tail\<close>.\<close>

definition log_blk :: "'a log_state_scheme \<Rightarrow> nat \<Rightarrow> uint32" where
  "log_blk s tail = word_of_int (lg_start (lg s) + int tail + 1)"

definition install_one :: "nat \<Rightarrow> 'a log_state_scheme \<Rightarrow> (unit, 'a log_state_scheme) outcome" where
  "install_one tail s =
     kbind (bread (lg_dev (lg s)) (log_blk s tail) s) (\<lambda>lbuf s.
     if length (lgblock s) \<le> tail then Fault
     else
       kbind (bread (lg_dev (lg s)) (lgblock s ! tail) s) (\<lambda>dbuf s.
       let s = upd_buf dbuf (\<lambda>b. b\<lparr>b_data := b_data (buf_at s lbuf)\<rparr>) s
       in kbind (bwrite dbuf s) (\<lambda>_ s.
          kbind (brelse lbuf s) (\<lambda>_ s. brelse dbuf s))))"

definition install_trans :: "'a log_state_scheme \<Rightarrow> (unit, 'a log_state_scheme) outcome" where
  "install_trans s = kfor [0..<nat (lgn s)] install_one s"

definition read_head :: "'a log_state_scheme \<Rightarrow> (unit, 'a log_state_scheme) outcome" where
  "read_head s =
     kbind (bread (lg_dev (lg s)) (word_of_int (lg_start (lg s))) s) (\<lambda>buf s.
     let lh = b_data (buf_at s buf);
         s = upd_lg (set_lh_n (sint (get32 0 lh))) s
     in kbind (kfor [0..<nat (lgn s)] (\<lambda>i s.
          if length (lgblock s) \<le> i then Fault
          else Ret () (upd_lg (set_lh_block i (get32 (4 + 4 * i) lh)) s)) s) (\<lambda>_ s.
        brelse buf s))"

definition head_bytes :: "int \<Rightarrow> uint32 list \<Rightarrow> block \<Rightarrow> block" where
  "head_bytes n bl b = fold (\<lambda>i b. put32 (4 + 4 * i) (bl ! i) b) [0..<nat n] (put32 0 (word_of_int n) b)"

definition write_head :: "'a log_state_scheme \<Rightarrow> (unit, 'a log_state_scheme) outcome" where
  "write_head s =
     kbind (bread (lg_dev (lg s)) (word_of_int (lg_start (lg s))) s) (\<lambda>buf s.
     if int (length (lgblock s)) < lgn s then Fault
     else
       let s = upd_buf buf (\<lambda>b. b\<lparr>b_data := head_bytes (lgn s) (lgblock s) (b_data b)\<rparr>) s
       in kbind (bwrite buf s) (\<lambda>_ s. brelse buf s))"

definition recover_from_log :: "'a log_state_scheme \<Rightarrow> (unit, 'a log_state_scheme) outcome" where
  "recover_from_log s =
     kbind (read_head s) (\<lambda>_ s.
     kbind (install_trans s) (\<lambda>_ s.
     write_head (upd_lg (set_lh_n 0) s)))"

definition initlog :: "uint32 \<Rightarrow> 'a log_state_scheme \<Rightarrow> (unit, 'a log_state_scheme) outcome" where
  "initlog dev s =
     (if BSIZE \<le> 4 + 4 * LOGSIZE then Panic ''initlog: too big logheader''
      else
        kbind (readsb dev s) (\<lambda>sb s.
        let s = upd_lg (\<lambda>l. l\<lparr>lg_start := sint (sb_logstart sb)\<rparr>) s;
            s = upd_lg (\<lambda>l. l\<lparr>lg_size := sint (sb_nlog sb)\<rparr>) s;
            s = upd_lg (\<lambda>l. l\<lparr>lg_dev := dev\<rparr>) s
        in recover_from_log s))"

definition begin_op :: "'a log_state_scheme \<Rightarrow> (unit, 'a log_state_scheme) outcome" where
  "begin_op s =
     kbind (acquire LkLog s) (\<lambda>_ s.
     if lg_committing (lg s) then sleep ChLog LkLog s
     else if int LOGSIZE < lgn s + (lg_outstanding (lg s) + 1) * int MAXOPBLOCKS then sleep ChLog LkLog s
     else release LkLog (upd_lg (\<lambda>l. l\<lparr>lg_outstanding := lg_outstanding l + 1\<rparr>) s))"

definition write_log_one :: "nat \<Rightarrow> 'a log_state_scheme \<Rightarrow> (unit, 'a log_state_scheme) outcome" where
  "write_log_one tail s =
     kbind (bread (lg_dev (lg s)) (log_blk s tail) s) (\<lambda>to s.
     if length (lgblock s) \<le> tail then Fault
     else
       kbind (bread (lg_dev (lg s)) (lgblock s ! tail) s) (\<lambda>from s.
       let s = upd_buf to (\<lambda>b. b\<lparr>b_data := b_data (buf_at s from)\<rparr>) s
       in kbind (bwrite to s) (\<lambda>_ s.
          kbind (brelse from s) (\<lambda>_ s. brelse to s))))"

definition write_log :: "'a log_state_scheme \<Rightarrow> (unit, 'a log_state_scheme) outcome" where
  "write_log s = kfor [0..<nat (lgn s)] write_log_one s"

definition commit :: "'a log_state_scheme \<Rightarrow> (unit, 'a log_state_scheme) outcome" where
  "commit s =
     (if 0 < lgn s then
        kbind (write_log s) (\<lambda>_ s.
        kbind (write_head s) (\<lambda>_ s.
        kbind (install_trans s) (\<lambda>_ s.
        write_head (upd_lg (set_lh_n 0) s))))
      else Ret () s)"

definition end_op :: "'a log_state_scheme \<Rightarrow> (unit, 'a log_state_scheme) outcome" where
  "end_op s =
     kbind (acquire LkLog s) (\<lambda>_ s.
     let s = upd_lg (\<lambda>l. l\<lparr>lg_outstanding := lg_outstanding l - 1\<rparr>) s
     in if lg_committing (lg s) then Panic ''log.committing''
        else
          let do_commit = (lg_outstanding (lg s) = 0)
          in kbind (if do_commit then Ret () (upd_lg (\<lambda>l. l\<lparr>lg_committing := True\<rparr>) s)
                    else wakeup ChLog s) (\<lambda>_ s.
             kbind (release LkLog s) (\<lambda>_ s.
             if do_commit then
               kbind (commit s) (\<lambda>_ s.
               kbind (acquire LkLog s) (\<lambda>_ s.
               let s = upd_lg (\<lambda>l. l\<lparr>lg_committing := False\<rparr>) s
               in kbind (wakeup ChLog s) (\<lambda>_ s. release LkLog s)))
             else Ret () s)))"

text \<open>The scan for the block in \<open>log_write\<close>: the first entry that has it, or the number of entries.\<close>

definition log_slot :: "int \<Rightarrow> uint32 list \<Rightarrow> uint32 \<Rightarrow> nat" where
  "log_slot n bl b = (case find (\<lambda>i. bl ! i = b) [0..<nat n] of Some i \<Rightarrow> i | None \<Rightarrow> nat n)"

definition log_write :: "nat \<Rightarrow> 'a log_state_scheme \<Rightarrow> (unit, 'a log_state_scheme) outcome" where
  "log_write b s =
     (if int LOGSIZE \<le> lgn s \<or> lg_size (lg s) - 1 \<le> lgn s then Panic ''too big a transaction''
      else if lg_outstanding (lg s) < 1 then Panic ''log_write outside of trans''
      else
        kbind (acquire LkLog s) (\<lambda>_ s.
        let i = log_slot (lgn s) (lgblock s) (b_blockno (buf_at s b));
            s = upd_lg (set_lh_block i (b_blockno (buf_at s b))) s;
            s = (if int i = lgn s then upd_lg (\<lambda>l. set_lh_n (lh_n (lg_lh l) + 1) l) s else s);
            s = upd_buf b (\<lambda>b. b\<lparr>b_dirty := True\<rparr>) s
        in release LkLog s))"

section \<open>Writes and the disk after a crash\<close>

primrec apply_writes :: "(nat \<times> 'b) list \<Rightarrow> (nat \<Rightarrow> 'b) \<Rightarrow> nat \<Rightarrow> 'b" where
  "apply_writes [] d = d"
| "apply_writes (w # ws) d = apply_writes ws (d(fst w := snd w))"

lemma apply_writes_append [simp]: "apply_writes (xs @ ys) d = apply_writes ys (apply_writes xs d)"
  by (induction xs arbitrary: d) simp_all

lemma apply_writes_other: "m \<notin> fst ` set ws \<Longrightarrow> apply_writes ws d m = d m"
  by (induction ws arbitrary: d) auto

lemma apply_writes_in:
  assumes "\<And>w. w \<in> set ws \<Longrightarrow> fst w = m \<Longrightarrow> snd w = v" "m \<in> fst ` set ws"
  shows "apply_writes ws d m = v"
  using assms
proof (induction ws arbitrary: d)
  case (Cons w ws)
  show ?case
  proof (cases "m \<in> fst ` set ws")
    case True
    then show ?thesis using Cons by simp
  next
    case False
    then have "fst w = m" using Cons.prems(2) by auto
    then show ?thesis using False Cons.prems(1) [of w] by (simp add: apply_writes_other)
  qed
qed simp

text \<open>What the header on disk describes, and the disk after the log has been replayed.\<close>

definition hdr_n :: "block \<Rightarrow> int" where
  "hdr_n b = sint (get32 0 b)"

definition hdr_block :: "block \<Rightarrow> nat \<Rightarrow> uint32" where
  "hdr_block b i = get32 (4 + 4 * i) b"

definition replay :: "nat \<Rightarrow> (nat \<Rightarrow> block) \<Rightarrow> (nat \<times> block) list" where
  "replay st d = map (\<lambda>t. (unat (hdr_block (d st) t), d (st + 1 + t))) [0..<nat (hdr_n (d st))]"

definition recovered :: "nat \<Rightarrow> (nat \<Rightarrow> block) \<Rightarrow> nat \<Rightarrow> block" where
  "recovered st d = apply_writes (replay st d) d"

lemma head_bytes_spec:
  assumes "length b = BSIZE" "k \<le> LOGSIZE"
  shows "length (fold (\<lambda>i b. put32 (4 + 4 * i) (bl ! i) b) [0..<k] b) = BSIZE \<and>
     get32 0 (fold (\<lambda>i b. put32 (4 + 4 * i) (bl ! i) b) [0..<k] b) = get32 0 b \<and>
     (\<forall>j<k. get32 (4 + 4 * j) (fold (\<lambda>i b. put32 (4 + 4 * i) (bl ! i) b) [0..<k] b) = bl ! j)"
  using assms(2)
proof (induction k)
  case 0
  then show ?case using assms(1) by simp
next
  case (Suc k)
  let ?c = "fold (\<lambda>i b. put32 (4 + 4 * i) (bl ! i) b) [0..<k] b"
  have IH: "length ?c = BSIZE" "get32 0 ?c = get32 0 b" "\<And>j. j < k \<Longrightarrow> get32 (4 + 4 * j) ?c = bl ! j"
    using Suc by simp_all
  have k: "4 + 4 * k + 4 \<le> length ?c" using IH(1) Suc.prems by (simp add: BSIZE_def LOGSIZE_def MAXOPBLOCKS_def)
  have "get32 (4 + 4 * j) (put32 (4 + 4 * k) (bl ! k) ?c) = bl ! j" if "j < Suc k" for j
    using that IH(3) [of j] get32_put32 [OF k] get32_put32_other [OF k, of "4 + 4 * j"] by (cases "j = k") auto
  then show ?case using k IH get32_put32_other [OF k, of 0] by simp
qed

lemma hdr_head_bytes:
  assumes "length b = BSIZE" "0 \<le> n" "n \<le> int LOGSIZE"
  shows "length (head_bytes n bl b) = BSIZE" "hdr_n (head_bytes n bl b) = n"
    "int j < n \<Longrightarrow> hdr_block (head_bytes n bl b) j = bl ! j"
proof -
  let ?b = "put32 0 (word_of_int n) b"
  have l: "length ?b = BSIZE" using assms(1) by (simp add: BSIZE_def)
  have "nat n \<le> LOGSIZE" using assms(3) by simp
  note h = head_bytes_spec [OF l this, of bl]
  show "length (head_bytes n bl b) = BSIZE" using h by (simp add: head_bytes_def)
  have "get32 0 ?b = word_of_int n" using assms(1) by (simp add: get32_put32 BSIZE_def)
  moreover have "sint (word_of_int n :: uint32) = n"
    using assms(2,3) by (simp add: signed_of_int LOGSIZE_def MAXOPBLOCKS_def signed_take_bit_int_eq_self)
  ultimately show "hdr_n (head_bytes n bl b) = n" using h by (simp add: hdr_n_def head_bytes_def)
  show "hdr_block (head_bytes n bl b) j = bl ! j" if "int j < n"
  proof -
    have "j < nat n" using that by simp
    with h show ?thesis by (simp add: hdr_block_def head_bytes_def)
  qed
qed

section \<open>The shape of the log\<close>

abbreviation lstart :: "'a log_state_scheme \<Rightarrow> nat" where
  "lstart s \<equiv> nat (lg_start (lg s))"

definition home :: "'a log_state_scheme \<Rightarrow> nat \<Rightarrow> bool" where
  "home s m \<longleftrightarrow> m < disksize s \<and> (m < lstart s \<or> nat (lg_start (lg s) + lg_size (lg s)) \<le> m)"

definition logged :: "'a log_state_scheme \<Rightarrow> nat list" where
  "logged s = map unat (take (nat (lgn s)) (lgblock s))"

definition log_geom :: "'a log_state_scheme \<Rightarrow> bool" where
  "log_geom s \<longleftrightarrow> lg_dev (lg s) = 1 \<and> 0 \<le> lg_start (lg s) \<and> 0 < lg_size (lg s) \<and> lg_size (lg s) \<le> int LOGSIZE \<and>
     lg_start (lg s) + lg_size (lg s) \<le> int (disksize s) \<and> disksize s < 2 ^ 31 \<and> length (lgblock s) = LOGSIZE"

definition log_ok :: "'a log_state_scheme \<Rightarrow> bool" where
  "log_ok s \<longleftrightarrow> log_geom s \<and> 0 \<le> lgn s \<and> lgn s < lg_size (lg s) \<and> (\<forall>b\<in>set (logged s). home s b)"

lemma log_cong:
  assumes "lg s' = lg s" "disksize s' = disksize s"
  shows "home s' m = home s m" "logged s' = logged s" "log_geom s' = log_geom s" "log_ok s' = log_ok s"
  using assms by (simp_all add: home_def logged_def log_geom_def log_ok_def)

lemma bio_more_lg:
  "bio_state.more t = bio_state.more s \<Longrightarrow> lg t = lg s \<and> log_state.more t = log_state.more s"
  by (cases s rule: log_state.cases_scheme, cases t rule: log_state.cases_scheme, hypsubst) simp

lemma bio_rel_lg:
  assumes "bio_rel p s s'"
  shows "lg s' = lg s" "log_state.more s' = log_state.more s" "disksize s' = disksize s"
    "home s' m = home s m" "logged s' = logged s" "log_geom s' = log_geom s" "log_ok s' = log_ok s"
proof -
  show l: "lg s' = lg s" "log_state.more s' = log_state.more s" "disksize s' = disksize s"
    using assms bio_more_lg [of s' s] by (simp_all add: bio_rel_def)
  show "home s' m = home s m" "logged s' = logged s" "log_geom s' = log_geom s" "log_ok s' = log_ok s"
    by (rule log_cong [OF l(1,3)])+
qed

lemma uint_of_int_small: "0 \<le> k \<Longrightarrow> k < 2 ^ 31 \<Longrightarrow> uint (word_of_int k :: uint32) = k"
  by (simp add: unsigned_of_int take_bit_int_eq_self)

lemma log_geom_blk:
  assumes "log_geom s" "int t < lg_size (lg s) - 1"
  shows "unat (log_blk s t) = lstart s + 1 + t" "lstart s + 1 + t < disksize s" "\<not> home s (lstart s + 1 + t)"
proof -
  have b: "lg_start (lg s) + int t + 1 < 2 ^ 31" "0 \<le> lg_start (lg s)"
    "lg_start (lg s) + int t + 1 < int (disksize s)"
    using assms by (auto simp: log_geom_def)
  then have "uint (log_blk s t) = lg_start (lg s) + int t + 1"
    unfolding log_blk_def by (intro uint_of_int_small) simp_all
  then show "unat (log_blk s t) = lstart s + 1 + t" using b by (simp add: unat_eq_nat_uint)
  show "lstart s + 1 + t < disksize s" using b by linarith
  show "\<not> home s (lstart s + 1 + t)" using assms b by (auto simp: home_def)
qed

lemma log_geom_start:
  assumes "log_geom s"
  shows "unat (word_of_int (lg_start (lg s)) :: uint32) = lstart s" "lstart s < disksize s" "\<not> home s (lstart s)"
proof -
  have b: "lg_start (lg s) < 2 ^ 31" "0 \<le> lg_start (lg s)" "lg_start (lg s) < int (disksize s)"
    using assms by (auto simp: log_geom_def)
  then have "uint (word_of_int (lg_start (lg s)) :: uint32) = lg_start (lg s)"
    by (intro uint_of_int_small) simp_all
  then show "unat (word_of_int (lg_start (lg s)) :: uint32) = lstart s" using b by (simp add: unat_eq_nat_uint)
  show "lstart s < disksize s" using b by linarith
  show "\<not> home s (lstart s)" using assms b by (auto simp: home_def log_geom_def)
qed

lemma log_ok_logged:
  assumes "log_ok s" "int t < lgn s"
  shows "t < length (lgblock s)" "t < length (logged s)" "unat (lgblock s ! t) = logged s ! t" "home s (logged s ! t)"
    "int t < lg_size (lg s) - 1"
proof -
  have g: "log_geom s" "0 \<le> lgn s" "lgn s < lg_size (lg s)" "\<forall>b\<in>set (logged s). home s b"
    using assms(1) by (auto simp: log_ok_def)
  then have n: "nat (lgn s) \<le> length (lgblock s)" by (auto simp: log_geom_def)
  with assms(2) show t: "t < length (lgblock s)" "t < length (logged s)" by (auto simp: logged_def)
  show "unat (lgblock s ! t) = logged s ! t" using t by (simp add: logged_def)
  show "home s (logged s ! t)" using g(4) t(2) by simp
  show "int t < lg_size (lg s) - 1" using g(3) assms(2) by simp
qed

text \<open>Between operations: no buffer is held, and the blocks kept dirty are those of the open transaction.\<close>

definition quiet :: "nat \<Rightarrow> 'a log_state_scheme \<Rightarrow> bool" where
  "quiet p s \<longleftrightarrow> in_proc p s \<and> bio_inv s \<and> held_blocks s = {}"

section \<open>Commit and recovery, loop by loop\<close>

definition log_writes :: "'a log_state_scheme \<Rightarrow> nat \<Rightarrow> (nat \<times> block) list" where
  "log_writes s k = map (\<lambda>t. (lstart s + 1 + t, bview s (logged s ! t))) [0..<k]"

definition home_writes :: "'a log_state_scheme \<Rightarrow> nat \<Rightarrow> (nat \<times> block) list" where
  "home_writes s k = map (\<lambda>t. (logged s ! t, bview s (lstart s + 1 + t))) [0..<k]"

text \<open>The effect of a run of writes on the cache and on the disk.\<close>

definition wrote :: "nat \<Rightarrow> (nat \<times> block) list \<Rightarrow> nat set \<Rightarrow> 'a log_state_scheme \<Rightarrow> 'a log_state_scheme \<Rightarrow> bool" where
  "wrote p ws D s s' \<longleftrightarrow> quiet p s' \<and> bio_rel p s s' \<and> bview s' = apply_writes ws (bview s) \<and>
     memdisk s' = apply_writes ws (memdisk s) \<and> dtrace s' = dtrace s @ ws \<and> dirty s' = D"

lemma home_not_log:
  assumes "log_ok s" "home s m" "int k \<le> lgn s"
  shows "m \<notin> fst ` set (log_writes s k)"
proof
  assume "m \<in> fst ` set (log_writes s k)"
  then obtain t where "t < k" "m = lstart s + 1 + t" by (auto simp: log_writes_def)
  moreover have "int t < lg_size (lg s) - 1" using \<open>t < k\<close> assms(1,3) by (auto simp: log_ok_def)
  ultimately show False using log_geom_blk(3) [of s t] assms(1,2) by (auto simp: log_ok_def)
qed

lemma write_log_one_spec:
  assumes "quiet p s" "log_ok s" "int t < lgn s" "logged s ! t \<in> dirty s" "card (dirty s) < NBUF"
  shows "\<exists>s'. write_log_one t s = Ret () s' \<and>
     wrote p [(lstart s + 1 + t, bview s (logged s ! t))] (dirty s - {lstart s + 1 + t}) s s'"
proof -
  have I: "in_proc p s \<and> bio_inv s" and h: "held_blocks s = {}" using assms(1) by (auto simp: quiet_def)
  have g: "log_geom s" using assms(2) by (simp add: log_ok_def)
  note L = log_ok_logged [OF assms(2,3)]
  note B = log_geom_blk [OF g L(5)]
  let ?a = "log_blk s t" and ?b = "lgblock s ! t"
  have ne: "unat ?a \<noteq> unat ?b" using B(1,3) L(3,4) by auto
  have bd: "unat ?b < disksize s" using L(3,4) by (simp add: home_def)
  have ad: "unat ?a < disksize s" using B(1,2) by simp
  have pin: "unat ?b \<in> dirty s" using assms(4) L(3) by simp
  from bc.read_two [OF I ad bd ne h assms(5) disjI1 [OF pin]] obtain i s1 j s2 where
    r: "bread 1 ?a s = Ret i s1" "bio_rel p s s1" "bread 1 ?b s1 = Ret j s2" "bio_rel p s s2" "in_proc p s2 \<and> bio_inv s2"
    "has_buf p (unat ?a) i s2" "has_buf p (unat ?b) j s2" "bview s2 = bview s" "memdisk s2 = memdisk s"
    "dtrace s2 = dtrace s" "held_blocks s2 = {unat ?a, unat ?b}" "dirty s2 = dirty s" by blast
  have ad2: "unat ?a < disksize s2" using ad bio_relD(3) [OF r(4)] by simp
  have pin2: "unat ?b \<in> dirty s2 \<or> bview s2 (unat ?b) = memdisk s2 (unat ?b)" using pin r(12) by simp
  from bc.copy_held [OF r(5) r(7,6) ne [symmetric] ad2 pin2] obtain s3 s4 s5 where
    c: "bwrite i (upd_buf i (\<lambda>b. b\<lparr>b_data := b_data (buf_at s2 j)\<rparr>) s2) = Ret () s3" "brelse j s3 = Ret () s4"
    "brelse i s4 = Ret () s5" "in_proc p s5 \<and> bio_inv s5" "bio_rel p s2 s5" "bview s5 = (bview s2)(unat ?a := bview s2 (unat ?b))"
    "memdisk s5 = (memdisk s2)(unat ?a := bview s2 (unat ?b))" "dtrace s5 = dtrace s2 @ [(unat ?a, bview s2 (unat ?b))]"
    "held_blocks s5 = held_blocks s2 - {unat ?b, unat ?a}" "dirty s5 = dirty s2 - {unat ?a}" by blast
  have dev: "lg_dev (lg s) = 1" using g by (simp add: log_geom_def)
  have "write_log_one t s = Ret () s5"
    using r(1,3) c(1-3) dev L(1) bio_rel_lg(1) [OF r(2)] by (simp add: write_log_one_def)
  moreover have "wrote p [(lstart s + 1 + t, bview s (logged s ! t))] (dirty s - {lstart s + 1 + t}) s s5"
    using c(4-10) r(8-12) B(1) L(3) bio_rel_trans [OF r(4) c(5)] by (auto simp: wrote_def quiet_def)
  ultimately show ?thesis by blast
qed

lemma install_one_spec:
  assumes "quiet p s" "log_ok s" "int t < lgn s" "card (dirty s) < NBUF" "lstart s + 1 + t \<notin> dirty s"
    and "logged s ! t \<in> dirty s \<or> card (dirty s) + 1 < NBUF"
  shows "\<exists>s'. install_one t s = Ret () s' \<and>
     wrote p [(logged s ! t, bview s (lstart s + 1 + t))] (dirty s - {logged s ! t}) s s'"
proof -
  have I: "in_proc p s \<and> bio_inv s" and h: "held_blocks s = {}" using assms(1) by (auto simp: quiet_def)
  have g: "log_geom s" using assms(2) by (simp add: log_ok_def)
  note L = log_ok_logged [OF assms(2,3)]
  note B = log_geom_blk [OF g L(5)]
  let ?a = "log_blk s t" and ?b = "lgblock s ! t"
  have ne: "unat ?a \<noteq> unat ?b" using B(1,3) L(3,4) by auto
  have bd: "unat ?b < disksize s" using L(3,4) by (simp add: home_def)
  have ad: "unat ?a < disksize s" using B(1,2) by simp
  have pin: "unat ?b \<in> dirty s \<or> card (dirty s) + 1 < NBUF" using assms(6) L(3) by simp
  from bc.read_two [OF I ad bd ne h assms(4) pin] obtain i s1 j s2 where
    r: "bread 1 ?a s = Ret i s1" "bio_rel p s s1" "bread 1 ?b s1 = Ret j s2" "bio_rel p s s2" "in_proc p s2 \<and> bio_inv s2"
    "has_buf p (unat ?a) i s2" "has_buf p (unat ?b) j s2" "bview s2 = bview s" "memdisk s2 = memdisk s"
    "dtrace s2 = dtrace s" "held_blocks s2 = {unat ?a, unat ?b}" "dirty s2 = dirty s" by blast
  have bd2: "unat ?b < disksize s2" using bd bio_relD(3) [OF r(4)] by simp
  have "bview s (unat ?a) = memdisk s (unat ?a)" using bc.clean [OF I] h assms(5) B(1) by simp
  then have pin2: "unat ?a \<in> dirty s2 \<or> bview s2 (unat ?a) = memdisk s2 (unat ?a)" using r(8,9) by simp
  from bc.copy_held [OF r(5-7) ne bd2 pin2] obtain s3 s4 s5 where
    c: "bwrite j (upd_buf j (\<lambda>b. b\<lparr>b_data := b_data (buf_at s2 i)\<rparr>) s2) = Ret () s3" "brelse i s3 = Ret () s4"
    "brelse j s4 = Ret () s5" "in_proc p s5 \<and> bio_inv s5" "bio_rel p s2 s5" "bview s5 = (bview s2)(unat ?b := bview s2 (unat ?a))"
    "memdisk s5 = (memdisk s2)(unat ?b := bview s2 (unat ?a))" "dtrace s5 = dtrace s2 @ [(unat ?b, bview s2 (unat ?a))]"
    "held_blocks s5 = held_blocks s2 - {unat ?a, unat ?b}" "dirty s5 = dirty s2 - {unat ?b}" by blast
  have dev: "lg_dev (lg s) = 1" using g by (simp add: log_geom_def)
  have "install_one t s = Ret () s5"
    using r(1,3) c(1-3) dev L(1) bio_rel_lg(1) [OF r(2)] by (simp add: install_one_def)
  moreover have "wrote p [(logged s ! t, bview s (lstart s + 1 + t))] (dirty s - {logged s ! t}) s s5"
    using c(4-10) r(8-12) B(1) L(3) bio_rel_trans [OF r(4) c(5)] by (auto simp: wrote_def quiet_def)
  ultimately show ?thesis by blast
qed

lemma write_head_spec:
  assumes "quiet p s" "log_geom s" "0 \<le> lgn s" "lgn s \<le> int LOGSIZE" "card (dirty s) < NBUF"
  shows "\<exists>s'. write_head s = Ret () s' \<and>
     wrote p [(lstart s, head_bytes (lgn s) (lgblock s) (bview s (lstart s)))] (dirty s - {lstart s}) s s'"
proof -
  have I: "in_proc p s \<and> bio_inv s" and h: "held_blocks s = {}" using assms(1) by (auto simp: quiet_def)
  note S = log_geom_start [OF assms(2)]
  let ?a = "word_of_int (lg_start (lg s)) :: uint32"
  have ad: "unat ?a < disksize s" "unat ?a \<notin> held_blocks s" "unat ?a \<in> dirty s \<or> card (held_blocks s \<union> dirty s) < NBUF"
    using S h assms(5) by simp_all
  from bc.rd_law [OF I ad] obtain i s1 where
    r: "bread 1 ?a s = Ret i s1" "in_proc p s1 \<and> bio_inv s1" "bio_rel p s s1" "has_buf p (unat ?a) i s1" "bview s1 = bview s"
    "memdisk s1 = memdisk s" "dtrace s1 = dtrace s" "held_blocks s1 = {unat ?a}" "dirty s1 = dirty s" using h by auto
  let ?d = "head_bytes (lgn s) (lgblock s) (bview s (lstart s))"
  have d: "b_data (buf_at s1 i) = bview s (lstart s)" using bc.data_has [OF r(2,4)] r(5) S(1) by simp
  have ad1: "unat ?a < disksize s1" using ad(1) bio_relD(3) [OF r(3)] by simp
  from bc.write_release [OF r(2,4) ad1, of ?d] obtain s2 s3 where
    w: "bwrite i (upd_buf i (\<lambda>b. b\<lparr>b_data := ?d\<rparr>) s1) = Ret () s2" "brelse i s2 = Ret () s3" "in_proc p s3 \<and> bio_inv s3"
    "bio_rel p s1 s3" "bview s3 = (bview s1)(unat ?a := ?d)" "memdisk s3 = (memdisk s1)(unat ?a := ?d)"
    "dtrace s3 = dtrace s1 @ [(unat ?a, ?d)]" "held_blocks s3 = held_blocks s1 - {unat ?a}" "dirty s3 = dirty s1 - {unat ?a}" by blast
  have lgs: "lg s1 = lg s" using bio_rel_lg(1) [OF r(3)] .
  have "upd_buf i (\<lambda>b. b\<lparr>b_data := head_bytes (lgn s) (lgblock s) (b_data b)\<rparr>) s1 = upd_buf i (\<lambda>b. b\<lparr>b_data := ?d\<rparr>) s1"
    using d by (simp add: upd_buf_def)
  then have "write_head s = Ret () s3"
    using r(1) w(1,2) lgs assms(2,4) by (simp add: write_head_def log_geom_def)
  moreover have "wrote p [(lstart s, ?d)] (dirty s - {lstart s}) s s3"
    using w r(5-9) S(1) bio_rel_trans [OF r(3) w(4)] by (auto simp: wrote_def quiet_def)
  ultimately show ?thesis by blast
qed

lemma wrote_refl: "quiet p s \<Longrightarrow> wrote p [] (dirty s) s s"
  by (simp add: wrote_def quiet_def bio_rel_refl)

lemma wrote_trans: "wrote p ws D s t \<Longrightarrow> wrote p ws' D' t u \<Longrightarrow> wrote p (ws @ ws') D' s u"
  using bio_rel_trans by (auto simp: wrote_def)

lemma wroteD:
  assumes "wrote p ws D s s'"
  shows "quiet p s'" "bio_rel p s s'" "bview s' = apply_writes ws (bview s)" "memdisk s' = apply_writes ws (memdisk s)"
    "dtrace s' = dtrace s @ ws" "dirty s' = D" "lg s' = lg s" "log_ok s' = log_ok s" "logged s' = logged s"
    "home s' m = home s m" "disksize s' = disksize s"
  using assms bio_rel_lg [of p s s'] by (simp_all add: wrote_def)

lemma log_blk_not_dirty:
  assumes "log_ok s" "\<forall>b\<in>D. home s b" "int t < lgn s"
  shows "lstart s + 1 + t \<notin> D" "lstart s \<notin> D"
  using assms log_geom_blk(3) [of s t] log_geom_start(3) [of s] log_ok_logged(5) [OF assms(1,3)] by (auto simp: log_ok_def)

lemma write_log_upto:
  assumes "quiet p s" "log_ok s" "set (logged s) \<subseteq> dirty s" "\<forall>b\<in>dirty s. home s b" "card (dirty s) < NBUF" "int k \<le> lgn s"
  shows "\<exists>s'. kfor [0..<k] write_log_one s = Ret () s' \<and> wrote p (log_writes s k) (dirty s) s s'"
  using assms(6)
proof (induction k)
  case 0
  then show ?case using wrote_refl [OF assms(1)] by (simp add: log_writes_def)
next
  case (Suc k)
  then obtain t where t: "kfor [0..<k] write_log_one s = Ret () t" "wrote p (log_writes s k) (dirty s) s t" by auto
  note T = wroteD [OF t(2)]
  have k: "int k < lgn t" "log_ok t" "card (dirty t) < NBUF" using Suc.prems T assms(2,5) by simp_all
  note L = log_ok_logged [OF k(2,1)]
  have "logged t ! k \<in> dirty t" using L(2) assms(3) T(6,9) by (metis nth_mem subsetD)
  from write_log_one_spec [OF T(1) k(2,1) this k(3)] obtain u where
    u: "write_log_one k t = Ret () u" "wrote p [(lstart t + 1 + k, bview t (logged t ! k))] (dirty t - {lstart t + 1 + k}) t u"
    by blast
  have "bview t (logged t ! k) = bview s (logged s ! k)"
    using home_not_log [OF assms(2), of "logged s ! k" k] L(4) T Suc.prems by (simp add: apply_writes_other)
  then have w: "wrote p [(lstart s + 1 + k, bview s (logged s ! k))] (dirty s) t u"
    using u(2) T(6,7,9) log_blk_not_dirty(1) [OF assms(2,4), of k] Suc.prems by simp
  have "kfor [0..<Suc k] write_log_one s = Ret () u" using t(1) u(1) kfor_Suc [of k write_log_one s] by simp
  with wrote_trans [OF t(2) w] show ?case by (intro exI [of _ u]) (simp add: log_writes_def)
qed

lemma log_not_home:
  assumes "log_ok s" "int t < lgn s" "int k \<le> lgn s"
  shows "lstart s + 1 + t \<notin> fst ` set (home_writes s k)"
proof
  assume "lstart s + 1 + t \<in> fst ` set (home_writes s k)"
  then obtain j where "j < k" "lstart s + 1 + t = logged s ! j" by (auto simp: home_writes_def)
  moreover have "home s (logged s ! j)" using log_ok_logged(4) [OF assms(1), of j] \<open>j < k\<close> assms(3) by simp
  ultimately show False using log_geom_blk(3) [of s t] log_ok_logged(5) [OF assms(1,2)] assms(1) by (auto simp: log_ok_def)
qed

lemma install_upto:
  assumes "quiet p s" "log_ok s" "\<forall>b\<in>dirty s. home s b" "card (dirty s) < NBUF" "int k \<le> lgn s"
    and "(distinct (logged s) \<and> set (logged s) \<subseteq> dirty s) \<or> card (dirty s) + 1 < NBUF"
  shows "\<exists>s'. kfor [0..<k] install_one s = Ret () s' \<and>
     wrote p (home_writes s k) (dirty s - set (take k (logged s))) s s'"
  using assms(5)
proof (induction k)
  case 0
  then show ?case using wrote_refl [OF assms(1)] by (simp add: home_writes_def)
next
  case (Suc k)
  then obtain t where t: "kfor [0..<k] install_one s = Ret () t"
    "wrote p (home_writes s k) (dirty s - set (take k (logged s))) s t" by auto
  note T = wroteD [OF t(2)]
  have fin: "finite (dirty s)" using bc.finite_pinned [of p s] assms(1) by (simp add: quiet_def)
  have le: "card (dirty t) \<le> card (dirty s)" using T(6) fin by (simp add: card_mono)
  have k: "int k < lgn t" "log_ok t" "card (dirty t) < NBUF" using Suc.prems T assms(2,4) le by simp_all
  note L = log_ok_logged [OF k(2,1)]
  have nd: "lstart t + 1 + k \<notin> dirty t" using log_blk_not_dirty(1) [OF assms(2,3), of k] Suc.prems T(6,7) by auto
  have ks: "k < length (logged s)" using L(2) T(9) by simp
  have nt: "logged s ! k \<notin> set (take k (logged s))" if "distinct (logged s)"
    using that ks by (auto simp: in_set_conv_nth nth_eq_iff_index_eq)
  have "logged t ! k \<in> dirty t \<or> card (dirty t) + 1 < NBUF"
    using assms(6)
  proof
    assume d: "distinct (logged s) \<and> set (logged s) \<subseteq> dirty s"
    then have "logged s ! k \<in> dirty s" using nth_mem [OF ks] by blast
    then show ?thesis using nt d T(6,9) by simp
  qed (use le in linarith)
  from install_one_spec [OF T(1) k(2,1,3) nd this] obtain u where
    u: "install_one k t = Ret () u" "wrote p [(logged t ! k, bview t (lstart t + 1 + k))] (dirty t - {logged t ! k}) t u"
    by blast
  have "bview t (lstart t + 1 + k) = bview s (lstart s + 1 + k)"
    using log_not_home [OF assms(2), of k k] T Suc.prems by (simp add: apply_writes_other)
  moreover have "dirty t - {logged t ! k} = dirty s - set (take (Suc k) (logged s))"
    using T(6,9) ks by (auto simp: take_Suc_conv_app_nth)
  ultimately have w: "wrote p [(logged s ! k, bview s (lstart s + 1 + k))] (dirty s - set (take (Suc k) (logged s))) t u"
    using u(2) T(7,9) by simp
  have "kfor [0..<Suc k] install_one s = Ret () u" using t(1) u(1) kfor_Suc [of k install_one s] by simp
  with wrote_trans [OF t(2) w] show ?case by (intro exI [of _ u]) (simp add: home_writes_def)
qed

section \<open>Commit\<close>

lemma upd_lg_simps [simp]:
  "bview (upd_lg f s) = bview s" "memdisk (upd_lg f s) = memdisk s" "dtrace (upd_lg f s) = dtrace s"
  "dirty (upd_lg f s) = dirty s" "held_blocks (upd_lg f s) = held_blocks s" "disksize (upd_lg f s) = disksize s"
  "lg (upd_lg f s) = f (lg s)" "bufs (upd_lg f s) = bufs s" "slocks (upd_lg f s) = slocks s" "held (upd_lg f s) = held s"
  "in_proc p (upd_lg f s) = in_proc p s" "bio_inv (upd_lg f s) = bio_inv s" "quiet p (upd_lg f s) = quiet p s"
  "ptable (upd_lg f s) = ptable s" "log_state.more (upd_lg f s) = log_state.more s"
proof -
  have c: "cached (upd_lg f s) = cached s" "blocked (upd_lg f s) = blocked s"
    by (simp_all add: fun_eq_iff cached_def blocked_def upd_lg_def)
  show v: "memdisk (upd_lg f s) = memdisk s" "dtrace (upd_lg f s) = dtrace s"
    "disksize (upd_lg f s) = disksize s" "lg (upd_lg f s) = f (lg s)"
    "bufs (upd_lg f s) = bufs s" "slocks (upd_lg f s) = slocks s" "held (upd_lg f s) = held s" "ptable (upd_lg f s) = ptable s"
    "log_state.more (upd_lg f s) = log_state.more s"
    by (simp_all add: upd_lg_def)
  show "bview (upd_lg f s) = bview s" unfolding bview_def [abs_def] c v by (rule refl)
  show d: "dirty (upd_lg f s) = dirty s" "held_blocks (upd_lg f s) = held_blocks s"
    unfolding dirty_def held_blocks_def c v by (rule refl)+
  show i: "in_proc p (upd_lg f s) = in_proc p s" by (rule in_proc_cong) (simp_all add: upd_lg_def)
  show b: "bio_inv (upd_lg f s) = bio_inv s" unfolding bio_inv_def c v by (rule refl)
  show "quiet p (upd_lg f s) = quiet p s" unfolding quiet_def d i b by (rule refl)
qed

text \<open>What a step of the log keeps for its caller.\<close>

definition log_rel :: "nat \<Rightarrow> 'a log_state_scheme \<Rightarrow> 'a log_state_scheme \<Rightarrow> bool" where
  "log_rel p s s' \<longleftrightarrow> slot s' p = slot s p \<and> disksize s' = disksize s \<and> freelist s' = freelist s \<and> mem s' = mem s \<and>
     ticks s' = ticks s \<and> initproc s' = initproc s \<and> log_state.more s' = log_state.more s \<and>
     (\<forall>k. slocks s' (SlInode k) = slocks s (SlInode k))"

lemma log_rel_trans: "log_rel p s t \<Longrightarrow> log_rel p t u \<Longrightarrow> log_rel p s u"
  by (simp add: log_rel_def)

lemma log_rel_upd_lg: "log_rel p s (upd_lg f s)"
  by (simp add: log_rel_def) (simp add: upd_lg_def)

lemma bio_rel_log_rel: "bio_rel p s s' \<Longrightarrow> log_rel p s s'"
  using bio_rel_lg(2) [of p s s'] by (simp add: log_rel_def bio_rel_def)

abbreviation logged_n :: "'a log_state_scheme \<Rightarrow> nat" where
  "logged_n s \<equiv> nat (lgn s)"

definition commit_trace :: "'a log_state_scheme \<Rightarrow> (nat \<times> block) list" where
  "commit_trace s = (let H = head_bytes (lgn s) (lgblock s) (bview s (lstart s)) in
     log_writes s (logged_n s) @ (lstart s, H) # map (\<lambda>b. (b, bview s b)) (logged s) @
     [(lstart s, head_bytes 0 (lgblock s) H)])"

lemma length_logged: "log_ok s \<Longrightarrow> length (logged s) = logged_n s"
  by (auto simp: log_ok_def log_geom_def logged_def)

lemma log_writes_at:
  assumes "log_ok s" "int t < lgn s"
  shows "apply_writes (log_writes s (logged_n s)) d (lstart s + 1 + t) = bview s (logged s ! t)"
    "apply_writes (log_writes s (logged_n s)) d (lstart s) = d (lstart s)"
  using assms by (auto simp: log_writes_def image_iff intro!: apply_writes_in apply_writes_other)

lemma commit_bounds:
  assumes "log_ok s" "dirty s = set (logged s)" "0 < lgn s"
  shows "\<forall>b\<in>dirty s. home s b" "card (dirty s) < NBUF" "lgn s \<le> int LOGSIZE" "lstart s \<notin> dirty s"
proof -
  have ok: "lgn s < lg_size (lg s)" "lg_size (lg s) \<le> int LOGSIZE" using assms(1) by (auto simp: log_ok_def log_geom_def)
  then show "lgn s \<le> int LOGSIZE" by simp
  show h: "\<forall>b\<in>dirty s. home s b" using assms(1,2) by (auto simp: log_ok_def)
  have "card (dirty s) \<le> logged_n s" using assms(2) card_length [of "logged s"] length_logged [OF assms(1)] by simp
  then show "card (dirty s) < NBUF" using ok assms(3) by (simp add: NBUF_def LOGSIZE_def)
  show "lstart s \<notin> dirty s" using log_blk_not_dirty(2) [OF assms(1) h, of 0] assms(3) by simp
qed

lemma commit_record:
  assumes "quiet p s" "log_ok s" "dirty s = set (logged s)" "0 < lgn s"
  shows "\<exists>s1 s2. write_log s = Ret () s1 \<and> write_head s1 = Ret () s2 \<and>
     wrote p (log_writes s (logged_n s) @ [(lstart s, head_bytes (lgn s) (lgblock s) (bview s (lstart s)))]) (dirty s) s s2"
proof -
  note B = commit_bounds [OF assms(2-4)]
  have n: "int (logged_n s) \<le> lgn s" "set (logged s) \<subseteq> dirty s" using assms(3,4) by simp_all
  obtain s1 where 1: "write_log s = Ret () s1" "wrote p (log_writes s (logged_n s)) (dirty s) s s1"
    using write_log_upto [OF assms(1,2) n(2) B(1,2) n(1)] by (auto simp: write_log_def)
  note W = wroteD [OF 1(2)]
  have g1: "log_geom s1" "0 \<le> lgn s1" "lgn s1 \<le> int LOGSIZE" "card (dirty s1) < NBUF"
    using W(6,7,8) assms(2,4) B(2,3) by (auto simp: log_ok_def)
  obtain s2 where 2: "write_head s1 = Ret () s2"
    "wrote p [(lstart s1, head_bytes (lgn s1) (lgblock s1) (bview s1 (lstart s1)))] (dirty s1 - {lstart s1}) s1 s2"
    using write_head_spec [OF W(1) g1] by blast
  have "bview s1 (lstart s) = bview s (lstart s)" using W(3) log_writes_at(2) [OF assms(2), of 0] assms(4) by simp
  with 2(2) W(6,7) B(4) have w2: "wrote p [(lstart s, head_bytes (lgn s) (lgblock s) (bview s (lstart s)))] (dirty s) s1 s2"
    by simp
  from 1(1) 2(1) wrote_trans [OF 1(2) w2] show ?thesis by blast
qed

lemma commit_install:
  assumes "quiet p s" "log_ok s" "distinct (logged s)" "dirty s = set (logged s)" "0 < lgn s"
    and "\<And>t. int t < lgn s \<Longrightarrow> bview s (lstart s + 1 + t) = v (logged s ! t)"
  shows "\<exists>s'. install_trans s = Ret () s' \<and> wrote p (map (\<lambda>b. (b, v b)) (logged s)) {} s s'"
proof -
  note B = commit_bounds [OF assms(2,4,5)]
  have n: "int (logged_n s) \<le> lgn s" "(distinct (logged s) \<and> set (logged s) \<subseteq> dirty s) \<or> card (dirty s) + 1 < NBUF"
    using assms(3-5) by simp_all
  obtain s' where "install_trans s = Ret () s'"
    "wrote p (home_writes s (logged_n s)) (dirty s - set (take (logged_n s) (logged s))) s s'"
    using install_upto [OF assms(1,2) B(1,2) n] by (auto simp: install_trans_def)
  moreover have "home_writes s (logged_n s) = map (\<lambda>b. (b, v b)) (logged s)"
    using length_logged [OF assms(2)] assms(6) by (intro nth_equalityI) (auto simp: home_writes_def)
  moreover have "take (logged_n s) (logged s) = logged s" using length_logged [OF assms(2)] by simp
  ultimately show ?thesis using assms(4) by auto
qed

lemma clear_head:
  assumes "quiet p s" "log_geom s" "dirty s = {}"
  shows "\<exists>s'. write_head (upd_lg (set_lh_n 0) s) = Ret () s' \<and> log_rel p s s' \<and> lg s' = set_lh_n 0 (lg s) \<and>
     wrote p [(lstart s, head_bytes 0 (lgblock s) (bview s (lstart s)))] {} (upd_lg (set_lh_n 0) s) s'"
proof -
  let ?t = "upd_lg (set_lh_n 0) s"
  have g: "quiet p ?t" "log_geom ?t" "0 \<le> lgn ?t" "lgn ?t \<le> int LOGSIZE" "card (dirty ?t) < NBUF"
    using assms by (auto simp: log_geom_def set_lh_n_def NBUF_def MAXOPBLOCKS_def)
  obtain s' where s': "write_head ?t = Ret () s'"
    "wrote p [(lstart ?t, head_bytes (lgn ?t) (lgblock ?t) (bview ?t (lstart ?t)))] (dirty ?t - {lstart ?t}) ?t s'"
    using write_head_spec [OF g] by blast
  then have w: "wrote p [(lstart s, head_bytes 0 (lgblock s) (bview s (lstart s)))] {} ?t s'"
    using assms(3) by (simp add: set_lh_n_def)
  have "log_rel p s s'" using log_rel_trans [OF log_rel_upd_lg bio_rel_log_rel [OF wroteD(2) [OF w]]] .
  with s'(1) w wroteD(7) [OF w] show ?thesis by auto
qed

lemma commit_spec:
  assumes "quiet p s" "log_ok s" "distinct (logged s)" "dirty s = set (logged s)" "0 < lgn s"
  shows "\<exists>s'. commit s = Ret () s' \<and> quiet p s' \<and> log_rel p s s' \<and> lg s' = set_lh_n 0 (lg s) \<and> dirty s' = {} \<and>
     bview s' = apply_writes (commit_trace s) (bview s) \<and> memdisk s' = apply_writes (commit_trace s) (memdisk s) \<and>
     dtrace s' = dtrace s @ commit_trace s"
proof -
  let ?H = "head_bytes (lgn s) (lgblock s) (bview s (lstart s))"
  obtain s1 s2 where 1: "write_log s = Ret () s1" "write_head s1 = Ret () s2"
    and w2: "wrote p (log_writes s (logged_n s) @ [(lstart s, ?H)]) (dirty s) s s2"
    using commit_record [OF assms(1,2,4,5)] by blast
  note V = wroteD [OF w2]
  have v: "bview s2 (lstart s2 + 1 + t) = bview s (logged s2 ! t)" if "int t < lgn s2" for t
    using that log_writes_at(1) [OF assms(2), of t] V(3,7,9) by simp
  have s2: "log_ok s2" "distinct (logged s2)" "dirty s2 = set (logged s2)" "0 < lgn s2"
    using V(6-9) assms(2-5) by simp_all
  obtain s3 where 3: "install_trans s2 = Ret () s3" and w3: "wrote p (map (\<lambda>b. (b, bview s b)) (logged s)) {} s2 s3"
    using commit_install [OF V(1) s2 v] V(9) by auto
  note w13 = wrote_trans [OF w2 w3]
  note U = wroteD [OF w13]
  have g3: "log_geom s3" using U(8) assms(2) by (simp add: log_ok_def)
  obtain s4 where 4: "write_head (upd_lg (set_lh_n 0) s3) = Ret () s4" "log_rel p s3 s4" "lg s4 = set_lh_n 0 (lg s3)"
    "wrote p [(lstart s3, head_bytes 0 (lgblock s3) (bview s3 (lstart s3)))] {} (upd_lg (set_lh_n 0) s3) s4"
    using clear_head [OF U(1) g3 U(6)] by blast
  have "lstart s \<notin> set (logged s)" using commit_bounds(4) [OF assms(2,4,5)] assms(4) by simp
  then have "bview s3 (lstart s) = ?H" using U(3) by (auto simp: image_iff apply_writes_other)
  then have w4: "wrote p [(lstart s, head_bytes 0 (lgblock s) ?H)] {} (upd_lg (set_lh_n 0) s3) s4"
    using 4(4) U(7) by simp
  have tr: "commit_trace s = (log_writes s (logged_n s) @ [(lstart s, ?H)]) @ map (\<lambda>b. (b, bview s b)) (logged s) @
      [(lstart s, head_bytes 0 (lgblock s) ?H)]"
    by (simp add: commit_trace_def Let_def)
  have "commit s = Ret () s4" using 1 3 4(1) assms(5) by (simp add: commit_def)
  moreover have "log_rel p s s4" using log_rel_trans [OF bio_rel_log_rel [OF U(2)] 4(2)] .
  ultimately show ?thesis
    using wroteD [OF w4] U(3-5,7) 4(3) by (intro exI [of _ s4]) (simp add: tr)
qed

section \<open>Crashes\<close>

lemma replay_other:
  assumes "\<And>t. t < nat (hdr_n (d st)) \<Longrightarrow> unat (hdr_block (d st) t) \<noteq> m"
  shows "recovered st d m = d m"
proof -
  have "m \<notin> fst ` set (replay st d)"
  proof
    assume "m \<in> fst ` set (replay st d)"
    then obtain t where "t < nat (hdr_n (d st))" "unat (hdr_block (d st) t) = m" by (auto simp: replay_def)
    with assms show False by blast
  qed
  then show ?thesis by (simp add: recovered_def apply_writes_other)
qed

lemma replay_at:
  assumes "t < nat (hdr_n (d st))" "unat (hdr_block (d st) t) = m"
    and "\<And>u. u < nat (hdr_n (d st)) \<Longrightarrow> unat (hdr_block (d st) u) = m \<Longrightarrow> d (st + 1 + u) = v"
  shows "recovered st d m = v"
proof -
  have "m \<in> fst ` set (replay st d)" using assms(1,2) by (force simp: replay_def)
  moreover have "snd w = v" if "w \<in> set (replay st d)" "fst w = m" for w using that assms(3) by (auto simp: replay_def)
  ultimately show ?thesis unfolding recovered_def by (intro apply_writes_in) blast+
qed

lemma recovered_empty: "hdr_n (d st) \<le> 0 \<Longrightarrow> recovered st d = d"
  by (simp add: recovered_def replay_def)

text \<open>The disk as it was before the transaction, or as it is after it, on all blocks outside the log.\<close>

definition old_or_new :: "'a log_state_scheme \<Rightarrow> (nat \<Rightarrow> block) \<Rightarrow> bool" where
  "old_or_new s d \<longleftrightarrow> (\<forall>m. home s m \<longrightarrow> d m = memdisk s m) \<or> (\<forall>m. home s m \<longrightarrow> d m = bview s m)"

lemma prefix_trace_cases:
  assumes "prefix ws (xs @ h # ys @ [e])"
  obtains "prefix ws xs" | zs where "ws = xs @ h # zs" "prefix zs ys" | "ws = xs @ h # ys @ [e]"
proof -
  consider "prefix ws xs" | us where "ws = xs @ us" "prefix us (h # ys @ [e])" using assms by (metis prefix_append)
  then show thesis
  proof cases
    case 2
    then show thesis
    proof (cases us)
      case Nil
      with 2 that(1) show thesis by simp
    next
      case (Cons u zs)
      with 2(2) have "u = h" "prefix zs (ys @ [e])" by simp_all
      with 2(1) Cons that(2,3) show thesis by (auto simp: prefix_snoc)
    qed
  qed (use that(1) in blast)
qed

text \<open>Once the header is written, replaying the log gives the new contents, however far the installation got.\<close>

lemma recovered_committed:
  assumes "log_ok s" "dirty s = set (logged s)" "quiet p s" "0 < lgn s" "length (bview s (lstart s)) = BSIZE"
    and d: "\<And>t. int t < lgn s \<Longrightarrow> d (lstart s + 1 + t) = bview s (logged s ! t)"
      "d (lstart s) = head_bytes (lgn s) (lgblock s) (bview s (lstart s))"
      "\<And>m. home s m \<Longrightarrow> m \<notin> set (logged s) \<Longrightarrow> d m = memdisk s m"
    and m: "home s m"
  shows "recovered (lstart s) d m = bview s m"
proof -
  note B = commit_bounds [OF assms(1,2,4)]
  have H: "hdr_n (d (lstart s)) = lgn s" "\<And>j. int j < lgn s \<Longrightarrow> hdr_block (d (lstart s)) j = lgblock s ! j"
    using hdr_head_bytes(2,3) [OF assms(5) _ B(3)] assms(4) d(2) by simp_all
  have blk: "unat (hdr_block (d (lstart s)) t) = logged s ! t" if "t < nat (hdr_n (d (lstart s)))" for t
    using that H log_ok_logged(3) [OF assms(1), of t] by simp
  show ?thesis
  proof (cases "m \<in> set (logged s)")
    case True
    then obtain t where t: "t < logged_n s" "logged s ! t = m"
      using length_logged [OF assms(1)] by (metis in_set_conv_nth)
    show ?thesis
    proof (rule replay_at)
      show "t < nat (hdr_n (d (lstart s)))" "unat (hdr_block (d (lstart s)) t) = m" using t H(1) blk by simp_all
      show "d (lstart s + 1 + u) = bview s m"
        if "u < nat (hdr_n (d (lstart s)))" "unat (hdr_block (d (lstart s)) u) = m" for u
        using that blk [OF that(1)] H(1) d(1) [of u] by simp
    qed
  next
    case False
    have "recovered (lstart s) d m = d m"
    proof (rule replay_other)
      show "unat (hdr_block (d (lstart s)) t) \<noteq> m" if "t < nat (hdr_n (d (lstart s)))" for t
        using blk [OF that] that H(1) False length_logged [OF assms(1)] by (metis nth_mem)
    qed
    moreover have "bview s m = memdisk s m"
      using bview_clean [of s m] assms(2,3) False by (simp add: quiet_def)
    ultimately show ?thesis using d(3) [OF m False] by simp
  qed
qed

lemma committed_disk:
  assumes "quiet p s" "log_ok s" "dirty s = set (logged s)" "0 < lgn s" "home s m"
  shows "apply_writes (commit_trace s) (memdisk s) m = bview s m" "apply_writes (commit_trace s) (bview s) m = bview s m"
proof -
  let ?L = "log_writes s (logged_n s)" and ?I = "map (\<lambda>b. (b, bview s b)) (logged s)"
  have nst: "m \<noteq> lstart s" using log_geom_start(3) [of s] assms(2,5) by (auto simp: log_ok_def)
  have nl: "m \<notin> fst ` set ?L" using home_not_log [OF assms(2,5), of "logged_n s"] assms(4) by simp
  have I: "apply_writes ?I d m = (if m \<in> set (logged s) then bview s m else d m)" for d
  proof (cases "m \<in> set (logged s)")
    case True
    then have "m \<in> fst ` set ?I" by (simp add: image_image)
    then have "apply_writes ?I d m = bview s m" by (intro apply_writes_in) auto
    with True show ?thesis by simp
  next
    case False
    then have "apply_writes ?I d m = d m" by (intro apply_writes_other) auto
    with False show ?thesis by simp
  qed
  have "m \<notin> set (logged s) \<Longrightarrow> bview s m = memdisk s m"
    using bview_clean [of s m] assms(1,3) by (simp add: quiet_def)
  then show "apply_writes (commit_trace s) (memdisk s) m = bview s m" "apply_writes (commit_trace s) (bview s) m = bview s m"
    using nst nl by (simp_all add: commit_trace_def Let_def I apply_writes_other)
qed

lemma crash_installing:
  assumes "quiet p s" "log_ok s" "dirty s = set (logged s)" "0 < lgn s" "length (bview s (lstart s)) = BSIZE"
    and "prefix zs (map (\<lambda>b. (b, bview s b)) (logged s))" "home s m"
  shows "recovered (lstart s) (apply_writes (log_writes s (logged_n s) @
     (lstart s, head_bytes (lgn s) (lgblock s) (bview s (lstart s))) # zs) (memdisk s)) m = bview s m"
proof (rule recovered_committed [OF assms(2,3,1,4,5) _ _ _ assms(7)])
  note B = commit_bounds [OF assms(2-4)]
  have z: "fst ` set zs \<subseteq> set (logged s)" using set_mono_prefix [OF assms(6)] by auto
  let ?d = "apply_writes (log_writes s (logged_n s) @ (lstart s, head_bytes (lgn s) (lgblock s) (bview s (lstart s))) # zs) (memdisk s)"
  show "?d (lstart s + 1 + t) = bview s (logged s ! t)" if "int t < lgn s" for t
  proof -
    have "lstart s + 1 + t \<notin> fst ` set zs" using log_blk_not_dirty(1) [OF assms(2) B(1) that] z assms(3) by auto
    then show ?thesis using log_writes_at(1) [OF assms(2) that] by (simp add: apply_writes_other)
  qed
  have "lstart s \<notin> fst ` set zs" using z B(4) assms(3) by auto
  then show "?d (lstart s) = head_bytes (lgn s) (lgblock s) (bview s (lstart s))" by (simp add: apply_writes_other)
  show "?d m = memdisk s m" if "home s m" "m \<notin> set (logged s)" for m
  proof -
    have "m \<notin> fst ` set zs" using z that(2) by blast
    moreover have "m \<noteq> lstart s" using log_geom_start(3) [of s] that(1) assms(2) by (auto simp: log_ok_def)
    moreover have "m \<notin> fst ` set (log_writes s (logged_n s))"
      using home_not_log [OF assms(2) that(1), of "logged_n s"] assms(4) by simp
    ultimately show ?thesis by (simp add: apply_writes_other)
  qed
qed

lemma commit_crash:
  assumes "quiet p s" "log_ok s" "dirty s = set (logged s)" "0 < lgn s"
    and "length (bview s (lstart s)) = BSIZE" "hdr_n (memdisk s (lstart s)) = 0" "prefix ws (commit_trace s)"
  shows "old_or_new s (recovered (lstart s) (apply_writes ws (memdisk s)))"
proof -
  let ?st = "lstart s" and ?L = "log_writes s (logged_n s)" and ?d = "apply_writes ws (memdisk s)"
  let ?H = "head_bytes (lgn s) (lgblock s) (bview s ?st)" and ?I = "map (\<lambda>b. (b, bview s b)) (logged s)"
  have tr: "commit_trace s = ?L @ (?st, ?H) # ?I @ [(?st, head_bytes 0 (lgblock s) ?H)]"
    by (simp add: commit_trace_def Let_def)
  from assms(7) [unfolded tr] show ?thesis
  proof (cases rule: prefix_trace_cases)
    case 1
    then have sub: "fst ` set ws \<subseteq> fst ` set ?L" by (auto dest: set_mono_prefix)
    then have "?d ?st = memdisk s ?st" by (intro apply_writes_other) (auto simp: log_writes_def)
    then have "recovered ?st ?d = ?d" using assms(6) by (intro recovered_empty) simp
    moreover have "?d m = memdisk s m" if "home s m" for m
      using sub home_not_log [OF assms(2) that, of "logged_n s"] assms(4) by (intro apply_writes_other) auto
    ultimately show ?thesis by (simp add: old_or_new_def)
  next
    case (2 zs)
    then show ?thesis using crash_installing [OF assms(1-5) 2(2)] by (simp add: old_or_new_def)
  next
    case 3
    have "hdr_n (?d ?st) = 0"
      using hdr_head_bytes(2) [OF hdr_head_bytes(1) [OF assms(5)]] commit_bounds(3) [OF assms(2-4)] assms(4) by (simp add: 3)
    then have "recovered ?st ?d = ?d" by (intro recovered_empty) simp
    then show ?thesis using committed_disk(1) [OF assms(1-4)] by (simp add: old_or_new_def 3 tr)
  qed
qed

section \<open>Recovery\<close>

definition load_head :: "block \<Rightarrow> log \<Rightarrow> log" where
  "load_head b l = fold (\<lambda>i. set_lh_block i (hdr_block b i)) [0..<nat (hdr_n b)] (set_lh_n (hdr_n b) l)"

lemma upd_lg_upd_lg: "upd_lg g (upd_lg f s) = upd_lg (\<lambda>l. g (f l)) s"
  by (simp add: upd_lg_def)

lemma length_set_lh_block [simp]: "length (lh_block (lg_lh (set_lh_block i b l))) = length (lh_block (lg_lh l))"
  by (simp add: set_lh_block_def)

lemma load_blocks:
  "k \<le> length (lgblock s) \<Longrightarrow>
     kfor [0..<k] (\<lambda>i s. if length (lgblock s) \<le> i then Fault
        else Ret () (upd_lg (set_lh_block i (get32 (4 + 4 * i) b)) s)) s =
     Ret () (upd_lg (fold (\<lambda>i. set_lh_block i (hdr_block b i)) [0..<k]) s) \<and>
     length (lgblock (upd_lg (fold (\<lambda>i. set_lh_block i (hdr_block b i)) [0..<k]) s)) = length (lgblock s)"
proof (induction k)
  case 0
  then show ?case by (simp add: upd_lg_def)
next
  case (Suc k)
  then have "kfor [0..<k] (\<lambda>i s. if length (lgblock s) \<le> i then Fault
        else Ret () (upd_lg (set_lh_block i (get32 (4 + 4 * i) b)) s)) s =
     Ret () (upd_lg (fold (\<lambda>i. set_lh_block i (hdr_block b i)) [0..<k]) s)"
    "length (lgblock (upd_lg (fold (\<lambda>i. set_lh_block i (hdr_block b i)) [0..<k]) s)) = length (lgblock s)" by simp_all
  with Suc.prems show ?case unfolding kfor_Suc by (simp add: hdr_block_def upd_lg_upd_lg)
qed

lemma load_head_simps:
  assumes "length (lh_block (lg_lh l)) = LOGSIZE" "hdr_n b \<le> int LOGSIZE"
  shows "lh_n (lg_lh (load_head b l)) = hdr_n b" "length (lh_block (lg_lh (load_head b l))) = LOGSIZE"
    "lg_start (load_head b l) = lg_start l" "lg_size (load_head b l) = lg_size l" "lg_dev (load_head b l) = lg_dev l"
    "take (nat (hdr_n b)) (lh_block (lg_lh (load_head b l))) = map (hdr_block b) [0..<nat (hdr_n b)]"
proof -
  let ?f = "\<lambda>k l. fold (\<lambda>i. set_lh_block i (hdr_block b i)) [0..<k] l"
  have *: "lh_n (lg_lh (?f k m)) = lh_n (lg_lh m) \<and> length (lh_block (lg_lh (?f k m))) = length (lh_block (lg_lh m)) \<and>
    lg_start (?f k m) = lg_start m \<and> lg_size (?f k m) = lg_size m \<and> lg_dev (?f k m) = lg_dev m \<and>
    (k \<le> length (lh_block (lg_lh m)) \<longrightarrow> take k (lh_block (lg_lh (?f k m))) = map (hdr_block b) [0..<k])" for k m
  proof (induction k)
    case (Suc k)
    then show ?case by (auto simp: set_lh_block_def take_Suc_conv_app_nth)
  qed simp
  have "nat (hdr_n b) \<le> LOGSIZE" using assms(2) by simp
  with * [of "nat (hdr_n b)" "set_lh_n (hdr_n b) l"] assms(1)
  show "lh_n (lg_lh (load_head b l)) = hdr_n b" "length (lh_block (lg_lh (load_head b l))) = LOGSIZE"
    "lg_start (load_head b l) = lg_start l" "lg_size (load_head b l) = lg_size l" "lg_dev (load_head b l) = lg_dev l"
    "take (nat (hdr_n b)) (lh_block (lg_lh (load_head b l))) = map (hdr_block b) [0..<nat (hdr_n b)]"
    unfolding load_head_def by (simp_all add: set_lh_n_def)
qed

lemma has_buf_upd_lg [simp]: "has_buf p n i (upd_lg f s) = has_buf p n i s"
  by (simp add: has_buf_def holds_def cached_def)

lemma read_head_spec:
  assumes "quiet p s" "log_geom s" "dirty s = {}" "hdr_n (bview s (lstart s)) \<le> int LOGSIZE"
  shows "\<exists>s'. read_head s = Ret () s' \<and> log_rel p s s' \<and> lg s' = load_head (bview s (lstart s)) (lg s) \<and> quiet p s' \<and>
     bview s' = bview s \<and> memdisk s' = memdisk s \<and> dtrace s' = dtrace s \<and> dirty s' = {}"
proof -
  have I: "in_proc p s \<and> bio_inv s" and h: "held_blocks s = {}" using assms(1) by (auto simp: quiet_def)
  note S = log_geom_start [OF assms(2)]
  let ?a = "word_of_int (lg_start (lg s)) :: uint32" and ?b = "bview s (lstart s)"
  have ad: "unat ?a < disksize s" "unat ?a \<notin> held_blocks s" "unat ?a \<in> dirty s \<or> card (held_blocks s \<union> dirty s) < NBUF"
    using S h assms(3) by (simp_all add: NBUF_def MAXOPBLOCKS_def)
  from bc.rd_law [OF I ad] obtain i s1 where
    r: "bread 1 ?a s = Ret i s1" "in_proc p s1 \<and> bio_inv s1" "bio_rel p s s1" "has_buf p (unat ?a) i s1" "bview s1 = bview s"
    "memdisk s1 = memdisk s" "dtrace s1 = dtrace s" "held_blocks s1 = {unat ?a}" "dirty s1 = {}" using h assms(3) by auto
  have lgs: "lg s1 = lg s" using bio_rel_lg(1) [OF r(3)] .
  let ?c = "b_data (buf_at s1 i)"
  have d: "?c = ?b" using bc.data_has [OF r(2,4)] r(5) S(1) by simp
  let ?t = "upd_lg (load_head ?c) s1"
  have len: "nat (hdr_n ?c) \<le> length (lgblock (upd_lg (set_lh_n (hdr_n ?c)) s1))"
    using assms(2,4) lgs d by (simp add: set_lh_n_def log_geom_def)
  have comp: "upd_lg (fold (\<lambda>i. set_lh_block i (hdr_block ?c i)) [0..<nat (hdr_n ?c)]) (upd_lg (set_lh_n (hdr_n ?c)) s1) = ?t"
    by (simp add: upd_lg_def load_head_def)
  have clean: "bview s (unat ?a) = memdisk s (unat ?a)" using bview_clean [of s] I h assms(3) by simp
  have rt: "in_proc p ?t \<and> bio_inv ?t" "has_buf p (unat ?a) i ?t" "unat ?a \<in> dirty ?t \<or> bview ?t (unat ?a) = memdisk ?t (unat ?a)"
    using r clean by simp_all
  from bc.rel_law [OF rt] obtain s2 where
    w: "brelse i ?t = Ret () s2" "in_proc p s2 \<and> bio_inv s2" "bio_rel p ?t s2" "bview s2 = bview ?t" "memdisk s2 = memdisk ?t"
    "dtrace s2 = dtrace ?t" "held_blocks s2 = held_blocks ?t - {unat ?a}" "dirty s2 = dirty ?t" by blast
  have dev: "lg_dev (lg s) = 1" using assms(2) by (simp add: log_geom_def)
  have n: "lgn (upd_lg (set_lh_n (hdr_n ?c)) s1) = hdr_n ?c" by (simp add: set_lh_n_def)
  have "read_head s = Ret () s2"
    unfolding read_head_def dev r(1) kbind.simps Let_def hdr_n_def [symmetric] n load_blocks [OF len, THEN conjunct1] comp
    by (rule w(1))
  moreover have "log_rel p s s2"
    using log_rel_trans [OF log_rel_trans [OF bio_rel_log_rel [OF r(3)] log_rel_upd_lg] bio_rel_log_rel [OF w(3)]] .
  moreover have "lg s2 = load_head ?b (lg s)" using bio_rel_lg(1) [OF w(3)] lgs d by simp
  moreover have "quiet p s2" using w(2,7) r(8) by (simp add: quiet_def)
  ultimately show ?thesis using w(4-8) r(5-9) by (intro exI [of _ s2]) simp
qed

lemma quiet_clean: "quiet p s \<Longrightarrow> dirty s = {} \<Longrightarrow> bview s = memdisk s"
  using bview_clean [of s] by (simp add: quiet_def fun_eq_iff)

text \<open>A disk on which the log header describes a log that can be replayed.\<close>

definition log_on_disk :: "'a log_state_scheme \<Rightarrow> (nat \<Rightarrow> block) \<Rightarrow> bool" where
  "log_on_disk s d \<longleftrightarrow> length (d (lstart s)) = BSIZE \<and> 0 \<le> hdr_n (d (lstart s)) \<and> hdr_n (d (lstart s)) < lg_size (lg s) \<and>
     (\<forall>t<nat (hdr_n (d (lstart s))). home s (unat (hdr_block (d (lstart s)) t)))"

definition recovery_trace :: "nat \<Rightarrow> (nat \<Rightarrow> block) \<Rightarrow> (nat \<times> block) list" where
  "recovery_trace st d = replay st d @ [(st, put32 0 0 (d st))]"

lemma recovery_trace_home:
  assumes "log_geom s" "log_on_disk s d"
  shows "home s m \<Longrightarrow> apply_writes (recovery_trace (lstart s) d) d m = recovered (lstart s) d m"
    "hdr_n (apply_writes (recovery_trace (lstart s) d) d (lstart s)) = 0"
    "length (apply_writes (recovery_trace (lstart s) d) d (lstart s)) = BSIZE"
proof -
  show "home s m \<Longrightarrow> apply_writes (recovery_trace (lstart s) d) d m = recovered (lstart s) d m"
    using log_geom_start(3) [OF assms(1)] by (auto simp: recovery_trace_def recovered_def)
  show "hdr_n (apply_writes (recovery_trace (lstart s) d) d (lstart s)) = 0"
    "length (apply_writes (recovery_trace (lstart s) d) d (lstart s)) = BSIZE"
    using assms(2) by (simp_all add: recovery_trace_def log_on_disk_def hdr_n_def get32_put32 BSIZE_def)
qed

lemma recover_spec:
  assumes "quiet p s" "log_geom s" "dirty s = {}" "log_on_disk s (memdisk s)"
  shows "\<exists>s'. recover_from_log s = Ret () s' \<and> quiet p s' \<and> log_rel p s s' \<and> log_ok s' \<and> lgn s' = 0 \<and> dirty s' = {} \<and>
     lstart s' = lstart s \<and> lg_size (lg s') = lg_size (lg s) \<and> lg_outstanding (lg s') = lg_outstanding (lg s) \<and>
     memdisk s' = apply_writes (recovery_trace (lstart s) (memdisk s)) (memdisk s) \<and>
     dtrace s' = dtrace s @ recovery_trace (lstart s) (memdisk s)"
proof -
  let ?d = "memdisk s" and ?st = "lstart s"
  let ?b = "?d ?st" let ?l = "load_head ?b (lg s)"
  have v: "bview s = ?d" using quiet_clean [OF assms(1,3)] .
  have hd: "0 \<le> hdr_n ?b" "hdr_n ?b < lg_size (lg s)" "\<And>t. t < nat (hdr_n ?b) \<Longrightarrow> home s (unat (hdr_block ?b t))"
    using assms(4) by (auto simp: log_on_disk_def)
  have g: "hdr_n ?b \<le> int LOGSIZE" "length (lgblock s) = LOGSIZE" using assms(2) hd(2) by (auto simp: log_geom_def)
  obtain s1 where 1: "read_head s = Ret () s1" "log_rel p s s1" "lg s1 = ?l" "quiet p s1" "bview s1 = ?d" "memdisk s1 = ?d"
    "dtrace s1 = dtrace s" "dirty s1 = {}"
    using read_head_spec [OF assms(1-3)] g(1) v by auto
  note L = load_head_simps [OF g(2,1)]
  have "lg_outstanding (fold (\<lambda>i. set_lh_block i (hdr_block ?b i)) xs m) = lg_outstanding m" for xs m
    by (induction xs arbitrary: m) (simp_all add: set_lh_block_def)
  then have Lo: "lg_outstanding ?l = lg_outstanding (lg s)" by (simp add: load_head_def set_lh_n_def)
  have ds: "disksize s1 = disksize s" using 1(2) by (simp add: log_rel_def)
  have lgd: "logged s1 = map (\<lambda>t. unat (hdr_block ?b t)) [0..<nat (hdr_n ?b)]"
    using L(1,6) by (simp add: logged_def 1(3))
  have hm: "home s1 m = home s m" for m using L 1(3) ds by (simp add: home_def)
  have ok: "log_ok s1" using assms(2) hd lgd hm L 1(3) ds by (auto simp: log_ok_def log_geom_def)
  have n: "int (nat (lgn s1)) \<le> lgn s1" "card (dirty s1) < NBUF" "\<forall>b\<in>dirty s1. home s1 b"
    "(distinct (logged s1) \<and> set (logged s1) \<subseteq> dirty s1) \<or> card (dirty s1) + 1 < NBUF"
    using hd(1) 1(8) L(1) 1(3) by (simp_all add: NBUF_def MAXOPBLOCKS_def)
  obtain s2 where 2: "install_trans s1 = Ret () s2"
    "wrote p (home_writes s1 (nat (lgn s1))) (dirty s1 - set (take (nat (lgn s1)) (logged s1))) s1 s2"
    using install_upto [OF 1(4) ok n(3,2,1,4)] by (auto simp: install_trans_def)
  have "home_writes s1 (nat (lgn s1)) = replay ?st ?d"
    using L(1,3) lgd 1(3,5) by (simp add: home_writes_def replay_def)
  then have w2: "wrote p (replay ?st ?d) {} s1 s2" using 2(2) 1(8) by simp
  note U = wroteD [OF w2]
  have g2: "log_geom s2" using U(8) ok by (simp add: log_ok_def)
  obtain s3 where 3: "write_head (upd_lg (set_lh_n 0) s2) = Ret () s3" "log_rel p s2 s3" "lg s3 = set_lh_n 0 (lg s2)"
    "wrote p [(lstart s2, head_bytes 0 (lgblock s2) (bview s2 (lstart s2)))] {} (upd_lg (set_lh_n 0) s2) s3"
    using clear_head [OF U(1) g2 U(6)] by blast
  note W = wroteD [OF 3(4)]
  have "?st \<notin> fst ` set (replay ?st ?d)"
    using hd(3) log_geom_start(3) [OF assms(2)] by (auto simp: replay_def) (metis)
  then have hb: "head_bytes 0 (lgblock s2) (bview s2 ?st) = put32 0 0 ?b"
    using U(3) 1(5) by (simp add: head_bytes_def apply_writes_other)
  have st2: "lstart s2 = ?st" using U(7) 1(3) L(3) by simp
  have tr: "dtrace s3 = dtrace s @ recovery_trace ?st ?d" "memdisk s3 = apply_writes (recovery_trace ?st ?d) ?d"
    using W(4,5) U(4,5) 1(6,7) hb st2 by (simp_all add: recovery_trace_def)
  have "log_ok s3" using ok U(7) 3(3) W(11) U(11) by (auto simp: log_ok_def log_geom_def set_lh_n_def logged_def)
  moreover have "log_rel p s s3" using log_rel_trans [OF log_rel_trans [OF 1(2) bio_rel_log_rel [OF U(2)]] 3(2)] .
  moreover have "recover_from_log s = Ret () s3" using 1(1) 2(1) 3(1) by (simp add: recover_from_log_def)
  ultimately show ?thesis
    using W(1,6) tr 3(3) U(7) 1(3) L(3,4) Lo by (intro exI [of _ s3]) (simp add: set_lh_n_def)
qed

lemma crash_log_on_disk:
  assumes "quiet p s" "log_ok s" "dirty s = set (logged s)" "0 < lgn s"
    and "length (bview s (lstart s)) = BSIZE" "hdr_n (memdisk s (lstart s)) = 0" "prefix ws (commit_trace s)"
  shows "log_on_disk s (apply_writes ws (memdisk s))"
proof -
  note B = commit_bounds [OF assms(2-4)]
  let ?st = "lstart s" and ?L = "log_writes s (logged_n s)" and ?d = "apply_writes ws (memdisk s)"
  let ?H = "head_bytes (lgn s) (lgblock s) (bview s ?st)" and ?I = "map (\<lambda>b. (b, bview s b)) (logged s)"
  have size: "lgn s < lg_size (lg s)" "0 < lg_size (lg s)" using assms(2) by (auto simp: log_ok_def log_geom_def)
  have HH: "length ?H = BSIZE" "hdr_n ?H = lgn s" "\<And>j. int j < lgn s \<Longrightarrow> hdr_block ?H j = lgblock s ! j"
    using hdr_head_bytes [OF assms(5) _ B(3)] assms(4) by simp_all
  have tr: "commit_trace s = ?L @ (?st, ?H) # ?I @ [(?st, head_bytes 0 (lgblock s) ?H)]"
    by (simp add: commit_trace_def Let_def)
  from assms(7) [unfolded tr] show ?thesis
  proof (cases rule: prefix_trace_cases)
    case 1
    then have "fst ` set ws \<subseteq> fst ` set ?L" by (auto dest: set_mono_prefix)
    then have "?d ?st = memdisk s ?st" by (intro apply_writes_other) (auto simp: log_writes_def)
    moreover have "bview s ?st = memdisk s ?st" using bview_clean [of s ?st] assms(1,3) B(4) by (simp add: quiet_def)
    ultimately show ?thesis using assms(5,6) size by (simp add: log_on_disk_def)
  next
    case (2 zs)
    have "fst ` set zs \<subseteq> set (logged s)" using set_mono_prefix [OF 2(2)] by auto
    then have "?st \<notin> fst ` set zs" using B(4) assms(3) by auto
    then have "?d ?st = ?H" by (simp add: 2(1) apply_writes_other)
    moreover have "home s (unat (hdr_block ?H t))" if "t < nat (lgn s)" for t
      using that HH(3) [of t] log_ok_logged(3,4) [OF assms(2), of t] by simp
    ultimately show ?thesis using HH assms(4) size by (simp add: log_on_disk_def)
  next
    case 3
    have "?d ?st = head_bytes 0 (lgblock s) ?H" by (simp add: 3)
    then show ?thesis using hdr_head_bytes(1,2) [OF HH(1), of 0] size by (simp add: log_on_disk_def)
  qed
qed

lemma apply_writes_cong: "d m = d' m \<or> m \<in> fst ` set ws \<Longrightarrow> apply_writes ws d m = apply_writes ws d' m"
proof (induction ws arbitrary: d d')
  case (Cons w ws)
  then show ?case using Cons.IH [of "d(fst w := snd w)" "d'(fst w := snd w)"] by auto
qed simp

lemma replay_stable:
  assumes "log_geom s" "log_on_disk s d" "prefix ws (replay (lstart s) d)"
  shows "replay (lstart s) (apply_writes ws d) = replay (lstart s) d"
proof -
  let ?st = "lstart s" let ?n = "nat (hdr_n (d ?st))"
  have h: "home s m" if "m \<in> fst ` set ws" for m
  proof -
    have "m \<in> fst ` set (replay ?st d)" using that set_mono_prefix [OF assms(3)] by auto
    then show ?thesis using assms(2) by (auto simp: replay_def log_on_disk_def)
  qed
  have "apply_writes ws d ?st = d ?st" using h log_geom_start(3) [OF assms(1)] by (intro apply_writes_other) blast
  moreover have "apply_writes ws d (?st + 1 + t) = d (?st + 1 + t)" if "t < ?n" for t
  proof -
    have "int t < lg_size (lg s) - 1" using that assms(2) by (auto simp: log_on_disk_def)
    then show ?thesis using h log_geom_blk(3) [OF assms(1)] by (intro apply_writes_other) blast
  qed
  ultimately show ?thesis by (simp add: replay_def)
qed

lemma recovered_again:
  assumes "log_geom s" "log_on_disk s d" "prefix ws (recovery_trace (lstart s) d)" "home s m"
  shows "recovered (lstart s) (apply_writes ws d) m = recovered (lstart s) d m"
  using assms(3) unfolding recovery_trace_def prefix_snoc
proof
  let ?st = "lstart s"
  assume "ws = replay ?st d @ [(?st, put32 0 0 (d ?st))]"
  then have ws: "ws = recovery_trace ?st d" by (simp add: recovery_trace_def)
  have "recovered ?st (apply_writes ws d) = apply_writes ws d"
    using recovery_trace_home(2) [OF assms(1,2)] by (intro recovered_empty) (simp add: ws)
  then show ?thesis using recovery_trace_home(1) [OF assms(1,2,4)] by (simp add: ws)
next
  let ?st = "lstart s"
  assume p: "prefix ws (replay ?st d)"
  have "apply_writes ws d m = d m \<or> m \<in> fst ` set (replay ?st d)"
  proof (cases "m \<in> fst ` set ws")
    case True
    then show ?thesis using set_mono_prefix [OF p] by blast
  qed (simp add: apply_writes_other)
  then show ?thesis unfolding recovered_def replay_stable [OF assms(1,2) p] by (rule apply_writes_cong)
qed

section \<open>Transactions\<close>

lemma log_slot_spec:
  assumes "log_ok s"
  shows "log_slot (lgn s) (lgblock s) b = logged_n s \<and> unat b \<notin> set (logged s) \<or>
     (\<exists>t<logged_n s. log_slot (lgn s) (lgblock s) b = t \<and> lgblock s ! t = b \<and> unat b \<in> set (logged s))"
proof (cases "find (\<lambda>i. lgblock s ! i = b) [0..<logged_n s]")
  case None
  have "unat b \<notin> set (logged s)"
  proof
    assume "unat b \<in> set (logged s)"
    then obtain t where "t < length (logged s)" "logged s ! t = unat b" by (metis in_set_conv_nth)
    then have t: "t < logged_n s" "logged s ! t = unat b" using length_logged [OF assms] by simp_all
    moreover have "int t < lgn s" using t(1) by simp
    then have "unat (lgblock s ! t) = logged s ! t" by (rule log_ok_logged(3) [OF assms])
    ultimately have "lgblock s ! t = b" by (simp add: unsigned_word_eqI)
    with None t(1) show False by (auto simp: find_upt_None)
  qed
  with None show ?thesis by (simp add: log_slot_def)
next
  case (Some t)
  then have t: "t < logged_n s" "lgblock s ! t = b" by (auto simp: find_upt_Some)
  then have "int t < lgn s" by simp
  from log_ok_logged(2,3) [OF assms this] t have "unat b \<in> set (logged s)" by (metis nth_mem)
  with t Some show ?thesis by (simp add: log_slot_def)
qed

text \<open>The header after \<open>log_write\<close> of a block.\<close>

definition log_add :: "uint32 \<Rightarrow> log \<Rightarrow> log" where
  "log_add b l = (let i = log_slot (lh_n (lg_lh l)) (lh_block (lg_lh l)) b; l = set_lh_block i b l
     in if int i = lh_n (lg_lh l) then set_lh_n (lh_n (lg_lh l) + 1) l else l)"

lemma log_add_spec:
  assumes "log_ok s" "lgn s < lg_size (lg s) - 1" "home s (unat b)"
  defines "s' \<equiv> upd_lg (log_add b) s"
  shows "logged s' = (if unat b \<in> set (logged s) then logged s else logged s @ [unat b])" "log_ok s'"
    "lstart s' = lstart s" "lg_size (lg s') = lg_size (lg s)" "lg_outstanding (lg s') = lg_outstanding (lg s)"
    "lg_committing (lg s') = lg_committing (lg s)"
    "lgn s' = (if unat b \<in> set (logged s) then lgn s else lgn s + 1)" "home s' m = home s m"
proof -
  have g: "log_geom s" "0 \<le> lgn s" "lgn s < int (length (lgblock s))"
    using assms(1,2) by (auto simp: log_ok_def log_geom_def)
  from log_slot_spec [OF assms(1), of b]
  have *: "logged s' = (if unat b \<in> set (logged s) then logged s else logged s @ [unat b]) \<and> lg_start (lg s') = lg_start (lg s) \<and>
    lg_size (lg s') = lg_size (lg s) \<and> lg_outstanding (lg s') = lg_outstanding (lg s) \<and>
    lg_committing (lg s') = lg_committing (lg s) \<and> lg_dev (lg s') = lg_dev (lg s) \<and>
    lgn s' = (if unat b \<in> set (logged s) then lgn s else lgn s + 1) \<and> length (lgblock s') = length (lgblock s)"
  proof (elim disjE exE conjE)
    assume i: "log_slot (lgn s) (lgblock s) b = logged_n s" "unat b \<notin> set (logged s)"
    then have l: "log_add b (lg s) = set_lh_n (lgn s + 1) (set_lh_block (logged_n s) b (lg s))"
      using g(2) by (simp add: log_add_def Let_def set_lh_block_def)
    have "nat (lgn s + 1) = Suc (logged_n s)" "logged_n s < length (lgblock s)" using g(2,3) by simp_all
    then show ?thesis using i(2)
      by (simp add: s'_def logged_def l set_lh_n_def set_lh_block_def take_Suc_conv_app_nth)
  next
    fix t assume i: "t < logged_n s" "log_slot (lgn s) (lgblock s) b = t" "lgblock s ! t = b" "unat b \<in> set (logged s)"
    have "(lgblock s)[t := b] = lgblock s" using i(3) by (metis list_update_id)
    then have "set_lh_block t b (lg s) = lg s" by (simp add: set_lh_block_def)
    then have "log_add b (lg s) = lg s" using i(1,2) by (auto simp: log_add_def Let_def)
    then show ?thesis using i(4) by (simp add: s'_def logged_def)
  qed
  then show "logged s' = (if unat b \<in> set (logged s) then logged s else logged s @ [unat b])" "lstart s' = lstart s"
    "lg_size (lg s') = lg_size (lg s)" "lg_outstanding (lg s') = lg_outstanding (lg s)"
    "lg_committing (lg s') = lg_committing (lg s)" "lgn s' = (if unat b \<in> set (logged s) then lgn s else lgn s + 1)" by simp_all
  have ds: "disksize s' = disksize s" by (simp add: s'_def)
  show h: "home s' m = home s m" for m using * ds by (simp add: home_def)
  show "log_ok s'" using * ds h assms(1-3) g by (auto simp: log_ok_def log_geom_def)
qed

text \<open>An open transaction: the pinned blocks are the logged ones, each once.\<close>

definition trans_ok :: "nat \<Rightarrow> 'a log_state_scheme \<Rightarrow> bool" where
  "trans_ok p s \<longleftrightarrow> in_proc p s \<and> bio_inv s \<and> log_ok s \<and> distinct (logged s) \<and> dirty s = set (logged s) \<and>
     0 < lg_outstanding (lg s) \<and> \<not> lg_committing (lg s)"

lemma log_write_spec:
  assumes "trans_ok p s" "has_buf p n i s" "home s n" "lgn s < lg_size (lg s) - 1"
  shows "\<exists>s'. log_write i s = Ret () s' \<and> trans_ok p s' \<and> log_rel p s s' \<and> bview s' = bview s \<and> memdisk s' = memdisk s \<and>
     dtrace s' = dtrace s \<and> dirty s' = insert n (dirty s) \<and> held_blocks s' = held_blocks s \<and>
     (\<forall>m j. has_buf p m j s \<longrightarrow> has_buf p m j s') \<and> lstart s' = lstart s \<and> lg_size (lg s') = lg_size (lg s) \<and>
     lg_outstanding (lg s') = lg_outstanding (lg s) \<and> lgn s' = (if n \<in> dirty s then lgn s else lgn s + 1) \<and> home s' = home s"
proof -
  have t: "in_proc p s" "bio_inv s" "log_ok s" "distinct (logged s)" "dirty s = set (logged s)"
    "0 < lg_outstanding (lg s)" "\<not> lg_committing (lg s)" using assms(1) by (auto simp: trans_ok_def)
  let ?b = "b_blockno (buf_at s i)"
  have b: "unat ?b = n" using has_bufD(4) [OF assms(2) t(2)] .
  have hb: "home s (unat ?b)" using assms(3) b by simp
  let ?t = "upd_lg (log_add ?b) s" let ?s = "upd_buf i (\<lambda>b. b\<lparr>b_dirty := True\<rparr>) ?t"
  note A = log_add_spec [OF t(3) assms(4) hb, unfolded b]
  have it: "in_proc p ?t" "bio_inv ?t" "has_buf p n i ?t" using t(1,2) assms(2) by simp_all
  note P = pin_spec [OF it]
  have lgs: "lg ?s = lg ?t" using bio_rel_lg(1) [OF P(1)] .
  have dsz: "disksize ?s = disksize ?t" using bio_rel_lg(3) [OF P(1)] .
  have held: "held s = []" using in_procD(2) [OF t(1)] .
  have "lgn s < int LOGSIZE" using assms(4) t(3) by (auto simp: log_ok_def log_geom_def)
  then have "log_write i s = Ret () ?s"
    using assms(4) t(6) held by (simp add: log_write_def Let_def log_add_def upd_lg_def upd_buf_def set_lh_block_def)
  moreover have "log_rel p s ?s" using log_rel_trans [OF log_rel_upd_lg bio_rel_log_rel [OF P(1)]] .
  moreover have "trans_ok p ?s"
    using A(1,2,5,6) log_cong [OF lgs dsz] t(4-7) P(5) bio_relD(1,2) [OF P(1)] lgs by (auto simp: trans_ok_def)
  moreover have "home ?s = home s" using log_cong(1) [OF lgs dsz] A(8) by (simp add: fun_eq_iff)
  ultimately show ?thesis
    using P(2-7) A(3-7) lgs t(5) by (intro exI [of _ ?s]) simp
qed

lemma proc_more_log:
  "proc_state.more t = proc_state.more s \<Longrightarrow> slocks t = slocks s \<and> bufs t = bufs s \<and> memdisk t = memdisk s \<and>
     disksize t = disksize s \<and> dtrace t = dtrace s \<and> lg t = lg s \<and> log_state.more t = log_state.more s"
  by (cases s rule: log_state.cases_scheme, cases t rule: log_state.cases_scheme, hypsubst) simp

lemma bio_fields_cong:
  fixes s :: "'a bio_state_scheme" and t :: "'b bio_state_scheme"
  assumes "bufs t = bufs s" "slocks t = slocks s" "memdisk t = memdisk s"
  shows "bview t = bview s" "dirty t = dirty s" "held_blocks t = held_blocks s" "bio_inv t = bio_inv s" "cached t = cached s"
proof -
  have c: "cached t n i = cached s n i" "blocked t i = blocked s i" for n i
    using assms by (simp_all add: cached_def blocked_def)
  show "cached t = cached s" using c by (simp add: fun_eq_iff)
  show "bview t = bview s" unfolding bview_def [abs_def] c assms by (rule refl)
  show "dirty t = dirty s" "held_blocks t = held_blocks s" unfolding dirty_def held_blocks_def c assms by (rule refl)+
  show "bio_inv t = bio_inv s" unfolding bio_inv_def c assms by (rule refl)
qed

lemma wakeup_log:
  assumes "in_proc p s" "bio_inv s" "lk \<noteq> LkPtable"
  shows "\<exists>s'. kbind (wakeup c (s\<lparr>held := [lk]\<rparr>)) (\<lambda>_. release lk) = Ret () s' \<and> in_proc p s' \<and> bio_inv s' \<and> log_rel p s s' \<and>
     lg s' = lg s \<and> bview s' = bview s \<and> memdisk s' = memdisk s \<and> dtrace s' = dtrace s \<and> dirty s' = dirty s \<and>
     held_blocks s' = held_blocks s"
proof -
  obtain s' where s': "kbind (wakeup c (s\<lparr>held := [lk]\<rparr>)) (\<lambda>_. release lk) = Ret () s'" "in_proc p s'" "slot s' p = slot s p"
     "freelist s' = freelist s" "mem s' = mem s" "ticks s' = ticks s" "initproc s' = initproc s"
     "proc_state.more s' = proc_state.more s" using wakeup_keeps [OF assms(1,3)] by blast
  from proc_more_log [OF s'(8)] have f: "slocks s' = slocks s" "bufs s' = bufs s" "memdisk s' = memdisk s"
    "disksize s' = disksize s" "dtrace s' = dtrace s" "lg s' = lg s" "log_state.more s' = log_state.more s" by auto
  from bio_fields_cong [OF f(2,1,3)] s' f assms(2) show ?thesis
    by (intro exI [of _ s']) (simp add: log_rel_def)
qed

lemma begin_op_spec:
  assumes "in_proc p s" "\<not> lg_committing (lg s)" "lgn s + (lg_outstanding (lg s) + 1) * int MAXOPBLOCKS \<le> int LOGSIZE"
  shows "begin_op s = Ret () (upd_lg (\<lambda>l. l\<lparr>lg_outstanding := lg_outstanding l + 1\<rparr>) s)"
  using in_procD(2) [OF assms(1)] assms(2,3) by (simp add: begin_op_def upd_lg_def)

lemma begin_op_waits:
  assumes "in_proc p s" "lg_committing (lg s) \<or> int LOGSIZE < lgn s + (lg_outstanding (lg s) + 1) * int MAXOPBLOCKS"
  shows "\<exists>s'. begin_op s = Block ChLog s' \<and> sleeps_on ChLog (slot s' p) \<and> lg s' = lg s"
  using sleep_in_proc [OF assms(1), of ChLog LkLog] assms(2) in_procD(2) [OF assms(1)] proc_more_log
  by (auto simp: begin_op_def)

text \<open>Changes of the counters leave the log itself alone.\<close>

definition same_log :: "log \<Rightarrow> log \<Rightarrow> bool" where
  "same_log l l' \<longleftrightarrow> lg_start l' = lg_start l \<and> lg_size l' = lg_size l \<and> lg_dev l' = lg_dev l \<and> lg_lh l' = lg_lh l"

lemma same_log_simps:
  assumes "same_log (lg s) (lg s')" "disksize s' = disksize s"
  shows "home s' = home s" "logged s' = logged s" "log_geom s' = log_geom s" "log_ok s' = log_ok s" "lstart s' = lstart s"
    "lgn s' = lgn s" "lgblock s' = lgblock s"
proof -
  have "home s' m = home s m" for m using assms by (simp add: home_def same_log_def)
  then show h: "home s' = home s" by (simp add: fun_eq_iff)
  show l: "logged s' = logged s" "log_geom s' = log_geom s" "lstart s' = lstart s" "lgn s' = lgn s" "lgblock s' = lgblock s"
    using assms by (simp_all add: same_log_def logged_def log_geom_def)
  show "log_ok s' = log_ok s" using assms h l by (simp add: log_ok_def same_log_def)
qed

lemma commit_any:
  assumes "quiet p s" "log_ok s" "distinct (logged s)" "dirty s = set (logged s)"
  shows "\<exists>s'. commit s = Ret () s' \<and> quiet p s' \<and> log_rel p s s' \<and> lg s' = set_lh_n 0 (lg s) \<and> dirty s' = {} \<and>
     (\<forall>m. home s m \<longrightarrow> memdisk s' m = bview s m \<and> bview s' m = bview s m)"
proof (cases "0 < lgn s")
  case True
  from commit_spec [OF assms True] committed_disk [OF assms(1,2,4) True] show ?thesis by auto
next
  case False
  then have "lgn s = 0" using assms(2) by (simp add: log_ok_def)
  then have l: "lg s = set_lh_n 0 (lg s)" "logged s = []" by (simp_all add: set_lh_n_def logged_def)
  moreover have "bview s = memdisk s" using quiet_clean [OF assms(1)] assms(4) l(2) by simp
  ultimately show ?thesis using False assms(1,4)
    by (intro exI [of _ s]) (auto simp: commit_def log_rel_def)
qed

lemma end_op_last:
  assumes "trans_ok p s" "held_blocks s = {}" "lg_outstanding (lg s) = 1"
  shows "\<exists>s'. end_op s = Ret () s' \<and> quiet p s' \<and> log_rel p s s' \<and> log_ok s' \<and> lgn s' = 0 \<and> lg_outstanding (lg s') = 0 \<and>
     \<not> lg_committing (lg s') \<and> lstart s' = lstart s \<and> dirty s' = {} \<and> home s' = home s \<and>
     (\<forall>m. home s m \<longrightarrow> memdisk s' m = bview s m \<and> bview s' m = bview s m)"
proof -
  have t: "in_proc p s" "bio_inv s" "log_ok s" "distinct (logged s)" "dirty s = set (logged s)" "\<not> lg_committing (lg s)"
    using assms(1) by (auto simp: trans_ok_def)
  let ?f = "\<lambda>l. l\<lparr>lg_outstanding := lg_outstanding l - 1, lg_committing := True\<rparr>"
  let ?s = "upd_lg ?f s"
  have sl: "same_log (lg s) (lg ?s)" by (simp add: same_log_def)
  note S = same_log_simps [OF sl upd_lg_simps(6)]
  have q: "quiet p ?s" "log_ok ?s" "distinct (logged ?s)" "dirty ?s = set (logged ?s)"
    using t assms(2) S by (simp_all add: quiet_def)
  obtain s1 where 1: "commit ?s = Ret () s1" "quiet p s1" "log_rel p ?s s1" "lg s1 = set_lh_n 0 (lg ?s)" "dirty s1 = {}"
    "\<forall>m. home ?s m \<longrightarrow> memdisk s1 m = bview ?s m \<and> bview s1 m = bview ?s m" using commit_any [OF q] by blast
  let ?t = "upd_lg (\<lambda>l. l\<lparr>lg_committing := False\<rparr>) s1"
  have it: "in_proc p ?t" "bio_inv ?t" using 1(2) by (simp_all add: quiet_def)
  have h1: "held s1 = []" using 1(2) in_procD(2) by (auto simp: quiet_def)
  obtain s2 where 2: "kbind (wakeup ChLog (?t\<lparr>held := [LkLog]\<rparr>)) (\<lambda>_. release LkLog) = Ret () s2" "in_proc p s2" "bio_inv s2"
    "log_rel p ?t s2" "lg s2 = lg ?t" "bview s2 = bview ?t" "memdisk s2 = memdisk ?t" "dirty s2 = dirty ?t"
    "held_blocks s2 = held_blocks ?t" using wakeup_log [OF it, of LkLog] by blast
  have c: "upd_lg (\<lambda>l. l\<lparr>lg_committing := False\<rparr>) (s1\<lparr>held := [LkLog]\<rparr>) = ?t\<lparr>held := [LkLog]\<rparr>" by (simp add: upd_lg_def)
  have rel: "release LkLog (upd_lg ?f (s\<lparr>held := [LkLog]\<rparr>)) = Ret () ?s"
    using in_procD(2) [OF t(1)] by (simp add: upd_lg_def)
  have "upd_lg (\<lambda>l. l\<lparr>lg_committing := True\<rparr>) (upd_lg (\<lambda>l. l\<lparr>lg_outstanding := lg_outstanding l - 1\<rparr>) (s\<lparr>held := [LkLog]\<rparr>)) =
      upd_lg ?f (s\<lparr>held := [LkLog]\<rparr>)" by (simp add: upd_lg_def)
  then have "end_op s = Ret () s2"
    using in_procD(2) [OF t(1)] t(6) assms(3) 1(1) h1 2(1) rel c by (simp add: end_op_def Let_def)
  moreover have "log_rel p s s2"
    using log_rel_trans [OF log_rel_trans [OF log_rel_trans [OF log_rel_upd_lg 1(3)] log_rel_upd_lg] 2(4)] .
  moreover have dsz: "disksize s2 = disksize s" using \<open>log_rel p s s2\<close> by (simp add: log_rel_def)
  moreover have lg2: "lg s2 = (set_lh_n 0 (lg s))\<lparr>lg_outstanding := 0, lg_committing := False\<rparr>"
    using 2(5) 1(4) assms(3) by (simp add: set_lh_n_def)
  moreover have "log_ok s2"
    using t(3) lg2 dsz by (auto simp: log_ok_def log_geom_def set_lh_n_def logged_def)
  moreover have "home s2 = home s" using lg2 dsz by (auto simp: home_def set_lh_n_def fun_eq_iff)
  ultimately show ?thesis using 2 1(2,5,6) S(1) by (intro exI [of _ s2]) (simp add: quiet_def set_lh_n_def)
qed

text \<open>What a step inside a transaction keeps, and the space a transaction has left.\<close>

definition tx_rel :: "nat \<Rightarrow> 'a log_state_scheme \<Rightarrow> 'a log_state_scheme \<Rightarrow> bool" where
  "tx_rel p s s' \<longleftrightarrow> trans_ok p s' \<and> log_rel p s s' \<and> memdisk s' = memdisk s \<and> dtrace s' = dtrace s \<and>
     held_blocks s' = held_blocks s \<and> home s' = home s \<and> lstart s' = lstart s \<and> lg_size (lg s') = lg_size (lg s) \<and>
     lg_outstanding (lg s') = lg_outstanding (lg s)"

lemma tx_rel_refl: "trans_ok p s \<Longrightarrow> tx_rel p s s"
  by (simp add: tx_rel_def log_rel_def)

lemma tx_rel_trans: "tx_rel p s t \<Longrightarrow> tx_rel p t u \<Longrightarrow> tx_rel p s u"
  using log_rel_trans by (auto simp: tx_rel_def)

lemma tx_relD:
  assumes "tx_rel p s s'"
  shows "trans_ok p s'" "log_rel p s s'" "held_blocks s' = held_blocks s" "home s' = home s" "lg_size (lg s') = lg_size (lg s)"
    "disksize s' = disksize s" "log_state.more s' = log_state.more s"
  using assms by (simp_all add: tx_rel_def log_rel_def)

definition room :: "nat \<Rightarrow> 'a log_state_scheme \<Rightarrow> bool" where
  "room k s \<longleftrightarrow> int (card (dirty s)) + int k < lg_size (lg s) \<and> card (held_blocks s) \<le> k"

lemma trans_okD:
  assumes "trans_ok p s"
  shows "in_proc p s \<and> bio_inv s" "log_ok s" "dirty s = set (logged s)" "lgn s = int (card (dirty s))" "finite (dirty s)"
    "lg_size (lg s) \<le> int LOGSIZE"
proof -
  show t: "in_proc p s \<and> bio_inv s" "log_ok s" "dirty s = set (logged s)" using assms by (auto simp: trans_ok_def)
  have "card (dirty s) = length (logged s)" using assms by (auto simp: trans_ok_def distinct_card)
  then show "lgn s = int (card (dirty s))" using length_logged [OF t(2)] t(2) by (simp add: log_ok_def)
  show "finite (dirty s)" using t(3) by simp
  show "lg_size (lg s) \<le> int LOGSIZE" using t(2) by (simp add: log_ok_def log_geom_def)
qed

lemma room_buffers:
  assumes "trans_ok p s" "room k s"
  shows "card (held_blocks s \<union> dirty s) < NBUF"
proof -
  have "card (held_blocks s \<union> dirty s) \<le> card (held_blocks s) + card (dirty s)" by (rule card_Un_le)
  moreover have "int (card (dirty s)) + int k < int LOGSIZE" using assms(2) trans_okD(6) [OF assms(1)] by (simp add: room_def)
  ultimately show ?thesis using assms(2) by (simp add: room_def NBUF_def LOGSIZE_def)
qed

text \<open>Reading a block inside a transaction.\<close>

lemma tx_read:
  assumes "trans_ok p s" "room k s" "unat b < disksize s" "unat b \<notin> held_blocks s"
  shows "\<exists>i s1 s2. bread 1 b s = Ret i s1 \<and> bio_rel p s s1 \<and> b_data (buf_at s1 i) = bview s (unat b) \<and> brelse i s1 = Ret () s2 \<and>
     tx_rel p s s2 \<and> bview s2 = bview s \<and> dirty s2 = dirty s"
proof -
  note t = trans_okD [OF assms(1)]
  from bc.read_release [OF t(1) assms(3,4) disjI2 [OF room_buffers [OF assms(1,2)]]]
  obtain i s1 s2 where r: "bread 1 b s = Ret i s1" "bio_rel p s s1" "b_data (buf_at s1 i) = bview s (unat b)"
    "brelse i s1 = Ret () s2" "in_proc p s2 \<and> bio_inv s2" "bio_rel p s s2" "bview s2 = bview s" "memdisk s2 = memdisk s"
    "dtrace s2 = dtrace s" "held_blocks s2 = held_blocks s" "dirty s2 = dirty s" by blast
  note L = bio_rel_lg [OF r(6)]
  have "trans_ok p s2" using assms(1) r(5,11) L by (simp add: trans_ok_def)
  moreover have "home s2 = home s" using L(4) by (simp add: fun_eq_iff)
  ultimately have "tx_rel p s s2" using bio_rel_log_rel [OF r(6)] r(8-10) L(1) by (simp add: tx_rel_def)
  with r show ?thesis by blast
qed

text \<open>Rewriting a block inside a transaction: read, change, \<open>log_write\<close>, release.\<close>

lemma tx_update:
  assumes "trans_ok p s" "room k s" "0 < k" "home s (unat b)" "unat b \<notin> held_blocks s"
  shows "\<exists>i s1. bread 1 b s = Ret i s1 \<and> bio_rel p s s1 \<and> b_data (buf_at s1 i) = bview s (unat b) \<and>
     (\<forall>d. \<exists>s2 s3. log_write i (upd_buf i (\<lambda>b. b\<lparr>b_data := d\<rparr>) s1) = Ret () s2 \<and> log_rel p s s2 \<and> brelse i s2 = Ret () s3 \<and>
        tx_rel p s s3 \<and> bview s3 = (bview s)(unat b := d) \<and> dirty s3 = insert (unat b) (dirty s))"
proof -
  note t = trans_okD [OF assms(1)]
  let ?n = "unat b"
  have sz: "?n < disksize s" using assms(4) by (simp add: home_def)
  from bc.rd_law [OF t(1) sz assms(5) disjI2 [OF room_buffers [OF assms(1,2)]]]
  obtain i s1 where r: "bread 1 b s = Ret i s1" "in_proc p s1 \<and> bio_inv s1" "bio_rel p s s1" "has_buf p ?n i s1"
    "bview s1 = bview s" "memdisk s1 = memdisk s" "dtrace s1 = dtrace s" "held_blocks s1 = insert ?n (held_blocks s)"
    "dirty s1 = dirty s" by blast
  note L1 = bio_rel_lg [OF r(3)]
  have "\<exists>s2 s3. log_write i (upd_buf i (\<lambda>b. b\<lparr>b_data := d\<rparr>) s1) = Ret () s2 \<and> log_rel p s s2 \<and> brelse i s2 = Ret () s3 \<and>
        tx_rel p s s3 \<and> bview s3 = (bview s)(?n := d) \<and> dirty s3 = insert ?n (dirty s)" for d
  proof -
    let ?t = "upd_buf i (\<lambda>b. b\<lparr>b_data := d\<rparr>) s1"
    note D = bc.setd_law [OF r(2,4), of d]
    have Dr: "bio_rel p s1 ?t" using D by blast
    note L = bio_rel_lg [OF Dr]
    have ok: "trans_ok p ?t" using assms(1) D r(9) L L1 by (simp add: trans_ok_def)
    have hb: "has_buf p ?n i ?t" using D r(4) by blast
    have hm: "home ?t ?n" "lgn ?t < lg_size (lg ?t) - 1"
      using assms(2-4) L L1 t(4) by (simp_all add: room_def)
    obtain s2 where w: "log_write i ?t = Ret () s2" "trans_ok p s2" "log_rel p ?t s2" "bview s2 = bview ?t"
      "memdisk s2 = memdisk ?t" "dtrace s2 = dtrace ?t" "dirty s2 = insert ?n (dirty ?t)" "held_blocks s2 = held_blocks ?t"
      "has_buf p ?n i s2" "lstart s2 = lstart ?t" "lg_size (lg s2) = lg_size (lg ?t)"
      "lg_outstanding (lg s2) = lg_outstanding (lg ?t)" "home s2 = home ?t"
      using log_write_spec [OF ok hb hm] hb by blast
    have "in_proc p s2 \<and> bio_inv s2" "?n \<in> dirty s2 \<or> bview s2 ?n = memdisk s2 ?n" using trans_okD(1) [OF w(2)] w(7) by simp_all
    from bc.rel_law [OF this(1) w(9) this(2)] obtain s3 where
      v: "brelse i s2 = Ret () s3" "in_proc p s3 \<and> bio_inv s3" "bio_rel p s2 s3" "bview s3 = bview s2" "memdisk s3 = memdisk s2"
      "dtrace s3 = dtrace s2" "held_blocks s3 = held_blocks s2 - {?n}" "dirty s3 = dirty s2" by blast
    note L3 = bio_rel_lg [OF v(3)]
    have lr: "log_rel p s s2" using log_rel_trans [OF bio_rel_log_rel [OF bio_rel_trans [OF r(3) Dr]] w(3)] .
    have "trans_ok p s3" using w(2) v(2,8) L3 by (simp add: trans_ok_def)
    moreover have "log_rel p s s3" using log_rel_trans [OF lr bio_rel_log_rel [OF v(3)]] .
    moreover have "held_blocks s3 = held_blocks s" using v(7) w(8) D r(8) assms(5) by auto
    moreover have "home s3 = home s" using L3(4) w(13) L(4) L1(4) by (simp add: fun_eq_iff)
    ultimately have "tx_rel p s s3" using v(5,6) w(5,6,10-12) D r(6,7) L(1) L1(1) L3(1) by (simp add: tx_rel_def)
    with w(1) lr v(1) show ?thesis using v(4,8) w(4,7) D r(5,9) by (intro exI [of _ s2] exI [of _ s3]) simp
  qed
  moreover have "b_data (buf_at s1 i) = bview s ?n" using bc.data_has [OF r(2,4)] r(5) by simp
  ultimately show ?thesis using r(1,3) by blast
qed

lemma room_update:
  assumes "room (Suc k) s" "tx_rel p s s'" "dirty s' = insert n (dirty s)" "card (held_blocks s) \<le> k"
  shows "room k s'"
  using assms card_insert_le_m1 [of "Suc (card (dirty s))" "dirty s" n] tx_relD(1,3,5) [OF assms(2)]
  by (simp add: room_def)

section \<open>An example\<close>

definition log0 :: log where
  "log0 = \<lparr>lg_start = 2, lg_size = 30, lg_outstanding = 0, lg_committing = False, lg_dev = 1,
     lg_lh = \<lparr>lh_n = 0, lh_block = replicate LOGSIZE 0\<rparr>\<rparr>"

definition log_example :: "'a \<Rightarrow> 'a log_state_scheme" where
  "log_example m = bio_example \<lparr>lg = log0, \<dots> = m\<rparr>"

lemma log_example_simps:
  "lg (log_example m) = log0" "log_state.more (log_example m) = m" "disksize (log_example m) = 1000"
  "memdisk (log_example m) = (\<lambda>_. replicate BSIZE 0)" "bview (log_example m) = (\<lambda>_. replicate BSIZE 0)"
  "held_blocks (log_example m) = {}" "dirty (log_example m) = {}" "in_proc 0 (log_example m)" "bio_inv (log_example m)"
  "logged (log_example m) = []" "log_ok (log_example m)"
proof -
  let ?s = "log_example m"
  have "bio_state.more ?s = \<lparr>lg = log0, \<dots> = m\<rparr>" by (simp add: log_example_def)
  then show l: "lg ?s = log0" "log_state.more ?s = m"
    by (cases ?s rule: log_state.cases_scheme, simp add: log_state.defs)+
  show d: "disksize ?s = 1000" "memdisk ?s = (\<lambda>_. replicate BSIZE 0)" "bview ?s = (\<lambda>_. replicate BSIZE 0)"
    "held_blocks ?s = {}" "dirty ?s = {}" "in_proc 0 ?s" "bio_inv ?s"
    by (simp_all add: log_example_def bio_example_ok in_proc_example)
  show g: "logged ?s = []" using l by (simp add: logged_def log0_def)
  show "log_ok ?s" using l(1) d(1) g by (simp add: log_ok_def log_geom_def log0_def LOGSIZE_def MAXOPBLOCKS_def)
qed

section \<open>Properties\<close>

text \<open>
  C27: commit is atomic with respect to crashes. With the blocks of the open transaction pinned in
  the cache and an empty log on disk, commit returns without running out of buffers and leaves
  every block outside the log on disk as the cache shows it. If the machine stops after any number
  of the disk writes commit makes, recovery at the next boot (recover_from_log over an empty cache)
  returns and leaves all blocks outside the log either as they were before the transaction or all
  as they are after it.
\<close>

theorem commit_crash_atomic:
  fixes s :: "'a log_state_scheme"
  assumes "quiet p s" "log_ok s" "distinct (logged s)" "dirty s = set (logged s)" "0 < lgn s"
    and "length (bview s (lstart s)) = BSIZE" "hdr_n (memdisk s (lstart s)) = 0"
  shows "\<exists>s'. commit s = Ret () s' \<and> quiet p s' \<and> lgn s' = 0 \<and> dirty s' = {} \<and>
     (\<forall>m. home s m \<longrightarrow> memdisk s' m = bview s m \<and> bview s' m = bview s m) \<and>
     (\<forall>ws q (r :: 'a log_state_scheme). prefix (dtrace s @ ws) (dtrace s') \<and> quiet q r \<and> dirty r = {} \<and> log_geom r \<and> lstart r = lstart s \<and>
        lg_size (lg r) = lg_size (lg s) \<and> disksize r = disksize s \<and> memdisk r = apply_writes ws (memdisk s) \<longrightarrow>
        (\<exists>r'. recover_from_log r = Ret () r' \<and> old_or_new s (memdisk r')))"
proof -
  obtain s' where s': "commit s = Ret () s'" "quiet p s'" "lg s' = set_lh_n 0 (lg s)" "dirty s' = {}"
    "bview s' = apply_writes (commit_trace s) (bview s)" "memdisk s' = apply_writes (commit_trace s) (memdisk s)"
    "dtrace s' = dtrace s @ commit_trace s" using commit_spec [OF assms(1-5)] by blast
  have crash: "\<exists>r'. recover_from_log r = Ret () r' \<and> old_or_new s (memdisk r')"
    if ws: "prefix (dtrace s @ ws) (dtrace s')" and r: "quiet q r" "dirty r = {}" "log_geom r" "lstart r = lstart s"
      "lg_size (lg r) = lg_size (lg s)" "disksize r = disksize s" "memdisk r = apply_writes ws (memdisk s)" for ws q and r :: "'a log_state_scheme"
  proof -
    have pre: "prefix ws (commit_trace s)" using ws s'(7) by simp
    have "0 \<le> lg_start (lg s)" "0 \<le> lg_start (lg r)" using assms(2) r(3) by (auto simp: log_ok_def log_geom_def)
    then have st: "lg_start (lg r) = lg_start (lg s)" using r(4) by simp
    have hm: "home r m = home s m" for m using r(5,6) st by (simp add: home_def)
    have "log_on_disk r (memdisk r)"
      using crash_log_on_disk [OF assms(1,2,4-7) pre] r(5,7) st hm by (simp add: log_on_disk_def)
    from recover_spec [OF r(1,3,2) this] obtain r' where r': "recover_from_log r = Ret () r'"
      "memdisk r' = apply_writes (recovery_trace (lstart r) (memdisk r)) (memdisk r)" by blast
    have "memdisk r' m = recovered (lstart s) (apply_writes ws (memdisk s)) m" if "home s m" for m
      using recovery_trace_home(1) [OF r(3) \<open>log_on_disk r (memdisk r)\<close>, of m] that hm r'(2) r(4,7) by simp
    with commit_crash [OF assms(1,2,4-7) pre] r'(1) show ?thesis by (auto simp: old_or_new_def)
  qed
  have h: "memdisk s' m = bview s m \<and> bview s' m = bview s m" if "home s m" for m
    using committed_disk [OF assms(1,2,4,5) that] s'(5,6) by simp
  have "lgn s' = 0" using s'(3) by (simp add: set_lh_n_def)
  with s'(1,2,4) h crash show ?thesis by blast
qed

lemma log_example_trans: "trans_ok 0 (upd_lg (\<lambda>l. l\<lparr>lg_outstanding := 1\<rparr>) (log_example m))"
    "room 9 (upd_lg (\<lambda>l. l\<lparr>lg_outstanding := 1\<rparr>) (log_example m))"
    "n < 2 \<or> 32 \<le> n \<and> n < 1000 \<Longrightarrow> home (upd_lg (\<lambda>l. l\<lparr>lg_outstanding := 1\<rparr>) (log_example m)) n"
proof -
  let ?s = "upd_lg (\<lambda>l. l\<lparr>lg_outstanding := 1\<rparr>) (log_example m)"
  have "same_log (lg (log_example m)) (lg ?s)" by (simp add: same_log_def)
  note S = same_log_simps [OF this upd_lg_simps(6)]
  show "trans_ok 0 ?s" using S log_example_simps [of m] by (simp add: trans_ok_def log0_def)
  show "room 9 ?s" using log_example_simps [of m] by (simp add: room_def log0_def)
  show "home ?s n" if "n < 2 \<or> 32 \<le> n \<and> n < 1000"
    using that S(1) log_example_simps [of m] by (auto simp: home_def log0_def)
qed

theorem commit_crash_atomic_witness:
  "\<exists>(s :: unit log_state_scheme) s'. commit s = Ret () s' \<and> memdisk s 100 = replicate BSIZE 0 \<and> memdisk s' 100 = replicate BSIZE 7"
proof -
  let ?s = "upd_lg (\<lambda>l. l\<lparr>lg_outstanding := 1\<rparr>) (log_example ())"
  note E = log_example_simps [of "()"]
  have hm: "home ?s (unat (100 :: uint32))" "home ?s 100" using log_example_trans(3) [of _ "()"] by simp_all
  have nh: "unat (100 :: uint32) \<notin> held_blocks ?s" using E by simp
  obtain s where t: "tx_rel 0 ?s s" and v: "bview s = (bview ?s)(unat (100 :: uint32) := replicate BSIZE 7)"
    and d: "dirty s = {100}"
  proof -
    have "(0 :: nat) < 9" by simp
    from tx_update [OF log_example_trans(1,2) this hm(1) nh] obtain i s2 s3 where "tx_rel 0 ?s s3"
      "bview s3 = (bview ?s)(unat (100 :: uint32) := replicate BSIZE 7)" "dirty s3 = insert (unat (100 :: uint32)) (dirty ?s)"
      by blast
    then show thesis using E by (intro that) simp_all
  qed
  note T = tx_relD [OF t] and K = trans_okD [OF tx_relD(1) [OF t]]
  have mem: "memdisk s = (\<lambda>_. replicate BSIZE 0)" "lstart s = 2" using t E by (simp_all add: tx_rel_def log0_def)
  have 1: "quiet 0 s" using K(1) T(3) E by (simp add: quiet_def)
  have "card (dirty s) = 1" using d by simp
  then have 2: "distinct (logged s)" "0 < lgn s" using T(1) K(4) by (simp_all add: trans_ok_def)
  have 3: "length (bview s (lstart s)) = BSIZE" "hdr_n (memdisk s (lstart s)) = 0"
    using v E mem by (simp_all add: hdr_n_def get32_def get_bytes_def le32_def BSIZE_def)
  from commit_crash_atomic [OF 1 K(2) 2(1) K(3) 2(2) 3] obtain s' where
    "commit s = Ret () s'" "\<forall>m. home s m \<longrightarrow> memdisk s' m = bview s m \<and> bview s' m = bview s m" by blast
  moreover have "home s 100" using hm(2) T(4) by simp
  ultimately show ?thesis using v mem by (intro exI [of _ s] exI [of _ s']) simp
qed

text \<open>
  C28: recovery may itself be interrupted any number of times. recover_from_log, run over an empty
  cache on a disk with a well-formed log, returns, applies the logged blocks to their home
  locations and empties the log; and after a crash at any point of its own writes a further
  recovery gives the same blocks outside the log.
\<close>

theorem recovery_idempotent:
  assumes "quiet p s" "log_geom s" "dirty s = {}" "log_on_disk s (memdisk s)"
  shows "\<exists>s'. recover_from_log s = Ret () s' \<and> quiet p s' \<and> log_ok s' \<and> lgn s' = 0 \<and>
     hdr_n (memdisk s' (lstart s)) = 0 \<and> (\<forall>m. home s m \<longrightarrow> memdisk s' m = recovered (lstart s) (memdisk s) m) \<and>
     (\<forall>ws m. prefix (dtrace s @ ws) (dtrace s') \<and> home s m \<longrightarrow>
        recovered (lstart s) (apply_writes ws (memdisk s)) m = memdisk s' m)"
proof -
  obtain s' where s': "recover_from_log s = Ret () s'" "quiet p s'" "log_ok s'" "lgn s' = 0"
    "memdisk s' = apply_writes (recovery_trace (lstart s) (memdisk s)) (memdisk s)"
    "dtrace s' = dtrace s @ recovery_trace (lstart s) (memdisk s)" using recover_spec [OF assms] by blast
  have h: "memdisk s' m = recovered (lstart s) (memdisk s) m" if "home s m" for m
    using recovery_trace_home(1) [OF assms(2,4) that] s'(5) by simp
  have "recovered (lstart s) (apply_writes ws (memdisk s)) m = memdisk s' m"
    if "prefix (dtrace s @ ws) (dtrace s')" "home s m" for ws m
    using recovered_again [OF assms(2,4) _ that(2), of ws] that(1) s'(6) h [OF that(2)] by simp
  with s' h recovery_trace_home(2) [OF assms(2,4)] show ?thesis by (intro exI [of _ s']) simp
qed

definition crash_disk :: "nat \<Rightarrow> block" where
  "crash_disk = (\<lambda>_. replicate BSIZE 0)(2 := head_bytes 1 [100] (replicate BSIZE 0), 3 := replicate BSIZE 9)"

lemma crash_disk_hdr: "hdr_n (crash_disk 2) = 1" "hdr_block (crash_disk 2) 0 = 100" "length (crash_disk 2) = BSIZE"
  using hdr_head_bytes [where b = "replicate BSIZE 0" and n = 1 and bl = "[100]"]
  by (simp_all add: crash_disk_def LOGSIZE_def MAXOPBLOCKS_def)

theorem recovery_idempotent_witness:
  "\<exists>s'. recover_from_log ((log_example ())\<lparr>memdisk := crash_disk\<rparr>) = Ret () s' \<and> memdisk s' 100 = replicate BSIZE 9"
proof -
  let ?e = "log_example ()" let ?s = "?e\<lparr>memdisk := crash_disk\<rparr>"
  note E = log_example_simps [of "()"]
  have nc: "\<not> cached ?e n i" for n i by (simp add: log_example_def bio_example_ok)
  have c: "cached ?s n i = cached ?e n i" "blocked ?s i = blocked ?e i" for n i by (simp_all add: cached_def blocked_def)
  have "buf_ok crash_disk (blocked ?e i) (buf_at ?e i)" if "i < NBUF" for i
    using that nc bio_invD(2) [OF E(9) that] by (auto simp: buf_ok_def cached_def)
  then have inv: "bio_inv ?s" using E(9) nc c by (simp add: bio_inv_def)
  have ip: "in_proc 0 ?s" using E(8) in_proc_cong [of ?s ?e 0] by simp
  have D: "dirty ?s = {}" "held_blocks ?s = {}" using nc c by (auto simp: dirty_def held_blocks_def)
  have q: "quiet 0 ?s" using inv ip D by (simp add: quiet_def)
  have g: "log_geom ?s" "home ?s 100" "lstart ?s = 2" "lg_size (lg ?s) = 30"
    using E(1,3) by (simp_all add: log_geom_def home_def log0_def LOGSIZE_def MAXOPBLOCKS_def)
  have l: "log_on_disk ?s (memdisk ?s)" using crash_disk_hdr g by (simp add: log_on_disk_def)
  from recovery_idempotent [OF q g(1) D(1) l] obtain s' where
    "recover_from_log ?s = Ret () s'" "\<forall>m. home ?s m \<longrightarrow> memdisk s' m = recovered (lstart ?s) (memdisk ?s) m" by blast
  moreover have "recovered 2 crash_disk 100 = replicate BSIZE 9"
  proof (rule replay_at [where t = 0])
    show "0 < nat (hdr_n (crash_disk 2))" "unat (hdr_block (crash_disk 2) 0) = 100" by (simp_all add: crash_disk_hdr)
    show "crash_disk (2 + 1 + u) = replicate BSIZE 9" if "u < nat (hdr_n (crash_disk 2))" for u
      using that by (simp add: crash_disk_hdr) (simp add: crash_disk_def)
  qed
  ultimately show ?thesis using g by (intro exI [of _ s']) simp
qed



end
