(* ===== verification/Fs.thy ===== *)
theory Fs
  imports Log
begin

text \<open>
  The file system (\<open>fs.c\<close>): block allocation, the inode cache, the contents of inodes,
  directories and path names. A pointer to an in-memory inode is an index into \<open>icache.inode\<close>,
  the null pointer is \<open>None\<close>. Byte arrays that the code passes by pointer are lists of bytes:
  \<open>readi\<close> gives the bytes it copies to \<open>dst\<close>, \<open>writei\<close> takes those at \<open>src\<close>. A C string is
  the list of its bytes up to and including the terminating zero. The device table \<open>devsw\<close> is
  the argument \<open>dread\<close> or \<open>dwrite\<close>, a null entry being \<open>None\<close>.
\<close>

definition T_DIR :: ushort where "T_DIR = 1"
definition T_FILE :: ushort where "T_FILE = 2"
definition T_DEV :: ushort where "T_DEV = 3"

record inode =
  i_dev :: uint32
  i_inum :: uint32
  i_ref :: int
  i_valid :: bool
  i_type :: ushort
  i_major :: ushort
  i_minor :: ushort
  i_nlink :: ushort
  i_size :: uint32
  i_addrs :: "uint32 list"

record fs_state = log_state +
  icache :: "inode list"
  sb :: superblock

abbreviation ino :: "'a fs_state_scheme \<Rightarrow> nat \<Rightarrow> inode" where
  "ino s ip \<equiv> icache s ! ip"

definition upd_ino :: "nat \<Rightarrow> (inode \<Rightarrow> inode) \<Rightarrow> 'a fs_state_scheme \<Rightarrow> 'a fs_state_scheme" where
  "upd_ino ip f s = s\<lparr>icache := (icache s)[ip := f (icache s ! ip)]\<rparr>"

type_synonym 's devread = "int \<Rightarrow> (nat \<Rightarrow> uint32 \<Rightarrow> 's \<Rightarrow> (int \<times> uchar list, 's) outcome) option"
type_synonym 's devwrite = "int \<Rightarrow> (nat \<Rightarrow> uchar list \<Rightarrow> 's \<Rightarrow> (int, 's) outcome) option"

section \<open>Blocks\<close>

definition bzero :: "uint32 \<Rightarrow> uint32 \<Rightarrow> 'a fs_state_scheme \<Rightarrow> (unit, 'a fs_state_scheme) outcome" where
  "bzero dev bno s =
     kbind (bread dev bno s) (\<lambda>bp s.
     let s = upd_buf bp (\<lambda>b. b\<lparr>b_data := replicate BSIZE 0\<rparr>) s
     in kbind (log_write bp s) (\<lambda>_ s. brelse bp s))"

text \<open>The bit of block \<open>bi\<close> in a bitmap block, and the block with the bit set or cleared.\<close>

definition bmask :: "nat \<Rightarrow> uchar" where
  "bmask bi = push_bit (bi mod 8) 1"

definition bit_free :: "block \<Rightarrow> nat \<Rightarrow> bool" where
  "bit_free b bi \<longleftrightarrow> (b ! (bi div 8)) AND bmask bi = 0"

definition bit_set :: "nat \<Rightarrow> block \<Rightarrow> block" where
  "bit_set bi b = b[bi div 8 := (b ! (bi div 8)) OR bmask bi]"

definition bit_clear :: "nat \<Rightarrow> block \<Rightarrow> block" where
  "bit_clear bi b = b[bi div 8 := (b ! (bi div 8)) AND NOT (bmask bi)]"

text \<open>The loop over the bitmap blocks; each element of the list is the first block its bitmap block covers.\<close>

fun balloc_from :: "uint32 \<Rightarrow> nat list \<Rightarrow> 'a fs_state_scheme \<Rightarrow> (uint32, 'a fs_state_scheme) outcome" where
  "balloc_from dev [] s = Panic ''balloc: out of blocks''"
| "balloc_from dev (b # bs) s =
     kbind (bread dev (BBLOCK (of_nat b) (sb s)) s) (\<lambda>bp s.
     case find (bit_free (b_data (buf_at s bp))) [0..<min BPB (unat (sb_size (sb s)) - b)] of
       Some bi \<Rightarrow>
         let s = upd_buf bp (\<lambda>r. r\<lparr>b_data := bit_set bi (b_data r)\<rparr>) s
         in kbind (log_write bp s) (\<lambda>_ s.
            kbind (brelse bp s) (\<lambda>_ s.
            kbind (bzero dev (of_nat (b + bi)) s) (\<lambda>_ s. Ret (of_nat (b + bi)) s)))
     | None \<Rightarrow> kbind (brelse bp s) (\<lambda>_ s. balloc_from dev bs s))"

definition bitmap_starts :: "superblock \<Rightarrow> nat list" where
  "bitmap_starts b = map (\<lambda>k. k * BPB) [0..<(unat (sb_size b) + BPB - 1) div BPB]"

definition balloc :: "uint32 \<Rightarrow> 'a fs_state_scheme \<Rightarrow> (uint32, 'a fs_state_scheme) outcome" where
  "balloc dev s = balloc_from dev (bitmap_starts (sb s)) s"

definition bfree :: "uint32 \<Rightarrow> uint32 \<Rightarrow> 'a fs_state_scheme \<Rightarrow> (unit, 'a fs_state_scheme) outcome" where
  "bfree dev b s =
     kbind (bread dev (BBLOCK b (sb s)) s) (\<lambda>bp s.
     let bi = unat b mod BPB
     in if bit_free (b_data (buf_at s bp)) bi then Panic ''freeing free block''
        else
          let s = upd_buf bp (\<lambda>r. r\<lparr>b_data := bit_clear bi (b_data r)\<rparr>) s
          in kbind (log_write bp s) (\<lambda>_ s. brelse bp s))"

section \<open>Inodes\<close>

definition iinit :: "uint32 \<Rightarrow> 'a fs_state_scheme \<Rightarrow> (unit, 'a fs_state_scheme) outcome" where
  "iinit dev s =
     (let s = fold (\<lambda>i. initsleeplock (SlInode i)) [0..<NINODE] s
      in kbind (readsb dev s) (\<lambda>b s. Ret () (s\<lparr>sb := b\<rparr>)))"

text \<open>The scan of \<open>iget\<close>: the entry with the inode, and the first empty entry.\<close>

definition iget :: "uint32 \<Rightarrow> uint32 \<Rightarrow> 'a fs_state_scheme \<Rightarrow> (nat, 'a fs_state_scheme) outcome" where
  "iget dev inum s =
     kbind (acquire LkIcache s) (\<lambda>_ s.
     case find (\<lambda>i. 0 < i_ref (ino s i) \<and> i_dev (ino s i) = dev \<and> i_inum (ino s i) = inum) [0..<NINODE] of
       Some ip \<Rightarrow>
         let s = upd_ino ip (\<lambda>r. r\<lparr>i_ref := i_ref r + 1\<rparr>) s
         in kbind (release LkIcache s) (\<lambda>_ s. Ret ip s)
     | None \<Rightarrow>
         (case find (\<lambda>i. i_ref (ino s i) = 0) [0..<NINODE] of
            None \<Rightarrow> Panic ''iget: no inodes''
          | Some ip \<Rightarrow>
              let s = upd_ino ip (\<lambda>r. r\<lparr>i_dev := dev, i_inum := inum, i_ref := 1, i_valid := False\<rparr>) s
              in kbind (release LkIcache s) (\<lambda>_ s. Ret ip s)))"

text \<open>One inode number of the loop of \<open>ialloc\<close> after the other.\<close>

fun ialloc_from :: "uint32 \<Rightarrow> ushort \<Rightarrow> nat list \<Rightarrow> 'a fs_state_scheme \<Rightarrow> (nat, 'a fs_state_scheme) outcome" where
  "ialloc_from dev ty [] s = Panic ''ialloc: no inodes''"
| "ialloc_from dev ty (inum # is) s =
     kbind (bread dev (IBLOCK (of_nat inum) (sb s)) s) (\<lambda>bp s.
     let off = sizeof_dinode * (inum mod IPB)
     in if get16 off (b_data (buf_at s bp)) = 0 then
          let s = upd_buf bp (\<lambda>r. r\<lparr>b_data := put_bytes off (replicate sizeof_dinode 0) (b_data r)\<rparr>) s;
              s = upd_buf bp (\<lambda>r. r\<lparr>b_data := put16 off ty (b_data r)\<rparr>) s
          in kbind (log_write bp s) (\<lambda>_ s.
             kbind (brelse bp s) (\<lambda>_ s. iget dev (of_nat inum) s))
        else kbind (brelse bp s) (\<lambda>_ s. ialloc_from dev ty is s))"

definition ialloc :: "uint32 \<Rightarrow> ushort \<Rightarrow> 'a fs_state_scheme \<Rightarrow> (nat, 'a fs_state_scheme) outcome" where
  "ialloc dev ty s = ialloc_from dev ty [1..<unat (sb_ninodes (sb s))] s"

definition dinode_of :: "inode \<Rightarrow> dinode" where
  "dinode_of i = \<lparr>di_type = i_type i, di_major = i_major i, di_minor = i_minor i, di_nlink = i_nlink i,
     di_size = i_size i, di_addrs = i_addrs i\<rparr>"

definition iupdate :: "nat \<Rightarrow> 'a fs_state_scheme \<Rightarrow> (unit, 'a fs_state_scheme) outcome" where
  "iupdate ip s =
     kbind (bread (i_dev (ino s ip)) (IBLOCK (i_inum (ino s ip)) (sb s)) s) (\<lambda>bp s.
     let k = unat (i_inum (ino s ip)) mod IPB;
         s = upd_buf bp (\<lambda>r. r\<lparr>b_data := put_dinode k (dinode_of (ino s ip)) (b_data r)\<rparr>) s
     in kbind (log_write bp s) (\<lambda>_ s. brelse bp s))"

definition idup :: "nat \<Rightarrow> 'a fs_state_scheme \<Rightarrow> (nat, 'a fs_state_scheme) outcome" where
  "idup ip s =
     kbind (acquire LkIcache s) (\<lambda>_ s.
     let s = upd_ino ip (\<lambda>r. r\<lparr>i_ref := i_ref r + 1\<rparr>) s
     in kbind (release LkIcache s) (\<lambda>_ s. Ret ip s))"

definition load_inode :: "dinode \<Rightarrow> inode \<Rightarrow> inode" where
  "load_inode d i = i\<lparr>i_type := di_type d, i_major := di_major d, i_minor := di_minor d, i_nlink := di_nlink d,
     i_size := di_size d, i_addrs := di_addrs d\<rparr>"

definition ilock :: "nat option \<Rightarrow> 'a fs_state_scheme \<Rightarrow> (unit, 'a fs_state_scheme) outcome" where
  "ilock ipo s =
     (case ipo of
        None \<Rightarrow> Panic ''ilock''
      | Some ip \<Rightarrow>
          if i_ref (ino s ip) < 1 then Panic ''ilock''
          else
            kbind (acquiresleep (SlInode ip) s) (\<lambda>_ s.
            if i_valid (ino s ip) then Ret () s
            else
              kbind (bread (i_dev (ino s ip)) (IBLOCK (i_inum (ino s ip)) (sb s)) s) (\<lambda>bp s.
              let k = unat (i_inum (ino s ip)) mod IPB;
                  s = upd_ino ip (load_inode (get_dinode k (b_data (buf_at s bp)))) s
              in kbind (brelse bp s) (\<lambda>_ s.
                 let s = upd_ino ip (\<lambda>r. r\<lparr>i_valid := True\<rparr>) s
                 in if i_type (ino s ip) = 0 then Panic ''ilock: no type'' else Ret () s))))"

definition iunlock :: "nat option \<Rightarrow> 'a fs_state_scheme \<Rightarrow> (unit, 'a fs_state_scheme) outcome" where
  "iunlock ipo s =
     (case ipo of
        None \<Rightarrow> Panic ''iunlock''
      | Some ip \<Rightarrow>
          kbind (holdingsleep (SlInode ip) s) (\<lambda>h s.
          if \<not> h \<or> i_ref (ino s ip) < 1 then Panic ''iunlock''
          else releasesleep (SlInode ip) s))"

section \<open>Contents of inodes\<close>

definition bmap :: "nat \<Rightarrow> uint32 \<Rightarrow> 'a fs_state_scheme \<Rightarrow> (uint32, 'a fs_state_scheme) outcome" where
  "bmap ip bn s =
     (if unat bn < NDIRECT then
        let addr = i_addrs (ino s ip) ! unat bn
        in if addr = 0 then
             kbind (balloc (i_dev (ino s ip)) s) (\<lambda>addr s.
             Ret addr (upd_ino ip (\<lambda>r. r\<lparr>i_addrs := (i_addrs r)[unat bn := addr]\<rparr>) s))
           else Ret addr s
      else
        let bn = bn - of_nat NDIRECT
        in if unat bn < NINDIRECT then
             kbind (let addr = i_addrs (ino s ip) ! NDIRECT
                    in if addr = 0 then
                         kbind (balloc (i_dev (ino s ip)) s) (\<lambda>addr s.
                         Ret addr (upd_ino ip (\<lambda>r. r\<lparr>i_addrs := (i_addrs r)[NDIRECT := addr]\<rparr>) s))
                       else Ret addr s) (\<lambda>addr s.
             kbind (bread (i_dev (ino s ip)) addr s) (\<lambda>bp s.
             kbind (let addr = get32 (4 * unat bn) (b_data (buf_at s bp))
                    in if addr = 0 then
                         kbind (balloc (i_dev (ino s ip)) s) (\<lambda>addr s.
                         let s = upd_buf bp (\<lambda>r. r\<lparr>b_data := put32 (4 * unat bn) addr (b_data r)\<rparr>) s
                         in kbind (log_write bp s) (\<lambda>_ s. Ret addr s))
                       else Ret addr s) (\<lambda>addr s.
             kbind (brelse bp s) (\<lambda>_ s. Ret addr s))))
           else Panic ''bmap: out of range'')"

definition itrunc_direct :: "nat \<Rightarrow> nat \<Rightarrow> 'a fs_state_scheme \<Rightarrow> (unit, 'a fs_state_scheme) outcome" where
  "itrunc_direct ip i s =
     (if i_addrs (ino s ip) ! i \<noteq> 0 then
        kbind (bfree (i_dev (ino s ip)) (i_addrs (ino s ip) ! i) s) (\<lambda>_ s.
        Ret () (upd_ino ip (\<lambda>r. r\<lparr>i_addrs := (i_addrs r)[i := 0]\<rparr>) s))
      else Ret () s)"

definition itrunc :: "nat \<Rightarrow> 'a fs_state_scheme \<Rightarrow> (unit, 'a fs_state_scheme) outcome" where
  "itrunc ip s =
     kbind (kfor [0..<NDIRECT] (itrunc_direct ip) s) (\<lambda>_ s.
     kbind (if i_addrs (ino s ip) ! NDIRECT \<noteq> 0 then
              kbind (bread (i_dev (ino s ip)) (i_addrs (ino s ip) ! NDIRECT) s) (\<lambda>bp s.
              kbind (kfor [0..<NINDIRECT] (\<lambda>j s.
                       let a = get32 (4 * j) (b_data (buf_at s bp))
                       in if a \<noteq> 0 then bfree (i_dev (ino s ip)) a s else Ret () s) s) (\<lambda>_ s.
              kbind (brelse bp s) (\<lambda>_ s.
              kbind (bfree (i_dev (ino s ip)) (i_addrs (ino s ip) ! NDIRECT) s) (\<lambda>_ s.
              Ret () (upd_ino ip (\<lambda>r. r\<lparr>i_addrs := (i_addrs r)[NDIRECT := 0]\<rparr>) s)))))
            else Ret () s) (\<lambda>_ s.
     iupdate ip (upd_ino ip (\<lambda>r. r\<lparr>i_size := 0\<rparr>) s)))"

definition iput :: "nat \<Rightarrow> 'a fs_state_scheme \<Rightarrow> (unit, 'a fs_state_scheme) outcome" where
  "iput ip s =
     kbind (acquiresleep (SlInode ip) s) (\<lambda>_ s.
     kbind (if i_valid (ino s ip) \<and> i_nlink (ino s ip) = 0 then
              kbind (acquire LkIcache s) (\<lambda>_ s.
              let r = i_ref (ino s ip)
              in kbind (release LkIcache s) (\<lambda>_ s.
                 if r = 1 then
                   kbind (itrunc ip s) (\<lambda>_ s.
                   kbind (iupdate ip (upd_ino ip (\<lambda>r. r\<lparr>i_type := 0\<rparr>) s)) (\<lambda>_ s.
                   Ret () (upd_ino ip (\<lambda>r. r\<lparr>i_valid := False\<rparr>) s)))
                 else Ret () s))
            else Ret () s) (\<lambda>_ s.
     kbind (releasesleep (SlInode ip) s) (\<lambda>_ s.
     kbind (acquire LkIcache s) (\<lambda>_ s.
     release LkIcache (upd_ino ip (\<lambda>r. r\<lparr>i_ref := i_ref r - 1\<rparr>) s)))))"

definition iunlockput :: "nat \<Rightarrow> 'a fs_state_scheme \<Rightarrow> (unit, 'a fs_state_scheme) outcome" where
  "iunlockput ip s = kbind (iunlock (Some ip) s) (\<lambda>_ s. iput ip s)"

record fstat =
  st_type :: ushort
  st_dev :: uint32
  st_ino :: uint32
  st_nlink :: ushort
  st_size :: uint32

definition stati :: "nat \<Rightarrow> 'a fs_state_scheme \<Rightarrow> fstat" where
  "stati ip s = (let i = ino s ip in
     \<lparr>st_type = i_type i, st_dev = i_dev i, st_ino = i_inum i, st_nlink = i_nlink i, st_size = i_size i\<rparr>)"

text \<open>The bytes of the current block a step of the copy loops handles.\<close>

definition chunk :: "uint32 \<Rightarrow> nat \<Rightarrow> nat" where
  "chunk off k = min k (BSIZE - unat off mod BSIZE)"

lemma chunk_less: "k \<noteq> 0 \<Longrightarrow> k - chunk off k < k"
  by (simp add: chunk_def BSIZE_def)

function readi_loop :: "nat \<Rightarrow> uint32 \<Rightarrow> nat \<Rightarrow> 'a fs_state_scheme \<Rightarrow> (uchar list, 'a fs_state_scheme) outcome" where
  "readi_loop ip off k s =
     (if k = 0 then Ret [] s
      else
        kbind (bmap ip (off div of_nat BSIZE) s) (\<lambda>addr s.
        kbind (bread (i_dev (ino s ip)) addr s) (\<lambda>bp s.
        let m = chunk off k;
            xs = get_bytes (unat off mod BSIZE) m (b_data (buf_at s bp))
        in kbind (brelse bp s) (\<lambda>_ s.
           kbind (readi_loop ip (off + of_nat m) (k - m) s) (\<lambda>ys s. Ret (xs @ ys) s)))))"
  by pat_completeness auto
termination
  by (relation "measure (\<lambda>(ip, off, k, s). k)") (simp_all add: chunk_less)

definition readi :: "'a fs_state_scheme devread \<Rightarrow> nat \<Rightarrow> uint32 \<Rightarrow> uint32 \<Rightarrow> 'a fs_state_scheme \<Rightarrow>
    (int \<times> uchar list, 'a fs_state_scheme) outcome" where
  "readi dread ip off n s =
     (if i_type (ino s ip) = T_DEV then
        let major = sint (i_major (ino s ip))
        in if major < 0 \<or> int NDEV \<le> major then Ret (-1, []) s
           else (case dread major of None \<Rightarrow> Ret (-1, []) s | Some f \<Rightarrow> f ip n s)
      else if i_size (ino s ip) < off \<or> off + n < off then Ret (-1, []) s
      else
        let n = (if i_size (ino s ip) < off + n then i_size (ino s ip) - off else n)
        in kbind (readi_loop ip off (unat n) s) (\<lambda>xs s. Ret (sint n, xs) s))"

function writei_loop :: "nat \<Rightarrow> uint32 \<Rightarrow> uchar list \<Rightarrow> 'a fs_state_scheme \<Rightarrow> (uint32, 'a fs_state_scheme) outcome" where
  "writei_loop ip off src s =
     (if src = [] then Ret off s
      else
        kbind (bmap ip (off div of_nat BSIZE) s) (\<lambda>addr s.
        kbind (bread (i_dev (ino s ip)) addr s) (\<lambda>bp s.
        let m = chunk off (length src);
            s = upd_buf bp (\<lambda>r. r\<lparr>b_data := put_bytes (unat off mod BSIZE) (take m src) (b_data r)\<rparr>) s
        in kbind (log_write bp s) (\<lambda>_ s.
           kbind (brelse bp s) (\<lambda>_ s.
           writei_loop ip (off + of_nat m) (drop m src) s)))))"
  by pat_completeness auto
termination
  by (relation "measure (\<lambda>(ip, off, src, s). length src)") (simp_all add: chunk_less)

definition writei :: "'a fs_state_scheme devwrite \<Rightarrow> nat \<Rightarrow> uchar list \<Rightarrow> uint32 \<Rightarrow> 'a fs_state_scheme \<Rightarrow>
    (int, 'a fs_state_scheme) outcome" where
  "writei dwrite ip src off s =
     (let n = of_nat (length src) :: uint32
      in if i_type (ino s ip) = T_DEV then
           let major = sint (i_major (ino s ip))
           in if major < 0 \<or> int NDEV \<le> major then Ret (-1) s
              else (case dwrite major of None \<Rightarrow> Ret (-1) s | Some f \<Rightarrow> f ip src s)
         else if i_size (ino s ip) < off \<or> off + n < off then Ret (-1) s
         else if of_nat (MAXFILE * BSIZE) < off + n then Ret (-1) s
         else
           kbind (writei_loop ip off src s) (\<lambda>off s.
           kbind (if 0 < n \<and> i_size (ino s ip) < off
                  then iupdate ip (upd_ino ip (\<lambda>r. r\<lparr>i_size := off\<rparr>) s)
                  else Ret () s) (\<lambda>_ s. Ret (sint n) s)))"

section \<open>An example\<close>

definition inode0 :: inode where
  "inode0 = \<lparr>i_dev = 0, i_inum = 0, i_ref = 0, i_valid = False, i_type = 0, i_major = 0, i_minor = 0, i_nlink = 0,
     i_size = 0, i_addrs = replicate 13 0\<rparr>"

text \<open>The layout \<open>mkfs\<close> writes: thirty log blocks from block 2, the inodes, the bitmap, the data.\<close>

definition sb0 :: superblock where
  "sb0 = \<lparr>sb_size = 1000, sb_nblocks = 941, sb_ninodes = 200, sb_nlog = 30, sb_logstart = 2, sb_inodestart = 32,
     sb_bmapstart = 58\<rparr>"

definition fs_example :: "'a \<Rightarrow> 'a fs_state_scheme" where
  "fs_example m = log_example \<lparr>icache = replicate NINODE inode0, sb = sb0, \<dots> = m\<rparr>"

lemma fs_example_simps:
  "icache (fs_example m) = replicate NINODE inode0" "sb (fs_example m) = sb0" "fs_state.more (fs_example m) = m"
proof -
  have "log_state.more (fs_example m) = \<lparr>icache = replicate NINODE inode0, sb = sb0, \<dots> = m\<rparr>"
    by (simp add: fs_example_def log_example_simps)
  then show "icache (fs_example m) = replicate NINODE inode0" "sb (fs_example m) = sb0" "fs_state.more (fs_example m) = m"
    by (cases "fs_example m" rule: fs_state.cases_scheme, simp)+
qed

section \<open>The free map\<close>

lemma bit_free_bit: "bit_free b i \<longleftrightarrow> \<not> bit (b ! (i div 8)) (i mod 8)"
  by (simp add: bit_free_def bmask_def push_bit_of_1 and_exp_eq_0_iff_not_bit)

lemma bit_set_free:
  assumes "length b = BSIZE" "i < BPB" "j < BPB"
  shows "bit_free (bit_set i b) j \<longleftrightarrow> bit_free b j \<and> j \<noteq> i"
proof (cases "j div 8 = i div 8")
  case True
  have "i div 8 < length b" using assms(1,2) by (simp add: BPB_def BSIZE_def less_mult_imp_div_less)
  moreover have "j mod 8 = i mod 8 \<longleftrightarrow> j = i" using True by (metis div_mod_decomp)
  moreover have "j mod 8 < 8" by simp
  ultimately show ?thesis
    using True by (auto simp: bit_free_bit bit_set_def bmask_def push_bit_of_1 bit_or_iff bit_exp_iff)
next
  case False
  then show ?thesis by (auto simp: bit_free_bit bit_set_def)
qed

lemma bit_clear_free:
  assumes "length b = BSIZE" "i < BPB" "j < BPB"
  shows "bit_free (bit_clear i b) j \<longleftrightarrow> bit_free b j \<or> j = i"
proof (cases "j div 8 = i div 8")
  case True
  have "i div 8 < length b" using assms(1,2) by (simp add: BPB_def BSIZE_def less_mult_imp_div_less)
  moreover have "j mod 8 = i mod 8 \<longleftrightarrow> j = i" using True by (metis div_mod_decomp)
  moreover have "j mod 8 < 8" by simp
  ultimately show ?thesis
    using True by (auto simp: bit_free_bit bit_clear_def bmask_def push_bit_of_1 bit_and_iff bit_not_iff bit_exp_iff)
next
  case False
  then show ?thesis by (auto simp: bit_free_bit bit_clear_def)
qed

text \<open>
  The number of blocks of the file system, the bitmap block that covers block \<open>n\<close>, and whether the
  current contents of the bitmap say that the block is free.
\<close>

definition fs_blocks :: "'a fs_state_scheme \<Rightarrow> nat" where
  "fs_blocks s = unat (sb_size (sb s))"

definition map_block :: "'a fs_state_scheme \<Rightarrow> nat \<Rightarrow> nat" where
  "map_block s n = unat (BBLOCK (of_nat n) (sb s))"

definition block_free :: "'a fs_state_scheme \<Rightarrow> nat \<Rightarrow> bool" where
  "block_free s n \<longleftrightarrow> bit_free (bview s (map_block s n)) (n mod BPB)"

text \<open>
  The bitmap lies outside the log and its blocks are not in use by the caller; a block that it
  shows as free lies outside the log, is not in use, and is no block of the bitmap.
\<close>

definition free_map_ok :: "'a fs_state_scheme \<Rightarrow> bool" where
  "free_map_ok s \<longleftrightarrow> (\<forall>n<fs_blocks s. home s (map_block s n) \<and> map_block s n \<notin> held_blocks s \<and>
     length (bview s (map_block s n)) = BSIZE \<and>
     (block_free s n \<longrightarrow> home s n \<and> n \<notin> held_blocks s \<and> (\<forall>k<fs_blocks s. map_block s k \<noteq> n)))"

lemma free_map_okD:
  assumes "free_map_ok s" "n < fs_blocks s"
  shows "home s (map_block s n)" "map_block s n \<notin> held_blocks s" "length (bview s (map_block s n)) = BSIZE"
    "block_free s n \<Longrightarrow> home s n" "block_free s n \<Longrightarrow> n \<notin> held_blocks s"
    "block_free s n \<Longrightarrow> k < fs_blocks s \<Longrightarrow> map_block s k \<noteq> n"
  using assms unfolding free_map_ok_def by blast+

lemma log_more_fs: "log_state.more t = log_state.more s \<Longrightarrow> sb t = sb s \<and> icache t = icache s"
  by (cases s rule: fs_state.cases_scheme, cases t rule: fs_state.cases_scheme, hypsubst) simp

lemma log_rel_sb: "log_rel p s t \<Longrightarrow> sb t = sb s"
  using log_more_fs [of t s] by (simp add: log_rel_def)

lemma map_block_eq:
  assumes "n < fs_blocks s"
  shows "map_block s n = unat (of_nat (n div BPB) + sb_bmapstart (sb s))"
proof -
  have n: "n < 2 ^ 32" using assms unsigned_less [where ?'a = nat, of "sb_size (sb s)"] by (simp add: fs_blocks_def)
  have "unat ((of_nat n :: uint32) div of_nat BPB) = n div BPB"
    using n by (simp add: unat_div unsigned_of_nat take_bit_eq_mod BPB_def BSIZE_def)
  then have "(of_nat n :: uint32) div of_nat BPB = of_nat (n div BPB)" by (metis of_nat_unat ucast_id)
  then show ?thesis by (simp add: map_block_def BBLOCK_def)
qed

lemma map_block_same: "n < fs_blocks s \<Longrightarrow> m < fs_blocks s \<Longrightarrow> n div BPB = m div BPB \<Longrightarrow> map_block s n = map_block s m"
  by (simp add: map_block_eq)

lemma map_block_inj:
  assumes "n < fs_blocks s" "m < fs_blocks s" "map_block s n = map_block s m"
  shows "n div BPB = m div BPB"
proof -
  have "of_nat (n div BPB) + sb_bmapstart (sb s) = of_nat (m div BPB) + sb_bmapstart (sb s)"
    using assms by (simp only: map_block_eq word_unat_eq_iff)
  then have "(of_nat (n div BPB) :: uint32) = of_nat (m div BPB)" by simp
  moreover have "x div BPB < 2 ^ 32" if "x < fs_blocks s" for x
    using that unsigned_less [where ?'a = nat, of "sb_size (sb s)"]
    by (simp add: fs_blocks_def) (meson div_le_dividend le_less_trans less_trans)
  then have "n div BPB < 2 ^ 32" "m div BPB < 2 ^ 32" using assms(1,2) by simp_all
  ultimately show ?thesis by (simp add: word_of_nat_eq_iff take_bit_nat_eq_self)
qed

lemma bzero_spec:
  assumes "trans_ok p s" "room k s" "0 < k" "home s (unat b)" "unat b \<notin> held_blocks s"
  shows "\<exists>t. bzero 1 b s = Ret () t \<and> tx_rel p s t \<and> bview t = (bview s)(unat b := replicate BSIZE 0) \<and> dirty t = insert (unat b) (dirty s)"
proof -
  obtain i s1 where r: "bread 1 b s = Ret i s1"
    "\<forall>d. \<exists>s2 s3. log_write i (upd_buf i (\<lambda>b. b\<lparr>b_data := d\<rparr>) s1) = Ret () s2 \<and> log_rel p s s2 \<and> brelse i s2 = Ret () s3 \<and>
        tx_rel p s s3 \<and> bview s3 = (bview s)(unat b := d) \<and> dirty s3 = insert (unat b) (dirty s)"
    using tx_update [OF assms] by blast
  from r(2) [THEN spec, of "replicate BSIZE 0"] r(1) show ?thesis by (auto simp: bzero_def)
qed


definition alloc_post :: "nat \<Rightarrow> 'a fs_state_scheme \<Rightarrow> nat \<Rightarrow> 'a fs_state_scheme \<Rightarrow> bool" where
  "alloc_post p s n t \<longleftrightarrow> tx_rel p s t \<and> dirty t = insert n (insert (map_block s n) (dirty s)) \<and>
     bview t = (bview s)(map_block s n := bit_set (n mod BPB) (bview s (map_block s n)), n := replicate BSIZE 0)"

definition same_map :: "nat \<Rightarrow> 'a fs_state_scheme \<Rightarrow> 'a fs_state_scheme \<Rightarrow> bool" where
  "same_map p s t \<longleftrightarrow> tx_rel p s t \<and> bview t = bview s \<and> dirty t = dirty s"

lemma same_mapD:
  assumes "same_map p s t"
  shows "map_block t = map_block s" "block_free t = block_free s" "fs_blocks t = fs_blocks s" "free_map_ok t = free_map_ok s"
    "room k t = room k s" "alloc_post p t n u \<Longrightarrow> alloc_post p s n u" "trans_ok p t" "held_blocks t = held_blocks s"
proof -
  have r: "tx_rel p s t" "bview t = bview s" "dirty t = dirty s" using assms by (simp_all add: same_map_def)
  note D = tx_relD [OF r(1)]
  have sb: "sb t = sb s" using log_rel_sb [OF D(2)] .
  show m: "map_block t = map_block s" "block_free t = block_free s" "fs_blocks t = fs_blocks s"
    using sb r(2) by (simp_all add: fun_eq_iff map_block_def block_free_def fs_blocks_def)
  show "free_map_ok t = free_map_ok s" unfolding free_map_ok_def m D(3,4) r(2) ..
  show "room k t = room k s" using D(3,5) r(3) by (simp add: room_def)
  show "alloc_post p t n u \<Longrightarrow> alloc_post p s n u" unfolding alloc_post_def m r(2,3) using tx_rel_trans [OF r(1)] by blast
  show "trans_ok p t" "held_blocks t = held_blocks s" using D(1,3) by simp_all
qed

lemma balloc_found:
  assumes "trans_ok p s" "room 2 s" "card (held_blocks s) \<le> 1" "free_map_ok s" "b + bi < fs_blocks s" "b mod BPB = 0" "bi < BPB"
    "find (bit_free (bview s (map_block s b))) [0..<min BPB (fs_blocks s - b)] = Some bi"
  shows "\<exists>t. balloc_from 1 (b # bs) s = Ret (of_nat (b + bi)) t \<and> alloc_post p s (b + bi) t"
proof -
  let ?n = "b + bi" let ?m = "map_block s b"
  have "b < fs_blocks s" using assms(5) by simp
  note D = free_map_okD [OF assms(4) this]
  obtain q where q: "b = BPB * q" using assms(6) by (auto simp: mod_eq_0_iff_dvd dvd_def)
  then have "?n mod BPB = bi" "?n div BPB = b div BPB" using assms(7) by simp_all
  then have n: "map_block s ?n = ?m" "?n mod BPB = bi" using map_block_same [of ?n s b] assms(5) by simp_all
  have fr: "block_free s ?n" using assms(8) n by (auto simp: block_free_def find_Some_iff)
  note N = free_map_okD(4,5,6) [OF assms(4,5) fr]
  have u: "unat (of_nat ?n :: uint32) = ?n"
    using assms(5) unsigned_less [where ?'a = nat, of "sb_size (sb s)"] by (simp add: fs_blocks_def unsigned_of_nat take_bit_nat_eq_self del: of_nat_add)
  let ?b = "BBLOCK (of_nat b) (sb s)" let ?d = "bit_set bi (bview s ?m)"
  have h: "home s (unat ?b)" "unat ?b \<notin> held_blocks s" using D(1,2) by (simp_all add: map_block_def)
  obtain i s1 s2 s3 where r: "bread 1 ?b s = Ret i s1" "bio_rel p s s1" "b_data (buf_at s1 i) = bview s ?m"
    "log_write i (upd_buf i (\<lambda>b. b\<lparr>b_data := ?d\<rparr>) s1) = Ret () s2" "brelse i s2 = Ret () s3"
    "tx_rel p s s3" "bview s3 = (bview s)(?m := ?d)" "dirty s3 = insert ?m (dirty s)"
    using tx_update [OF assms(1,2) _ h] by (fastforce simp: map_block_def)
  have "sb s1 = sb s" using log_rel_sb [OF bio_rel_log_rel [OF r(2)]] .
  moreover have "upd_buf i (\<lambda>r. r\<lparr>b_data := bit_set bi (b_data r)\<rparr>) s1 = upd_buf i (\<lambda>b. b\<lparr>b_data := ?d\<rparr>) s1"
    using r(3) by (simp add: upd_buf_def)
  ultimately have eq: "balloc_from 1 (b # bs) s = kbind (bzero 1 (of_nat ?n) s3) (\<lambda>_ s. Ret (of_nat ?n) s)"
    using r(1,3-5) assms(8) by (simp add: fs_blocks_def)
  have "room 1 s3" using room_update [OF _ r(6,8), of 1] assms(2,3) by (simp add: numeral_2_eq_2)
  moreover have "home s3 (unat (of_nat ?n :: uint32))" "unat (of_nat ?n :: uint32) \<notin> held_blocks s3"
    using N(1,2) tx_relD(3,4) [OF r(6)] unfolding u by simp_all
  ultimately obtain t where t: "bzero 1 (of_nat ?n) s3 = Ret () t" "tx_rel p s3 t" "bview t = (bview s3)(?n := replicate BSIZE 0)"
    "dirty t = insert ?n (dirty s3)" using bzero_spec [OF tx_relD(1) [OF r(6)], of 1 "of_nat ?n"] unfolding u by auto
  then have "alloc_post p s ?n t" using r(7,8) n tx_rel_trans [OF r(6) t(2)] by (simp add: alloc_post_def)
  with eq t(1) show ?thesis by simp
qed

lemma balloc_next:
  assumes "trans_ok p s" "room 2 s" "free_map_ok s" "b < fs_blocks s"
    "find (bit_free (bview s (map_block s b))) [0..<min BPB (fs_blocks s - b)] = None"
  shows "\<exists>t. balloc_from 1 (b # bs) s = balloc_from 1 bs t \<and> same_map p s t"
proof -
  note D = free_map_okD(1,2) [OF assms(3,4)]
  let ?b = "BBLOCK (of_nat b) (sb s)"
  have h: "unat ?b < disksize s" "unat ?b \<notin> held_blocks s" using D by (simp_all add: map_block_def home_def)
  obtain i s1 t where r: "bread 1 ?b s = Ret i s1" "bio_rel p s s1" "b_data (buf_at s1 i) = bview s (map_block s b)"
    "brelse i s1 = Ret () t" "tx_rel p s t" "bview t = bview s" "dirty t = dirty s"
    using tx_read [OF assms(1,2) h] by (auto simp: map_block_def)
  have "sb s1 = sb s" using log_rel_sb [OF bio_rel_log_rel [OF r(2)]] .
  then have "balloc_from 1 (b # bs) s = balloc_from 1 bs t" using r(1,3,4) assms(5) by (simp add: fs_blocks_def)
  with r(5-7) show ?thesis by (auto simp: same_map_def)
qed


lemma find_map_upt: "find P (map f xs) = map_option f (find (P o f) xs)"
  by (induction xs) auto

lemma find_join: "find P (xs @ ys) = (case find P xs of None \<Rightarrow> find P ys | Some x \<Rightarrow> Some x)"
  by (induction xs) auto

lemma find_in_block:
  assumes "b mod BPB = 0" "c \<le> BPB" "b + c \<le> fs_blocks s"
  shows "find (block_free s) [b..<b + c] = map_option ((+) b) (find (bit_free (bview s (map_block s b))) [0..<c])"
proof -
  obtain q where q: "b = BPB * q" using assms(1) by (auto simp: mod_eq_0_iff_dvd dvd_def)
  have "block_free s (b + i) = bit_free (bview s (map_block s b)) i" if "i < c" for i
  proof -
    have "(b + i) mod BPB = i" "(b + i) div BPB = b div BPB" using q that assms(2) by simp_all
    then show ?thesis using map_block_same [of "b + i" s b] that assms(3) by (simp add: block_free_def)
  qed
  then have "find (block_free s o (+) b) [0..<c] = find (bit_free (bview s (map_block s b))) [0..<c]"
    by (intro find_cong) auto
  moreover have "[b..<b + c] = map ((+) b) [0..<c]" by (rule nth_equalityI) simp_all
  ultimately show ?thesis by (simp add: find_map_upt)
qed

definition balloc_result :: "nat \<Rightarrow> 'a fs_state_scheme \<Rightarrow> nat \<Rightarrow> (uint32, 'a fs_state_scheme) outcome \<Rightarrow> bool" where
  "balloc_result p s a r \<longleftrightarrow> (case find (block_free s) [a..<fs_blocks s] of
      None \<Rightarrow> r = Panic ''balloc: out of blocks''
    | Some n \<Rightarrow> \<exists>t. r = Ret (of_nat n) t \<and> alloc_post p s n t)"

lemma balloc_loop:
  "trans_ok p s \<Longrightarrow> room 2 s \<Longrightarrow> card (held_blocks s) \<le> 1 \<Longrightarrow> free_map_ok s \<Longrightarrow>
     m = (fs_blocks s + BPB - 1) div BPB \<Longrightarrow> i + d = m \<Longrightarrow>
     balloc_result p s (i * BPB) (balloc_from 1 (map (\<lambda>k. k * BPB) [i..<m]) s)"
proof (induction d arbitrary: i s)
  case 0
  have "fs_blocks s \<le> m * BPB" using 0(5) by (simp add: BPB_def BSIZE_def)
  then show ?case using 0(6) by (simp add: balloc_result_def)
next
  case (Suc d)
  let ?b = "i * BPB" let ?c = "min BPB (fs_blocks s - i * BPB)"
  have lt: "i < m" and b: "?b < fs_blocks s" using Suc.prems(5,6) by (simp_all add: BPB_def BSIZE_def)
  have l: "map (\<lambda>k. k * BPB) [i..<m] = ?b # map (\<lambda>k. k * BPB) [Suc i..<m]" using lt by (simp add: upt_conv_Cons)
  have "[?b..<fs_blocks s] = [?b..<?b + ?c] @ [?b + ?c..<fs_blocks s]"
    using b upt_add_eq_append [of ?b "?b + ?c" "fs_blocks s - (?b + ?c)"] by simp
  moreover have "[?b + ?c..<fs_blocks s] = [Suc i * BPB..<fs_blocks s]" by (auto simp: min_def add.commute)
  ultimately have f: "find (block_free s) [?b..<fs_blocks s] =
      (case find (bit_free (bview s (map_block s ?b))) [0..<?c] of
         None \<Rightarrow> find (block_free s) [Suc i * BPB..<fs_blocks s] | Some k \<Rightarrow> Some (?b + k))"
    using find_in_block [of ?b ?c s] b by (simp add: find_join split: option.split)
  show ?case
  proof (cases "find (bit_free (bview s (map_block s ?b))) [0..<?c]")
    case None
    from balloc_next [OF Suc.prems(1,2,4) b None] obtain t where
      t: "balloc_from 1 (?b # map (\<lambda>k. k * BPB) [Suc i..<m]) s = balloc_from 1 (map (\<lambda>k. k * BPB) [Suc i..<m]) t" "same_map p s t" by blast
    note M = same_mapD [OF t(2)]
    have "balloc_result p t (Suc i * BPB) (balloc_from 1 (map (\<lambda>k. k * BPB) [Suc i..<m]) t)"
      using Suc.prems M by (intro Suc.IH) simp_all
    then show ?thesis using M(6) unfolding balloc_result_def f None l t(1) M(2,3) by (auto split: option.splits)
  next
    case (Some k)
    then have "k < ?c" by (auto simp: find_Some_iff)
    then have k: "?b + k < fs_blocks s" "?b mod BPB = 0" "k < BPB" by (auto simp: less_diff_conv add.commute)
    from balloc_found [OF Suc.prems(1-4) k Some, of "map (\<lambda>k. k * BPB) [Suc i..<m]"]
    show ?thesis unfolding balloc_result_def f l Some option.case .
  qed
qed


text \<open>The set of free blocks, and how it changes with one bit of the bitmap.\<close>

definition free_blocks :: "'a fs_state_scheme \<Rightarrow> nat set" where
  "free_blocks s = {n. n < fs_blocks s \<and> block_free s n}"

lemma free_after:
  assumes "tx_rel p s t" "n < fs_blocks s" "k < fs_blocks s"
    and "bview t (map_block s k) = (if map_block s k = map_block s n then d else bview s (map_block s k))"
    and "\<And>j. j < BPB \<Longrightarrow> bit_free d j = (if j = n mod BPB then v else bit_free (bview s (map_block s n)) j)"
  shows "block_free t k = (if k = n then v else block_free s k)"
proof -
  have "sb t = sb s" using log_rel_sb tx_relD(2) [OF assms(1)] by blast
  then have bt: "block_free t k = bit_free (if map_block s k = map_block s n then d else bview s (map_block s k)) (k mod BPB)"
    using assms(4) by (simp add: block_free_def map_block_def)
  show ?thesis
  proof (cases "k div BPB = n div BPB")
    case True
    then have "map_block s k = map_block s n" "k mod BPB = n mod BPB \<longleftrightarrow> k = n"
      using map_block_same [OF assms(3,2)] by (simp, metis div_mod_decomp True)
    then show ?thesis using bt assms(5) [of "k mod BPB"] by (simp add: block_free_def BPB_def BSIZE_def)
  next
    case False
    then have "map_block s k \<noteq> map_block s n" "k \<noteq> n" using map_block_inj [OF assms(3,2)] by auto
    then show ?thesis using bt by (simp add: block_free_def)
  qed
qed

lemma bfree_spec:
  assumes "trans_ok p s" "room 1 s" "free_map_ok s" "unat b < fs_blocks s"
  shows "if block_free s (unat b) then bfree 1 b s = Panic ''freeing free block''
     else \<exists>t. bfree 1 b s = Ret () t \<and> tx_rel p s t \<and> dirty t = insert (map_block s (unat b)) (dirty s) \<and>
       bview t = (bview s)(map_block s (unat b) := bit_clear (unat b mod BPB) (bview s (map_block s (unat b))))"
proof -
  let ?m = "map_block s (unat b)" let ?d = "bit_clear (unat b mod BPB) (bview s ?m)"
  note D = free_map_okD(1,2) [OF assms(3,4)]
  have m: "unat (BBLOCK b (sb s)) = ?m" by (simp add: map_block_def)
  obtain i s1 s2 t where r: "bread 1 (BBLOCK b (sb s)) s = Ret i s1" "b_data (buf_at s1 i) = bview s ?m"
    "log_write i (upd_buf i (\<lambda>b. b\<lparr>b_data := ?d\<rparr>) s1) = Ret () s2" "brelse i s2 = Ret () t"
    "tx_rel p s t" "bview t = (bview s)(?m := ?d)" "dirty t = insert ?m (dirty s)"
    using tx_update [OF assms(1,2), of "BBLOCK b (sb s)"] D unfolding m by fastforce
  have "upd_buf i (\<lambda>r. r\<lparr>b_data := bit_clear (unat b mod BPB) (b_data r)\<rparr>) s1 = upd_buf i (\<lambda>b. b\<lparr>b_data := ?d\<rparr>) s1"
    using r(2) by (simp add: upd_buf_def)
  then have "bfree 1 b s = (if block_free s (unat b) then Panic ''freeing free block'' else Ret () t)"
    using r(1-4) by (simp add: bfree_def Let_def block_free_def)
  with r(5-7) show ?thesis by simp
qed


lemma find_free:
  "find (block_free s) [0..<fs_blocks s] = (if free_blocks s = {} then None else Some (Min (free_blocks s)))"
proof (cases "find (block_free s) [0..<fs_blocks s]")
  case None
  then show ?thesis by (auto simp: find_None_iff free_blocks_def)
next
  case (Some n)
  then have n: "n \<in> free_blocks s" "\<And>k. k < n \<Longrightarrow> k \<notin> free_blocks s" by (auto simp: find_Some_iff free_blocks_def)
  have "finite (free_blocks s)" by (rule finite_subset [of _ "{..<fs_blocks s}"]) (auto simp: free_blocks_def)
  then have "Min (free_blocks s) = n" using n by (intro Min_eqI) (auto simp: not_less [symmetric])
  with n(1) Some show ?thesis by auto
qed

lemma alloc_post_free:
  assumes "free_map_ok s" "n \<in> free_blocks s" "alloc_post p s n t"
  shows "free_blocks t = free_blocks s - {n}" "free_map_ok t" "bview t n = replicate BSIZE 0"
    "m \<notin> {n, map_block s n} \<Longrightarrow> bview t m = bview s m"
proof -
  have n: "n < fs_blocks s" "block_free s n" using assms(2) by (simp_all add: free_blocks_def)
  have a: "tx_rel p s t" "bview t = (bview s)(map_block s n := bit_set (n mod BPB) (bview s (map_block s n)), n := replicate BSIZE 0)"
    using assms(3) by (simp_all add: alloc_post_def)
  note D = free_map_okD [OF assms(1)] note T = tx_relD [OF a(1)]
  have sb: "map_block t = map_block s" "fs_blocks t = fs_blocks s"
    using log_rel_sb [OF T(2)] by (simp_all add: fun_eq_iff map_block_def fs_blocks_def)
  have nm: "map_block s j \<noteq> n" if "j < fs_blocks s" for j using D(6) [OF n that] .
  have bit: "bit_free (bit_set (n mod BPB) (bview s (map_block s n))) j =
      (if j = n mod BPB then False else bit_free (bview s (map_block s n)) j)" if "j < BPB" for j
    using bit_set_free [OF D(3) [OF n(1)] _ that, of "n mod BPB"] by (simp add: BPB_def BSIZE_def)
  have fr: "block_free t k = (if k = n then False else block_free s k)" if "k < fs_blocks s" for k
  proof (rule free_after [OF a(1) n(1) that _ bit])
    show "bview t (map_block s k) = (if map_block s k = map_block s n then bit_set (n mod BPB) (bview s (map_block s n)) else bview s (map_block s k))"
      unfolding a(2) using nm [OF that] by simp
  qed
  then show "free_blocks t = free_blocks s - {n}" by (auto simp: free_blocks_def sb split: if_splits)
  have len: "length (bview t (map_block s k)) = BSIZE" if "k < fs_blocks s" for k
    using D(3) [OF that] D(3) [OF n(1)] unfolding a(2) by (simp add: bit_set_def)
  show "free_map_ok t"
    unfolding free_map_ok_def sb T(3,4)
  proof (intro allI impI conjI)
    fix j k assume j: "j < fs_blocks s"
    show "home s (map_block s j)" "map_block s j \<notin> held_blocks s" "length (bview t (map_block s j)) = BSIZE"
      using D(1,2) [OF j] len [OF j] by simp_all
    assume "block_free t j"
    then have f: "block_free s j" using fr [OF j] by (simp split: if_splits)
    show "home s j" "j \<notin> held_blocks s" "k < fs_blocks s \<Longrightarrow> map_block s k \<noteq> j" using D(4-6) [OF j f] by simp_all
  qed
  show "bview t n = replicate BSIZE 0" "m \<notin> {n, map_block s n} \<Longrightarrow> bview t m = bview s m" using a(2) by simp_all
qed

lemma balloc_least:
  assumes "trans_ok p s" "room 2 s" "card (held_blocks s) \<le> 1" "free_map_ok s"
  shows "if free_blocks s = {} then balloc 1 s = Panic ''balloc: out of blocks''
      else let n = Min (free_blocks s) in
        \<exists>t. balloc 1 s = Ret (of_nat n) t \<and> tx_rel p s t \<and> free_map_ok t \<and> free_blocks t = free_blocks s - {n} \<and>
          bview t n = replicate BSIZE 0 \<and> (\<forall>m. m \<notin> {n, map_block s n} \<longrightarrow> bview t m = bview s m)"
proof -
  let ?n = "Min (free_blocks s)"
  have B: "balloc_result p s 0 (balloc 1 s)"
    using balloc_loop [OF assms(1-4) refl, of 0] by (simp add: balloc_def bitmap_starts_def fs_blocks_def)
  show ?thesis
  proof (cases "free_blocks s = {}")
    case True
    then show ?thesis using B unfolding balloc_result_def find_free by simp
  next
    case False
    then have n: "?n \<in> free_blocks s"
      by (intro Min_in finite_subset [of "free_blocks s" "{..<fs_blocks s}"]) (auto simp: free_blocks_def)
    obtain t where t: "balloc 1 s = Ret (of_nat ?n) t" "alloc_post p s ?n t"
      using B unfolding balloc_result_def find_free if_not_P [OF False] option.case by blast
    have "tx_rel p s t" using t(2) by (simp add: alloc_post_def)
    with t(1) alloc_post_free [OF assms(4) n t(2)] show ?thesis unfolding if_not_P [OF False] Let_def by blast
  qed
qed

lemma bfree_inserts:
  assumes "trans_ok p s" "room 2 s" "card (held_blocks s) \<le> 1" "free_map_ok s" "unat b < fs_blocks s"
  shows "if unat b \<in> free_blocks s then bfree 1 b s = Panic ''freeing free block''
      else \<exists>t. bfree 1 b s = Ret () t \<and> tx_rel p s t \<and> free_blocks t = insert (unat b) (free_blocks s) \<and>
          (\<forall>m. m \<noteq> map_block s (unat b) \<longrightarrow> bview t m = bview s m)"
proof -
  have r: "room 1 s" using assms(2,3) by (simp add: room_def)
  have fr: "free_blocks t = insert (unat b) (free_blocks s)" if t: "tx_rel p s t"
    "bview t = (bview s)(map_block s (unat b) := bit_clear (unat b mod BPB) (bview s (map_block s (unat b))))" for t
  proof -
    have "block_free t k = (if k = unat b then True else block_free s k)" if "k < fs_blocks s" for k
      using bit_clear_free [OF free_map_okD(3) [OF assms(4,5)], of "unat b mod BPB"] t(2)
      by (intro free_after [OF t(1) assms(5) that]) (auto simp: BPB_def BSIZE_def)
    moreover have "fs_blocks t = fs_blocks s" using log_rel_sb [OF tx_relD(2) [OF t(1)]] by (simp add: fs_blocks_def)
    ultimately show ?thesis using assms(5) by (auto simp: free_blocks_def)
  qed
  show ?thesis
  proof (cases "unat b \<in> free_blocks s")
    case True
    then show ?thesis using bfree_spec [OF assms(1) r assms(4,5)] by (simp add: free_blocks_def)
  next
    case False
    then have "\<not> block_free s (unat b)" using assms(5) by (simp add: free_blocks_def)
    then obtain t where t: "bfree 1 b s = Ret () t" "tx_rel p s t"
      "bview t = (bview s)(map_block s (unat b) := bit_clear (unat b mod BPB) (bview s (map_block s (unat b))))"
      using bfree_spec [OF assms(1) r assms(4,5)] by auto
    have "\<forall>m. m \<noteq> map_block s (unat b) \<longrightarrow> bview t m = bview s m" using t(3) by simp
    with t(1,2) fr [OF t(2,3)] show ?thesis unfolding if_not_P [OF False] by blast
  qed
qed

text \<open>
  C40: The free map is a set of blocks. Inside a transaction with room for two blocks, balloc takes
  the least free block out of the set, returns it filled with zeroes, and changes no other block
  but the one of the bitmap; it panics exactly when the set is empty. bfree puts a block that is in
  use into the set and changes nothing but its bitmap block, and panics on a block that is free.
  The invariant of the map is kept by balloc, for any number of bitmap blocks.
\<close>

theorem free_map_refines_set:
  assumes "trans_ok p s" "room 2 s" "card (held_blocks s) \<le> 1" "free_map_ok s" "unat b < fs_blocks s"
  shows "(if free_blocks s = {} then balloc 1 s = Panic ''balloc: out of blocks''
      else let n = Min (free_blocks s) in
        \<exists>t. balloc 1 s = Ret (of_nat n) t \<and> tx_rel p s t \<and> free_map_ok t \<and> free_blocks t = free_blocks s - {n} \<and>
          bview t n = replicate BSIZE 0 \<and> (\<forall>m. m \<notin> {n, map_block s n} \<longrightarrow> bview t m = bview s m)) \<and>
    (if unat b \<in> free_blocks s then bfree 1 b s = Panic ''freeing free block''
      else \<exists>t. bfree 1 b s = Ret () t \<and> tx_rel p s t \<and> free_blocks t = insert (unat b) (free_blocks s) \<and>
          (\<forall>m. m \<noteq> map_block s (unat b) \<longrightarrow> bview t m = bview s m))"
  using balloc_least [OF assms(1-4)] bfree_inserts [OF assms] by (rule conjI)

text \<open>An example: a file system of the two blocks before the log, both free, in a transaction.\<close>

definition map_example :: fs_state where
  "map_example = upd_lg (\<lambda>l. l\<lparr>lg_outstanding := 1\<rparr>) (log_example \<lparr>icache = replicate NINODE inode0, sb = sb0\<lparr>sb_size := 2\<rparr>\<rparr>)"

lemma log_more_sb: "log_state.more s = \<lparr>icache = ic, sb = b\<rparr> \<Longrightarrow> sb s = b"
  by (cases s rule: fs_state.cases, hypsubst) simp

lemma map_example_ok:
  "trans_ok 0 map_example" "room 2 map_example" "card (held_blocks map_example) \<le> 1" "free_map_ok map_example"
  "free_blocks map_example = {0, 1}" "fs_blocks map_example = 2"
proof -
  let ?m = "\<lparr>icache = replicate NINODE inode0, sb = sb0\<lparr>sb_size := 2\<rparr>\<rparr>"
  note E = log_example_simps [of ?m] note T = log_example_trans [where m = ?m, folded map_example_def]
  show "trans_ok 0 map_example" by (rule T(1))
  have h: "held_blocks map_example = {}" "bview map_example = (\<lambda>_. replicate BSIZE 0)" using E by (simp_all add: map_example_def)
  show "room 2 map_example" "card (held_blocks map_example) \<le> 1" using T(2) h by (simp_all add: room_def)
  have "log_state.more map_example = ?m" using E(2) by (simp add: map_example_def upd_lg_def)
  then have sb: "sb map_example = sb0\<lparr>sb_size := 2\<rparr>" by (rule log_more_sb)
  show n: "fs_blocks map_example = 2" using sb by (simp add: fs_blocks_def)
  have m: "map_block map_example k = 58" if "k < 2" for k
    using map_block_eq [of k map_example] that sb n by (simp add: BPB_def BSIZE_def sb0_def)
  have f: "block_free map_example k" if "k < 2" for k
    using that h by (simp add: block_free_def bit_free_def BPB_def BSIZE_def)
  then show "free_blocks map_example = {0, 1}" using n by (auto simp: free_blocks_def)
  show "free_map_ok map_example" unfolding free_map_ok_def n using T(3) h m f by simp
qed

theorem free_map_refines_set_witness:
  "\<exists>t. balloc 1 map_example = Ret 0 t \<and> free_blocks t = {1}"
proof -
  have "unat (0 :: uint32) < fs_blocks map_example" using map_example_ok(6) by simp
  from free_map_refines_set [OF map_example_ok(1-4) this] map_example_ok(5) show ?thesis by (auto simp: Let_def)
qed

end
