(* ===== verification/Ring.thy ===== *)
theory Ring
  imports Prelude
begin

text \<open>
  Ring buffers: an array of \<open>N\<close> elements with two 32 bit counters that only grow, and wrap around.
  Element \<open>i\<close> lies at index \<open>i mod N\<close>. The locale gives the laws for every size that divides
  \<open>2 ^ 32\<close>; the pipes and the console input interpret it.
\<close>

definition ring_list :: "nat \<Rightarrow> 'a list \<Rightarrow> uint32 \<Rightarrow> uint32 \<Rightarrow> 'a list" where
  "ring_list N b r w = map (\<lambda>k. b ! ((unat r + k) mod N)) [0..<unat (w - r)]"

lemma length_ring [simp]: "length (ring_list N b r w) = unat (w - r)"
  by (simp add: ring_list_def)

lemma ring_empty [simp]: "ring_list N b r r = []"
  by (simp add: ring_list_def)

lemma ring_eq_Nil: "ring_list N b r w = [] \<longleftrightarrow> r = w"
  by (metis length_0_conv length_ring ring_empty right_minus_eq unat_eq_0)

locale ring_buffer =
  fixes N :: nat
  assumes dvd_N: "N dvd 2 ^ 32" and N_less: "N < 2 ^ 32"
begin

lemma N_pos: "0 < N"
  using dvd_N by (cases N) simp_all

lemma unat_mod: "unat (a + b :: uint32) mod N = (unat a + unat b) mod N"
  by (subst unat_word_ariths(1)) (simp add: mod_mod_cancel dvd_N [simplified])

lemma ring_index: "(unat r + unat (w - r :: uint32)) mod N = unat w mod N"
  using unat_mod [of r "w - r"] by simp

lemma ring_take:
  assumes "r \<noteq> w"
  shows "ring_list N b r w = b ! (unat r mod N) # ring_list N b (r + 1) w"
proof -
  have "w - r \<noteq> 0" using assms by simp
  then have "unat (w - r - 1) = unat (w - r) - 1" "0 < unat (w - r)" using unat_minus_one [of "w - r"] by (simp_all add: unat_gt_0)
  then have len: "unat (w - r) = Suc (unat (w - (r + 1)))" by (simp add: diff_diff_eq)
  have idx: "(unat (r + 1) + k) mod N = (unat r + Suc k) mod N" for k
    using unat_mod [of r 1] by (metis add.assoc mod_add_left_eq plus_1_eq_Suc unat_1)
  show ?thesis unfolding ring_list_def len
    by (simp only: upt_conv_Cons [OF zero_less_Suc] map_Suc_upt [symmetric]) (simp add: idx)
qed

lemma ring_append:
  assumes "unat (m - r) + unat (w - m) < 2 ^ 32"
  shows "ring_list N b r w = ring_list N b r m @ ring_list N b m w"
proof -
  have "unat (w - r) = unat ((m - r) + (w - m))" by simp
  also have "\<dots> = unat (m - r) + unat (w - m)" using assms by (subst unat_word_ariths(1)) simp
  finally have len: "unat (w - r) = unat (m - r) + unat (w - m)" .
  have "(unat r + (k + unat (m - r))) mod N = (unat m + k) mod N" for k
    using ring_index [of r m] by (metis add.assoc add.commute mod_add_left_eq)
  then have "map (\<lambda>k. b ! ((unat r + k) mod N)) [unat (m - r)..<unat (m - r) + unat (w - m)] = ring_list N b m w"
    unfolding ring_list_def add.commute [of "unat (m - r)"] map_add_upt [symmetric] map_map o_def
    by (simp only:)
  then show ?thesis unfolding ring_list_def len upt_add_eq_append [OF le0] map_append by simp
qed

lemma ring_put:
  assumes "length b = N" "unat (w - r) < N"
  shows "ring_list N (b[unat w mod N := c]) r (w + 1) = ring_list N b r w @ [c]"
proof -
  have "unat (w + 1 - r) = unat ((w - r) + 1)" by (simp add: algebra_simps)
  also have "\<dots> = Suc (unat (w - r))" using assms(2) N_less by (subst unat_word_ariths(1)) simp
  finally have len: "unat (w + 1 - r) = Suc (unat (w - r))" .
  have "(unat r + k) mod N \<noteq> unat w mod N" if "k < unat (w - r)" for k
  proof
    assume "(unat r + k) mod N = unat w mod N"
    then have "N dvd unat (w - r) - k"
      using mod_eq_dvd_iff_nat [of "unat r + k" "unat r + unat (w - r)" N] that ring_index [of r w] by simp
    then have "N \<le> unat (w - r) - k" using that by (intro dvd_imp_le) simp_all
    with assms(2) that show False by simp
  qed
  then have "b[unat w mod N := c] ! ((unat r + k) mod N) = b ! ((unat r + k) mod N)" if "k < unat (w - r)" for k
    using that by (metis nth_list_update_neq)
  then show ?thesis unfolding ring_list_def len using ring_index [of r w] assms(1) N_pos by simp
qed

lemma ring_back:
  assumes "r \<noteq> w"
  shows "ring_list N b r w = ring_list N b r (w - 1) @ [b ! (unat (w - 1) mod N)]"
proof -
  have "w - r \<noteq> 0" using assms by simp
  then have "unat (w - r - 1) = unat (w - r) - 1" "0 < unat (w - r)" using unat_minus_one [of "w - r"] by (simp_all add: unat_gt_0)
  then have len: "unat (w - r) = Suc (unat (w - 1 - r))" by (simp add: algebra_simps)
  show ?thesis unfolding ring_list_def len using ring_index [of r "w - 1"] by simp
qed

lemma ring_put_old:
  assumes "length b = N" "unat (w - r) + unat (e - w) < N"
  shows "ring_list N (b[unat e mod N := c]) r w = ring_list N b r w"
proof -
  have e: "unat (e - r) < N"
  proof -
    have "unat (e - r) = unat ((w - r) + (e - w))" by simp
    also have "\<dots> = unat (w - r) + unat (e - w)" using assms(2) N_less by (subst unat_word_ariths(1)) simp
    finally show ?thesis using assms(2) by simp
  qed
  have lt: "unat (w - r) + unat (e - w) < 2 ^ 32" using assms(2) N_less by simp
  have "unat (e + 1 - w) = unat ((e - w) + 1)" by (simp add: algebra_simps)
  also have "\<dots> = Suc (unat (e - w))" using assms(2) N_less by (subst unat_word_ariths(1)) simp
  finally have "unat (w - r) + unat (e + 1 - w) < 2 ^ 32" using assms(2) N_less by simp
  from ring_append [OF this, of "b[unat e mod N := c]"] ring_put [OF assms(1) e, of c] ring_append [OF lt, of b]
  show ?thesis by (simp add: append_eq_append_conv)
qed

end

end
