(* ===== verification/Pipe.thy ===== *)
theory Pipe
  imports Fs Ring
begin

text \<open>
  Pipes (\<open>pipe.c\<close>) and the allocation of file structures (\<open>file.c\<close>). A pipe lives in a page
  from \<open>kalloc\<close> and is named by the address of the page; a file structure is an index into
  \<open>ftable.file\<close>. The byte counters of a pipe are 32 bit words that wrap around.
\<close>

definition PIPESIZE :: nat where "PIPESIZE = 512"

record pipe =
  pi_data :: "uchar list"
  pi_nread :: uint32
  pi_nwrite :: uint32
  pi_readopen :: bool
  pi_writeopen :: bool

datatype file_type = FD_NONE | FD_PIPE | FD_INODE

record kfile =
  f_type :: file_type
  f_ref :: int
  f_readable :: bool
  f_writable :: bool
  f_pipe :: uint32
  f_ip :: nat
  f_off :: uint32

record file_state = fs_state +
  ftable :: "kfile list"
  pipes :: "uint32 \<Rightarrow> pipe"

definition upd_file :: "nat \<Rightarrow> (kfile \<Rightarrow> kfile) \<Rightarrow> 'a file_state_scheme \<Rightarrow> 'a file_state_scheme" where
  "upd_file i f s = s\<lparr>ftable := (ftable s)[i := f (ftable s ! i)]\<rparr>"

definition upd_pipe :: "uint32 \<Rightarrow> (pipe \<Rightarrow> pipe) \<Rightarrow> 'a file_state_scheme \<Rightarrow> 'a file_state_scheme" where
  "upd_pipe a f s = s\<lparr>pipes := (pipes s)(a := f (pipes s a))\<rparr>"

section \<open>The ring buffer\<close>

definition pipe_full :: "pipe \<Rightarrow> bool" where
  "pipe_full p \<longleftrightarrow> pi_nwrite p = pi_nread p + of_nat PIPESIZE"

definition pipe_empty :: "pipe \<Rightarrow> bool" where
  "pipe_empty p \<longleftrightarrow> pi_nread p = pi_nwrite p"

definition pipe_put :: "uchar \<Rightarrow> pipe \<Rightarrow> pipe" where
  "pipe_put c p = p\<lparr>pi_data := (pi_data p)[unat (pi_nwrite p) mod PIPESIZE := c], pi_nwrite := pi_nwrite p + 1\<rparr>"

definition pipe_peek :: "pipe \<Rightarrow> uchar" where
  "pipe_peek p = pi_data p ! (unat (pi_nread p) mod PIPESIZE)"

definition pipe_drop :: "pipe \<Rightarrow> pipe" where
  "pipe_drop p = p\<lparr>pi_nread := pi_nread p + 1\<rparr>"

text \<open>The copy loop of \<open>piperead\<close>: at most \<open>n\<close> bytes, until the pipe is empty.\<close>

primrec pipe_take :: "nat \<Rightarrow> pipe \<Rightarrow> uchar list \<times> pipe" where
  "pipe_take 0 p = ([], p)"
| "pipe_take (Suc n) p =
     (if pipe_empty p then ([], p)
      else let (xs, q) = pipe_take n (pipe_drop p) in (pipe_peek p # xs, q))"

section \<open>Operations\<close>

definition filealloc :: "'a file_state_scheme \<Rightarrow> (nat option, 'a file_state_scheme) outcome" where
  "filealloc s =
     kbind (acquire LkFtable s) (\<lambda>_ s.
     case find (\<lambda>i. f_ref (ftable s ! i) = 0) [0..<NFILE] of
       Some i \<Rightarrow>
         kbind (release LkFtable (upd_file i (\<lambda>f. f\<lparr>f_ref := 1\<rparr>) s)) (\<lambda>_ s. Ret (Some i) s)
     | None \<Rightarrow> kbind (release LkFtable s) (\<lambda>_ s. Ret None s))"

definition pipeclose :: "uint32 \<Rightarrow> bool \<Rightarrow> 'a file_state_scheme \<Rightarrow> (unit, 'a file_state_scheme) outcome" where
  "pipeclose p writable s =
     kbind (acquire (LkPipe p) s) (\<lambda>_ s.
     kbind (if writable then wakeup (ChNread p) (upd_pipe p (\<lambda>r. r\<lparr>pi_writeopen := False\<rparr>) s)
            else wakeup (ChNwrite p) (upd_pipe p (\<lambda>r. r\<lparr>pi_readopen := False\<rparr>) s)) (\<lambda>_ s.
     if \<not> pi_readopen (pipes s p) \<and> \<not> pi_writeopen (pipes s p)
     then kbind (release (LkPipe p) s) (\<lambda>_ s. kfree p s)
     else release (LkPipe p) s))"

text \<open>
  The loop of \<open>pipewrite\<close>, entered with the lock held; the result is whether all bytes were
  written. A writer that finds the pipe full wakes the readers and sleeps; when it is woken it
  continues with the bytes that are left.
\<close>

fun pipewrite_loop :: "uint32 \<Rightarrow> uchar list \<Rightarrow> 'a file_state_scheme \<Rightarrow> (bool, 'a file_state_scheme) outcome" where
  "pipewrite_loop p [] s = Ret True s"
| "pipewrite_loop p (x # xs) s =
     (if pipe_full (pipes s p) then
        case myproc s of
          None \<Rightarrow> Fault
        | Some q \<Rightarrow>
            if \<not> pi_readopen (pipes s p) \<or> p_killed (slot s q) then Ret False s
            else kbind (wakeup (ChNread p) s) (\<lambda>_ s.
                 kbind (sleep (ChNwrite p) (LkPipe p) s) (\<lambda>_ _. Fault))
      else pipewrite_loop p xs (upd_pipe p (pipe_put x) s))"

definition pipewrite :: "uint32 \<Rightarrow> uchar list \<Rightarrow> 'a file_state_scheme \<Rightarrow> (int, 'a file_state_scheme) outcome" where
  "pipewrite p xs s =
     kbind (acquire (LkPipe p) s) (\<lambda>_ s.
     kbind (pipewrite_loop p xs s) (\<lambda>done s.
     if done then kbind (wakeup (ChNread p) s) (\<lambda>_ s. kbind (release (LkPipe p) s) (\<lambda>_ s. Ret (int (length xs)) s))
     else kbind (release (LkPipe p) s) (\<lambda>_ s. Ret (-1) s)))"

definition piperead :: "uint32 \<Rightarrow> int \<Rightarrow> 'a file_state_scheme \<Rightarrow> (int \<times> uchar list, 'a file_state_scheme) outcome" where
  "piperead p n s =
     kbind (acquire (LkPipe p) s) (\<lambda>_ s.
     if pipe_empty (pipes s p) \<and> pi_writeopen (pipes s p) then
       case myproc s of
         None \<Rightarrow> Fault
       | Some q \<Rightarrow>
           if p_killed (slot s q) then kbind (release (LkPipe p) s) (\<lambda>_ s. Ret (-1, []) s)
           else kbind (sleep (ChNread p) (LkPipe p) s) (\<lambda>_ _. Fault)
     else
       let (xs, q) = pipe_take (nat n) (pipes s p);
           s = upd_pipe p (\<lambda>_. q) s
       in kbind (wakeup (ChNwrite p) s) (\<lambda>_ s.
          kbind (release (LkPipe p) s) (\<lambda>_ s. Ret (int (length xs), xs) s)))"

section \<open>A pipe is a bounded queue\<close>

definition pipe_len :: "pipe \<Rightarrow> nat" where
  "pipe_len p = unat (pi_nwrite p - pi_nread p)"

definition pipe_wf :: "pipe \<Rightarrow> bool" where
  "pipe_wf p \<longleftrightarrow> length (pi_data p) = PIPESIZE \<and> pipe_len p \<le> PIPESIZE"

definition pipe_list :: "pipe \<Rightarrow> uchar list" where
  "pipe_list p = ring_list PIPESIZE (pi_data p) (pi_nread p) (pi_nwrite p)"

interpretation pr: ring_buffer PIPESIZE
  by unfold_locales (simp_all add: PIPESIZE_def dvd_def)

lemma pipe_full_len: "pipe_full p \<longleftrightarrow> pipe_len p = PIPESIZE"
proof -
  have "pipe_full p \<longleftrightarrow> pi_nwrite p - pi_nread p = of_nat PIPESIZE"
    unfolding pipe_full_def by (auto simp: algebra_simps)
  also have "\<dots> \<longleftrightarrow> unat (pi_nwrite p - pi_nread p) = PIPESIZE"
    by (simp add: PIPESIZE_def unat_arith_simps)
  finally show ?thesis by (simp add: pipe_len_def)
qed

lemma pipe_empty_len: "pipe_empty p \<longleftrightarrow> pipe_len p = 0"
  by (auto simp: pipe_empty_def pipe_len_def unat_eq_0)

lemma length_pipe_list [simp]: "length (pipe_list p) = pipe_len p"
  by (simp add: pipe_list_def pipe_len_def)

lemma pipe_list_Nil: "pipe_list p = [] \<longleftrightarrow> pipe_empty p"
  by (simp add: pipe_list_def ring_eq_Nil pipe_empty_def)

lemma pipe_put_list:
  assumes "pipe_wf p" "\<not> pipe_full p"
  shows "pipe_list (pipe_put c p) = pipe_list p @ [c]" "pipe_wf (pipe_put c p)"
proof -
  have lt: "unat (pi_nwrite p - pi_nread p) < PIPESIZE" and L: "length (pi_data p) = PIPESIZE"
    using assms by (simp_all add: pipe_wf_def pipe_full_len pipe_len_def)
  show P: "pipe_list (pipe_put c p) = pipe_list p @ [c]"
    using pr.ring_put [OF L lt, of c] by (simp add: pipe_list_def pipe_put_def)
  show "pipe_wf (pipe_put c p)"
    using arg_cong [OF P, of length] lt L by (simp add: pipe_wf_def pipe_put_def pipe_len_def)
qed

lemma pipe_drop_list:
  assumes "pipe_wf p" "\<not> pipe_empty p"
  shows "pipe_list p = pipe_peek p # pipe_list (pipe_drop p)" "pipe_wf (pipe_drop p)"
proof -
  show P: "pipe_list p = pipe_peek p # pipe_list (pipe_drop p)"
    using pr.ring_take [of "pi_nread p" "pi_nwrite p"] assms(2)
    by (simp add: pipe_list_def pipe_peek_def pipe_drop_def pipe_empty_def)
  show "pipe_wf (pipe_drop p)"
    using arg_cong [OF P, of length] assms(1) by (simp add: pipe_wf_def pipe_drop_def)
qed

lemma pipe_take_list:
  "pipe_wf p \<Longrightarrow> pipe_take n p = (xs, q) \<Longrightarrow> xs = take n (pipe_list p) \<and> pipe_list q = drop n (pipe_list p) \<and> pipe_wf q \<and>
     pi_readopen q = pi_readopen p \<and> pi_writeopen q = pi_writeopen p"
proof (induction n arbitrary: p xs q)
  case (Suc n)
  show ?case
  proof (cases "pipe_empty p")
    case True
    then have "pipe_list p = []" by (simp add: pipe_list_Nil)
    with True Suc.prems show ?thesis by auto
  next
    case False
    obtain ys where ys: "pipe_take n (pipe_drop p) = (ys, q)" "xs = pipe_peek p # ys"
      using Suc.prems(2) False by (auto split: prod.splits)
    note D = pipe_drop_list [OF Suc.prems(1) False]
    from Suc.IH [OF D(2) ys(1)] D(1) ys(2) show ?thesis by (simp add: pipe_drop_def)
  qed
qed auto

text \<open>The write loop fills the pipe as far as it goes.\<close>

lemma pipewrite_fits:
  "pipe_wf (pipes s a) \<Longrightarrow> pipe_len (pipes s a) + length xs \<le> PIPESIZE \<Longrightarrow>
     \<exists>q. pipewrite_loop a xs s = Ret True (s\<lparr>pipes := (pipes s)(a := q)\<rparr>) \<and> pipe_wf q \<and>
       pipe_list q = pipe_list (pipes s a) @ xs \<and> pi_readopen q = pi_readopen (pipes s a) \<and>
       pi_writeopen q = pi_writeopen (pipes s a)"
proof (induction xs arbitrary: s)
  case Nil
  have "s = s\<lparr>pipes := (pipes s)(a := pipes s a)\<rparr>" by simp
  with Nil show ?case by (intro exI [of _ "pipes s a"]) simp
next
  case (Cons x xs)
  let ?t = "upd_pipe a (pipe_put x) s"
  have nf: "\<not> pipe_full (pipes s a)" using Cons.prems by (simp add: pipe_full_len)
  note P = pipe_put_list [OF Cons.prems(1) nf, of x]
  have t: "pipes ?t a = pipe_put x (pipes s a)" by (simp add: upd_pipe_def)
  have len: "pipe_len (pipes ?t a) = pipe_len (pipes s a) + 1"
    using arg_cong [OF P(1), of length] t by simp
  have pre: "pipe_wf (pipes ?t a)" "pipe_len (pipes ?t a) + length xs \<le> PIPESIZE" using P(2) t len Cons.prems(2) by simp_all
  from Cons.IH [OF pre] obtain q where "pipewrite_loop a xs ?t = Ret True (?t\<lparr>pipes := (pipes ?t)(a := q)\<rparr>)" "pipe_wf q"
    "pipe_list q = pipe_list (pipes ?t a) @ xs" "pi_readopen q = pi_readopen (pipes ?t a)"
    "pi_writeopen q = pi_writeopen (pipes ?t a)"
    by blast
  moreover have "?t\<lparr>pipes := (pipes ?t)(a := q)\<rparr> = s\<lparr>pipes := (pipes s)(a := q)\<rparr>" by (simp add: upd_pipe_def)
  ultimately show ?case using nf P(1) t by (intro exI [of _ q]) (simp add: pipe_put_def fun_upd_def)
qed

lemma pipewrite_loop_append:
  "pipewrite_loop a xs s = Ret True t \<Longrightarrow> pipewrite_loop a (xs @ ys) s = pipewrite_loop a ys t"
proof (induction xs arbitrary: s)
  case (Cons x xs)
  then show ?case by (auto split: if_splits option.splits simp: kbind_eq_Ret)
qed simp

lemma proc_more_file:
  "proc_state.more t = proc_state.more s \<Longrightarrow> pipes t = pipes s \<and> ftable t = ftable s \<and> icache t = icache s \<and> lg t = lg s"
  by (cases s rule: file_state.cases_scheme, cases t rule: file_state.cases_scheme, hypsubst) simp

lemma in_proc_pipes [simp]: "in_proc p (s\<lparr>pipes := f\<rparr>) = in_proc p s"
  by (rule in_proc_cong) simp_all

lemma pipe_wakeup:
  assumes "in_proc p s"
  shows "\<exists>s'. kbind (wakeup c (s\<lparr>held := [LkPipe a]\<rparr>)) (\<lambda>_. release (LkPipe a)) = Ret () s' \<and> in_proc p s' \<and>
     pipes s' = pipes s"
  using wakeup_keeps [OF assms, of "LkPipe a" c] proc_more_file by blast

lemma pipes_held: "s\<lparr>held := h, pipes := f\<rparr> = s\<lparr>pipes := f, held := h\<rparr>"
  by (rule file_state.equality) simp_all

lemma pipewrite_all:
  assumes "in_proc p s" "pipe_wf (pipes s a)" "pipe_len (pipes s a) + length xs \<le> PIPESIZE"
  shows "\<exists>s'. pipewrite a xs s = Ret (int (length xs)) s' \<and> pipe_wf (pipes s' a) \<and> in_proc p s' \<and>
     pipe_list (pipes s' a) = pipe_list (pipes s a) @ xs"
proof -
  let ?h = "s\<lparr>held := [LkPipe a]\<rparr>"
  have w: "pipe_wf (pipes ?h a)" "pipe_len (pipes ?h a) + length xs \<le> PIPESIZE" using assms(2,3) by simp_all
  obtain q where q: "pipewrite_loop a xs ?h = Ret True (?h\<lparr>pipes := (pipes s)(a := q)\<rparr>)" "pipe_wf q"
    "pipe_list q = pipe_list (pipes s a) @ xs" using pipewrite_fits [OF w] by auto
  let ?t = "s\<lparr>pipes := (pipes s)(a := q)\<rparr>"
  have it: "in_proc p ?t" using assms(1) by simp
  obtain s' where s': "kbind (wakeup (ChNread a) (?t\<lparr>held := [LkPipe a]\<rparr>)) (\<lambda>_. release (LkPipe a)) = Ret () s'"
    "in_proc p s'" "pipes s' = pipes ?t" using pipe_wakeup [OF it] by blast
  have acq: "acquire (LkPipe a) s = Ret () ?h" using in_procD(2) [OF assms(1)] by simp
  have "pipewrite a xs s = kbind (kbind (wakeup (ChNread a) (?t\<lparr>held := [LkPipe a]\<rparr>)) (\<lambda>_. release (LkPipe a)))
      (\<lambda>_. Ret (int (length xs)))"
    unfolding pipewrite_def acq kbind.simps q(1) kbind_assoc if_True pipes_held by (rule refl)
  then have "pipewrite a xs s = Ret (int (length xs)) s'" using s'(1) by simp
  with s'(2,3) q(2,3) show ?thesis by (intro exI [of _ s']) simp
qed

text \<open>A writer that cannot finish: the pipe is full when the loop stops.\<close>

lemma pipewrite_full:
  assumes "in_proc p s" "pipe_wf (pipes s a)" "PIPESIZE < pipe_len (pipes s a) + length xs"
  shows "\<exists>q. pipewrite_loop a xs (s\<lparr>held := [LkPipe a]\<rparr>) =
      (let t = s\<lparr>pipes := (pipes s)(a := q)\<rparr>; h = t\<lparr>held := [LkPipe a]\<rparr> in
       if pi_readopen (pipes s a) \<and> \<not> p_killed (slot s p)
       then kbind (wakeup (ChNread a) h) (\<lambda>_ s. kbind (sleep (ChNwrite a) (LkPipe a) s) (\<lambda>_ _. Fault)) else Ret False h) \<and>
     pipe_list q = pipe_list (pipes s a) @ take (PIPESIZE - pipe_len (pipes s a)) xs"
proof -
  let ?h = "s\<lparr>held := [LkPipe a]\<rparr>" let ?k = "PIPESIZE - pipe_len (pipes s a)"
  have w: "pipe_wf (pipes ?h a)" "pipe_len (pipes ?h a) + length (take ?k xs) \<le> PIPESIZE"
    using assms(2,3) by (simp_all add: pipe_wf_def)
  obtain q where q: "pipewrite_loop a (take ?k xs) ?h = Ret True (?h\<lparr>pipes := (pipes s)(a := q)\<rparr>)" "pipe_wf q"
    "pipe_list q = pipe_list (pipes s a) @ take ?k xs" "pi_readopen q = pi_readopen (pipes s a)"
    using pipewrite_fits [OF w] by auto
  obtain y ys where ys: "drop ?k xs = y # ys" using assms(2,3) by (cases "drop ?k xs") (auto simp: pipe_wf_def)
  have "pipe_len q = PIPESIZE" using arg_cong [OF q(3), of length] assms(2,3) by (simp add: pipe_wf_def)
  then have full: "pipe_full q" by (simp add: pipe_full_len)
  have "xs = take ?k xs @ y # ys" using ys by (metis append_take_drop_id)
  then have "pipewrite_loop a xs ?h = pipewrite_loop a (y # ys) (?h\<lparr>pipes := (pipes s)(a := q)\<rparr>)"
    using pipewrite_loop_append [OF q(1), of "y # ys"] by (simp only:)
  also have "\<dots> = pipewrite_loop a (y # ys) (s\<lparr>pipes := (pipes s)(a := q), held := [LkPipe a]\<rparr>)" by (simp only: pipes_held)
  finally show ?thesis using full q(3,4) in_procD(5) [OF assms(1)]
    by (intro exI [of _ q]) (simp add: myproc_def Let_def)
qed

lemma pipewrite_rest:
  assumes "in_proc p s" "pipe_wf (pipes s a)" "PIPESIZE < pipe_len (pipes s a) + length xs"
  shows "if pi_readopen (pipes s a) \<and> \<not> p_killed (slot s p)
        then \<exists>s'. pipewrite a xs s = Block (ChNwrite a) s' \<and> sleeps_on (ChNwrite a) (slot s' p) \<and>
          pipe_list (pipes s' a) = pipe_list (pipes s a) @ take (PIPESIZE - pipe_len (pipes s a)) xs
        else \<exists>s'. pipewrite a xs s = Ret (-1) s' \<and> in_proc p s'"
proof -
  obtain q where q: "pipewrite_loop a xs (s\<lparr>held := [LkPipe a]\<rparr>) =
      (let t = s\<lparr>pipes := (pipes s)(a := q)\<rparr>; h = t\<lparr>held := [LkPipe a]\<rparr> in
       if pi_readopen (pipes s a) \<and> \<not> p_killed (slot s p)
       then kbind (wakeup (ChNread a) h) (\<lambda>_ s. kbind (sleep (ChNwrite a) (LkPipe a) s) (\<lambda>_ _. Fault)) else Ret False h)"
    "pipe_list q = pipe_list (pipes s a) @ take (PIPESIZE - pipe_len (pipes s a)) xs" using pipewrite_full [OF assms] by blast
  let ?t = "s\<lparr>pipes := (pipes s)(a := q)\<rparr>"
  have it: "in_proc p ?t" using assms(1) by simp
  have acq: "acquire (LkPipe a) s = Ret () (s\<lparr>held := [LkPipe a]\<rparr>)" using in_procD(2) [OF assms(1)] by simp
  show ?thesis
  proof (cases "pi_readopen (pipes s a) \<and> \<not> p_killed (slot s p)")
    case True
    obtain u where u: "wakeup (ChNread a) (?t\<lparr>held := [LkPipe a]\<rparr>) = Ret () (u\<lparr>held := [LkPipe a]\<rparr>)" "in_proc p u"
      "proc_state.more u = proc_state.more ?t" using wakeup_held [OF it, of "LkPipe a"] by blast
    obtain s' where s': "sleep (ChNwrite a) (LkPipe a) (u\<lparr>held := [LkPipe a]\<rparr>) = Block (ChNwrite a) s'"
      "sleeps_on (ChNwrite a) (slot s' p)" "proc_state.more s' = proc_state.more u" using sleep_in_proc [OF u(2)] by blast
    have "pipes s' a = q" using proc_more_file [OF u(3)] proc_more_file [OF s'(3)] by simp
    moreover have "pipewrite a xs s = Block (ChNwrite a) s'"
      unfolding pipewrite_def acq kbind.simps q(1) Let_def if_P [OF True] u(1) s'(1) by (rule refl)
    ultimately show ?thesis using True s'(2) q(2) by auto
  next
    case False
    have "release (LkPipe a) (?t\<lparr>held := [LkPipe a]\<rparr>) = Ret () ?t" using in_procD(2) [OF it] by simp
    then have "pipewrite a xs s = Ret (-1) ?t"
      unfolding pipewrite_def acq kbind.simps q(1) Let_def if_not_P [OF False] if_False by simp
    with False it show ?thesis by auto
  qed
qed

lemma piperead_data:
  assumes "in_proc p s" "pipe_wf (pipes s a)" "\<not> (pipe_list (pipes s a) = [] \<and> pi_writeopen (pipes s a))"
  shows "\<exists>s'. piperead a n s = Ret (int (min (nat n) (pipe_len (pipes s a))), take (nat n) (pipe_list (pipes s a))) s' \<and>
     pipe_wf (pipes s' a) \<and> in_proc p s' \<and> pipe_list (pipes s' a) = drop (nat n) (pipe_list (pipes s a))"
proof -
  let ?h = "s\<lparr>held := [LkPipe a]\<rparr>"
  obtain xs q where tk: "pipe_take (nat n) (pipes s a) = (xs, q)" by fastforce
  note T = pipe_take_list [OF assms(2) tk]
  have e: "\<not> (pipe_empty (pipes ?h a) \<and> pi_writeopen (pipes ?h a))"
    using assms(3) by (auto simp: pipe_list_Nil)
  have acq: "acquire (LkPipe a) s = Ret () ?h" using in_procD(2) [OF assms(1)] by simp
  let ?t = "s\<lparr>pipes := (pipes s)(a := q)\<rparr>"
  have it: "in_proc p ?t" using assms(1) by simp
  obtain s' where s': "kbind (wakeup (ChNwrite a) (?t\<lparr>held := [LkPipe a]\<rparr>)) (\<lambda>_. release (LkPipe a)) = Ret () s'"
    "in_proc p s'" "pipes s' = pipes ?t" using pipe_wakeup [OF it] by blast
  have up: "upd_pipe a (\<lambda>_. q) ?h = ?t\<lparr>held := [LkPipe a]\<rparr>" unfolding upd_pipe_def by (simp add: pipes_held)
  have th: "pipe_take (nat n) (pipes ?h a) = (xs, q)" using tk by simp
  have "piperead a n s = kbind (kbind (wakeup (ChNwrite a) (?t\<lparr>held := [LkPipe a]\<rparr>)) (\<lambda>_. release (LkPipe a)))
      (\<lambda>_. Ret (int (length xs), xs))"
    unfolding piperead_def acq kbind.simps if_not_P [OF e] th Let_def prod.case up kbind_assoc by (rule refl)
  then have "piperead a n s = Ret (int (length xs), xs) s'" using s'(1) by simp
  with T s'(2,3) show ?thesis by (intro exI [of _ s']) (simp add: min.commute)
qed

lemma piperead_nothing:
  assumes "in_proc p s" "pipe_list (pipes s a) = []" "pi_writeopen (pipes s a)"
  shows "if p_killed (slot s p) then piperead a n s = Ret (-1, []) s
     else \<exists>s'. piperead a n s = Block (ChNread a) s' \<and> sleeps_on (ChNread a) (slot s' p) \<and> pipes s' = pipes s"
proof -
  have "pipe_empty (pipes s a)" using assms(2) by (simp add: pipe_list_Nil)
  moreover obtain s' where s': "sleep (ChNread a) (LkPipe a) (s\<lparr>held := [LkPipe a]\<rparr>) = Block (ChNread a) s'"
    "sleeps_on (ChNread a) (slot s' p)" "proc_state.more s' = proc_state.more s" using sleep_in_proc [OF assms(1)] by blast
  moreover have "pipes s' = pipes s" using proc_more_file [OF s'(3)] by simp
  ultimately show ?thesis using assms(3) in_procD(2,5) [OF assms(1)] by (simp add: piperead_def myproc_def)
qed

section \<open>Properties\<close>

text \<open>
  C30: a pipe is a queue of at most 512 bytes, also when the 32 bit counters wrap around. A write
  that fits appends its bytes and returns their number; a longer one appends the bytes that fit,
  wakes the readers and sleeps, or returns -1 when the read end is closed or the process killed. A
  read of a pipe that is not empty returns the oldest bytes and leaves the rest, and a read of an
  empty pipe returns 0 bytes if the write end is closed, -1 to a killed process, and else sleeps.
\<close>

theorem pipe_fifo:
  assumes "in_proc p s" "pipe_wf (pipes s a)"
  shows "(pipe_len (pipes s a) + length xs \<le> PIPESIZE \<longrightarrow>
       (\<exists>s'. pipewrite a xs s = Ret (int (length xs)) s' \<and> pipe_wf (pipes s' a) \<and> in_proc p s' \<and>
          pipe_list (pipes s' a) = pipe_list (pipes s a) @ xs)) \<and>
    (PIPESIZE < pipe_len (pipes s a) + length xs \<longrightarrow>
       (if pi_readopen (pipes s a) \<and> \<not> p_killed (slot s p)
        then \<exists>s'. pipewrite a xs s = Block (ChNwrite a) s' \<and> sleeps_on (ChNwrite a) (slot s' p) \<and>
          pipe_list (pipes s' a) = pipe_list (pipes s a) @ take (PIPESIZE - pipe_len (pipes s a)) xs
        else \<exists>s'. pipewrite a xs s = Ret (-1) s' \<and> in_proc p s')) \<and>
    (if pipe_list (pipes s a) = [] \<and> pi_writeopen (pipes s a)
     then if p_killed (slot s p) then piperead a n s = Ret (-1, []) s
          else \<exists>s'. piperead a n s = Block (ChNread a) s' \<and> sleeps_on (ChNread a) (slot s' p) \<and> pipes s' = pipes s
     else \<exists>s'. piperead a n s = Ret (int (min (nat n) (pipe_len (pipes s a))), take (nat n) (pipe_list (pipes s a))) s' \<and>
          pipe_wf (pipes s' a) \<and> in_proc p s' \<and> pipe_list (pipes s' a) = drop (nat n) (pipe_list (pipes s a)))"
proof (intro conjI impI)
  show "\<exists>s'. pipewrite a xs s = Ret (int (length xs)) s' \<and> pipe_wf (pipes s' a) \<and> in_proc p s' \<and>
      pipe_list (pipes s' a) = pipe_list (pipes s a) @ xs" if "pipe_len (pipes s a) + length xs \<le> PIPESIZE"
    using pipewrite_all [OF assms that] .
  show "if pi_readopen (pipes s a) \<and> \<not> p_killed (slot s p)
        then \<exists>s'. pipewrite a xs s = Block (ChNwrite a) s' \<and> sleeps_on (ChNwrite a) (slot s' p) \<and>
          pipe_list (pipes s' a) = pipe_list (pipes s a) @ take (PIPESIZE - pipe_len (pipes s a)) xs
        else \<exists>s'. pipewrite a xs s = Ret (-1) s' \<and> in_proc p s'" if "PIPESIZE < pipe_len (pipes s a) + length xs"
    using pipewrite_rest [OF assms that] .
qed (use piperead_data [OF assms, of n] piperead_nothing [OF assms(1), of a n] in presburger)

definition kfile0 :: kfile where
  "kfile0 = \<lparr>f_type = FD_NONE, f_ref = 0, f_readable = False, f_writable = False, f_pipe = 0, f_ip = 0, f_off = 0\<rparr>"

text \<open>An example: no open file, and a pipe whose counters are about to wrap around.\<close>

definition pipe0 :: pipe where
  "pipe0 = \<lparr>pi_data = replicate PIPESIZE 0, pi_nread = 0xFFFFFFFF, pi_nwrite = 0xFFFFFFFF, pi_readopen = True,
     pi_writeopen = True\<rparr>"

definition file_example :: "'a \<Rightarrow> 'a file_state_scheme" where
  "file_example m = fs_example \<lparr>ftable = replicate NFILE kfile0, pipes = (\<lambda>_. pipe0), \<dots> = m\<rparr>"

lemma file_example_simps:
  "ftable (file_example m) = replicate NFILE kfile0" "pipes (file_example m) = (\<lambda>_. pipe0)"
  "file_state.more (file_example m) = m" "in_proc 0 (file_example m)"
proof -
  have "fs_state.more (file_example m) = \<lparr>ftable = replicate NFILE kfile0, pipes = (\<lambda>_. pipe0), \<dots> = m\<rparr>"
    by (simp add: file_example_def fs_example_simps)
  then show "ftable (file_example m) = replicate NFILE kfile0" "pipes (file_example m) = (\<lambda>_. pipe0)"
    "file_state.more (file_example m) = m"
    by (cases "file_example m" rule: file_state.cases_scheme, simp)+
  show "in_proc 0 (file_example m)" by (simp add: file_example_def fs_example_def log_example_simps)
qed

theorem pipe_fifo_witness:
  "\<exists>s'. pipewrite 0x80400000 [1, 2] (file_example ()) = Ret 2 s' \<and> pipe_list (pipes s' 0x80400000) = [1, 2]"
proof -
  have w: "pipe_wf (pipes (file_example ()) 0x80400000)" "pipe_list (pipes (file_example ()) 0x80400000) = []"
    by (simp_all add: file_example_simps pipe_wf_def pipe_len_def pipe_list_def pipe0_def)
  have "pipe_len (pipes (file_example ()) 0x80400000) + length [1 :: uchar, 2] \<le> PIPESIZE"
    by (simp add: file_example_simps pipe_len_def pipe0_def PIPESIZE_def)
  from pipe_fifo [OF file_example_simps(4) w(1), THEN conjunct1, rule_format, OF this] w(2) show ?thesis by auto
qed

end
