(* ===== verification/Fs_Dir.thy ===== *)
theory Fs_Dir
  imports Fs
begin

text \<open>
  Directories and path names (the last part of \<open>fs.c\<close>). A directory is a file of sixteen-byte
  entries; a path name is a C string, and \<open>namex\<close> walks its elements from the root or from the
  current directory. The array \<open>name\<close> of the code is a list of \<open>DIRSIZ\<close> bytes of which the
  part behind a terminating zero keeps what was there before.
\<close>

text \<open>A byte of a C string; past its end the string has its terminating zero.\<close>

definition chr :: "uchar list \<Rightarrow> uchar" where
  "chr p = (case p of [] \<Rightarrow> 0 | c # _ \<Rightarrow> c)"

primrec strncmpl :: "nat \<Rightarrow> uchar list \<Rightarrow> uchar list \<Rightarrow> int" where
  "strncmpl 0 p q = 0"
| "strncmpl (Suc n) p q =
     (if chr p \<noteq> 0 \<and> chr p = chr q then strncmpl n (tl p) (tl q) else uint (chr p) - uint (chr q))"

primrec strncpyl :: "nat \<Rightarrow> uchar list \<Rightarrow> uchar list" where
  "strncpyl 0 p = []"
| "strncpyl (Suc n) p = (if chr p = 0 then replicate (Suc n) 0 else chr p # strncpyl n (tl p))"

definition namecmp :: "uchar list \<Rightarrow> uchar list \<Rightarrow> int" where
  "namecmp p q = strncmpl DIRSIZ p q"

section \<open>Directories\<close>

fun dirlookup_from :: "'a fs_state_scheme devread \<Rightarrow> nat \<Rightarrow> uchar list \<Rightarrow> nat list \<Rightarrow> 'a fs_state_scheme \<Rightarrow>
    ((nat \<times> uint32) option, 'a fs_state_scheme) outcome" where
  "dirlookup_from dread dp name [] s = Ret None s"
| "dirlookup_from dread dp name (off # offs) s =
     kbind (readi dread dp (of_nat off) (of_nat sizeof_dirent) s) (\<lambda>r s.
     if fst r \<noteq> int sizeof_dirent then Panic ''dirlookup read''
     else
       let de = dirent_of (snd r)
       in if de_inum de = 0 then dirlookup_from dread dp name offs s
          else if namecmp name (de_name de) = 0 then
            kbind (iget (i_dev (ino s dp)) (ucast (de_inum de)) s) (\<lambda>ip s. Ret (Some (ip, of_nat off)) s)
          else dirlookup_from dread dp name offs s)"

definition dir_offs :: "uint32 \<Rightarrow> nat list" where
  "dir_offs sz = map (\<lambda>k. k * sizeof_dirent) [0..<(unat sz + sizeof_dirent - 1) div sizeof_dirent]"

text \<open>The result is the inode and the offset that the code stores at \<open>poff\<close>.\<close>

definition dirlookup :: "'a fs_state_scheme devread \<Rightarrow> nat \<Rightarrow> uchar list \<Rightarrow> 'a fs_state_scheme \<Rightarrow>
    ((nat \<times> uint32) option, 'a fs_state_scheme) outcome" where
  "dirlookup dread dp name s =
     (if i_type (ino s dp) \<noteq> T_DIR then Panic ''dirlookup not DIR''
      else dirlookup_from dread dp name (dir_offs (i_size (ino s dp))) s)"

text \<open>The offset of the first free entry, or of the end of the directory.\<close>

fun dirlink_slot :: "'a fs_state_scheme devread \<Rightarrow> nat \<Rightarrow> nat list \<Rightarrow> nat \<Rightarrow> 'a fs_state_scheme \<Rightarrow>
    (nat, 'a fs_state_scheme) outcome" where
  "dirlink_slot dread dp [] e s = Ret e s"
| "dirlink_slot dread dp (off # offs) e s =
     kbind (readi dread dp (of_nat off) (of_nat sizeof_dirent) s) (\<lambda>r s.
     if fst r \<noteq> int sizeof_dirent then Panic ''dirlink read''
     else if de_inum (dirent_of (snd r)) = 0 then Ret off s
     else dirlink_slot dread dp offs (off + sizeof_dirent) s)"

definition dirlink :: "'a fs_state_scheme devread \<Rightarrow> 'a fs_state_scheme devwrite \<Rightarrow> nat \<Rightarrow> uchar list \<Rightarrow> uint32 \<Rightarrow>
    'a fs_state_scheme \<Rightarrow> (int, 'a fs_state_scheme) outcome" where
  "dirlink dread dwrite dp name inum s =
     kbind (dirlookup dread dp name s) (\<lambda>r s.
     case r of
       Some (ip, _) \<Rightarrow> kbind (iput ip s) (\<lambda>_ s. Ret (-1) s)
     | None \<Rightarrow>
         kbind (dirlink_slot dread dp (dir_offs (i_size (ino s dp))) 0 s) (\<lambda>off s.
         let de = \<lparr>de_inum = ucast inum, de_name = strncpyl DIRSIZ name\<rparr>
         in kbind (writei dwrite dp (bytes_of_dirent de) (of_nat off) s) (\<lambda>n s.
            if n \<noteq> int sizeof_dirent then Panic ''dirlink'' else Ret 0 s)))"

section \<open>Paths\<close>

abbreviation slash :: uchar where
  "slash \<equiv> 47"

definition in_elem :: "uchar \<Rightarrow> bool" where
  "in_elem c \<longleftrightarrow> c \<noteq> slash \<and> c \<noteq> 0"

text \<open>The next element and the rest of the path; \<open>None\<close> is the null pointer.\<close>

definition skipelem :: "uchar list \<Rightarrow> uchar list \<Rightarrow> (uchar list \<times> uchar list) option" where
  "skipelem path name =
     (let path = dropWhile (\<lambda>c. c = slash) path
      in if chr path = 0 then None
         else
           let s = takeWhile in_elem path;
               path = dropWhile in_elem path;
               name = (if DIRSIZ \<le> length s then put_bytes 0 (take DIRSIZ s) name else put_bytes 0 (s @ [0]) name)
           in Some (dropWhile (\<lambda>c. c = slash) path, name))"

lemma skipelem_shorter:
  assumes "skipelem path name = Some (rest, name')"
  shows "length rest < length path"
proof -
  let ?p = "dropWhile (\<lambda>c. c = slash) path"
  have r: "rest = dropWhile (\<lambda>c. c = slash) (dropWhile in_elem ?p)" and c: "chr ?p \<noteq> 0"
    using assms by (auto simp: skipelem_def Let_def split: if_splits)
  then obtain a p' where p: "?p = a # p'" by (auto simp: chr_def split: list.splits)
  have "a \<noteq> slash" using hd_dropWhile [of "\<lambda>c. c = slash" path] p by auto
  moreover have "a \<noteq> 0" using c p by (simp add: chr_def)
  ultimately have "in_elem a" by (simp add: in_elem_def)
  then have "length rest \<le> length p'"
    using r p length_dropWhile_le [of in_elem p'] length_dropWhile_le [of "\<lambda>c. c = slash" "dropWhile in_elem p'"] by simp
  also have "length p' < length path" using length_dropWhile_le [of "\<lambda>c. c = slash" path] p by simp
  finally show ?thesis .
qed

text \<open>The loop of \<open>namex\<close>: the inode, and the last element when the parent is wanted.\<close>

function namex_loop :: "'a fs_state_scheme devread \<Rightarrow> bool \<Rightarrow> nat \<Rightarrow> uchar list \<Rightarrow> uchar list \<Rightarrow> 'a fs_state_scheme \<Rightarrow>
    (nat option \<times> uchar list, 'a fs_state_scheme) outcome" where
  "namex_loop dread nameiparent ip path name s =
     (case skipelem path name of
        None \<Rightarrow> if nameiparent then kbind (iput ip s) (\<lambda>_ s. Ret (None, name) s) else Ret (Some ip, name) s
      | Some (path', name') \<Rightarrow>
          kbind (ilock (Some ip) s) (\<lambda>_ s.
          if i_type (ino s ip) \<noteq> T_DIR then kbind (iunlockput ip s) (\<lambda>_ s. Ret (None, name') s)
          else if nameiparent \<and> chr path' = 0 then kbind (iunlock (Some ip) s) (\<lambda>_ s. Ret (Some ip, name') s)
          else
            kbind (dirlookup dread ip name' s) (\<lambda>r s.
            case r of
              None \<Rightarrow> kbind (iunlockput ip s) (\<lambda>_ s. Ret (None, name') s)
            | Some (next, _) \<Rightarrow>
                kbind (iunlockput ip s) (\<lambda>_ s. namex_loop dread nameiparent next path' name' s))))"
  by pat_completeness auto
termination
  by (relation "measure (\<lambda>(dread, np, ip, path, name, s). length path)") (auto dest: skipelem_shorter)

definition namex :: "'a fs_state_scheme devread \<Rightarrow> bool \<Rightarrow> uchar list \<Rightarrow> uchar list \<Rightarrow> 'a fs_state_scheme \<Rightarrow>
    (nat option \<times> uchar list, 'a fs_state_scheme) outcome" where
  "namex dread nameiparent path name s =
     kbind (if chr path = slash then iget (of_nat ROOTDEV) ROOTINO s
            else case myproc s of
                   None \<Rightarrow> Fault
                 | Some p \<Rightarrow> (case p_cwd (slot s p) of None \<Rightarrow> Fault | Some cwd \<Rightarrow> idup cwd s)) (\<lambda>ip s.
     namex_loop dread nameiparent ip path name s)"

definition namei :: "'a fs_state_scheme devread \<Rightarrow> uchar list \<Rightarrow> 'a fs_state_scheme \<Rightarrow> (nat option, 'a fs_state_scheme) outcome" where
  "namei dread path s = kbind (namex dread False path (replicate DIRSIZ 0) s) (\<lambda>r s. Ret (fst r) s)"

definition nameiparent :: "'a fs_state_scheme devread \<Rightarrow> uchar list \<Rightarrow> uchar list \<Rightarrow> 'a fs_state_scheme \<Rightarrow>
    (nat option \<times> uchar list, 'a fs_state_scheme) outcome" where
  "nameiparent dread path name s = namex dread True path name s"

end
