(* ===== verification/File.thy ===== *)
theory File
  imports Pipe Fs_Dir
begin

text \<open>
  Open files (\<open>file.c\<close>) and the creation of pipes (\<open>pipealloc\<close> of \<open>pipe.c\<close>). Reading gives the
  bytes copied to the caller, writing takes them as a list.
\<close>

definition filedup :: "nat \<Rightarrow> 'a file_state_scheme \<Rightarrow> (nat, 'a file_state_scheme) outcome" where
  "filedup f s =
     kbind (acquire LkFtable s) (\<lambda>_ s.
     if f_ref (ftable s ! f) < 1 then Panic ''filedup''
     else kbind (release LkFtable (upd_file f (\<lambda>r. r\<lparr>f_ref := f_ref r + 1\<rparr>) s)) (\<lambda>_ s. Ret f s))"

definition fileclose :: "nat \<Rightarrow> 'a file_state_scheme \<Rightarrow> (unit, 'a file_state_scheme) outcome" where
  "fileclose f s =
     kbind (acquire LkFtable s) (\<lambda>_ s.
     if f_ref (ftable s ! f) < 1 then Panic ''fileclose''
     else
       let s = upd_file f (\<lambda>r. r\<lparr>f_ref := f_ref r - 1\<rparr>) s
       in if 0 < f_ref (ftable s ! f) then release LkFtable s
          else
            let ff = ftable s ! f;
                s = upd_file f (\<lambda>r. r\<lparr>f_ref := 0, f_type := FD_NONE\<rparr>) s
            in kbind (release LkFtable s) (\<lambda>_ s.
               case f_type ff of
                 FD_PIPE \<Rightarrow> pipeclose (f_pipe ff) (f_writable ff) s
               | FD_INODE \<Rightarrow>
                   kbind (begin_op s) (\<lambda>_ s.
                   kbind (iput (f_ip ff) s) (\<lambda>_ s. end_op s))
               | FD_NONE \<Rightarrow> Ret () s))"

definition filestat :: "nat \<Rightarrow> 'a file_state_scheme \<Rightarrow> (fstat option, 'a file_state_scheme) outcome" where
  "filestat f s =
     (case f_type (ftable s ! f) of
        FD_INODE \<Rightarrow>
          kbind (ilock (Some (f_ip (ftable s ! f))) s) (\<lambda>_ s.
          let st = stati (f_ip (ftable s ! f)) s
          in kbind (iunlock (Some (f_ip (ftable s ! f))) s) (\<lambda>_ s. Ret (Some st) s))
      | _ \<Rightarrow> Ret None s)"

definition fileread :: "'a file_state_scheme devread \<Rightarrow> nat \<Rightarrow> int \<Rightarrow> 'a file_state_scheme \<Rightarrow>
    (int \<times> uchar list, 'a file_state_scheme) outcome" where
  "fileread dread f n s =
     (if \<not> f_readable (ftable s ! f) then Ret (-1, []) s
      else
        case f_type (ftable s ! f) of
          FD_PIPE \<Rightarrow> piperead (f_pipe (ftable s ! f)) n s
        | FD_INODE \<Rightarrow>
            kbind (ilock (Some (f_ip (ftable s ! f))) s) (\<lambda>_ s.
            kbind (readi dread (f_ip (ftable s ! f)) (f_off (ftable s ! f)) (word_of_int n) s) (\<lambda>r s.
            let s = (if 0 < fst r then upd_file f (\<lambda>h. h\<lparr>f_off := f_off h + word_of_int (fst r)\<rparr>) s else s)
            in kbind (iunlock (Some (f_ip (ftable s ! f))) s) (\<lambda>_ s. Ret r s)))
        | FD_NONE \<Rightarrow> Panic ''fileread'')"

definition write_max :: nat where
  "write_max = ((MAXOPBLOCKS - 1 - 1 - 2) div 2) * 512"

text \<open>The loop of \<open>filewrite\<close> over the bytes that are left; the result is whether all were written.\<close>

function filewrite_loop :: "'a file_state_scheme devwrite \<Rightarrow> nat \<Rightarrow> uchar list \<Rightarrow> 'a file_state_scheme \<Rightarrow>
    (bool, 'a file_state_scheme) outcome" where
  "filewrite_loop dwrite f src s =
     (if src = [] then Ret True s
      else
        let n1 = min (length src) write_max
        in kbind (begin_op s) (\<lambda>_ s.
           kbind (ilock (Some (f_ip (ftable s ! f))) s) (\<lambda>_ s.
           kbind (writei dwrite (f_ip (ftable s ! f)) (take n1 src) (f_off (ftable s ! f)) s) (\<lambda>r s.
           let s = (if 0 < r then upd_file f (\<lambda>h. h\<lparr>f_off := f_off h + word_of_int r\<rparr>) s else s)
           in kbind (iunlock (Some (f_ip (ftable s ! f))) s) (\<lambda>_ s.
              kbind (end_op s) (\<lambda>_ s.
              if r < 0 then Ret False s
              else if r \<noteq> int n1 then Panic ''short filewrite''
              else filewrite_loop dwrite f (drop n1 src) s))))))"
  by pat_completeness auto
termination
  by (relation "measure (\<lambda>(dwrite, f, src, s). length src)") (auto simp: write_max_def MAXOPBLOCKS_def)

definition filewrite :: "'a file_state_scheme devwrite \<Rightarrow> nat \<Rightarrow> uchar list \<Rightarrow> 'a file_state_scheme \<Rightarrow>
    (int, 'a file_state_scheme) outcome" where
  "filewrite dwrite f src s =
     (if \<not> f_writable (ftable s ! f) then Ret (-1) s
      else
        case f_type (ftable s ! f) of
          FD_PIPE \<Rightarrow> pipewrite (f_pipe (ftable s ! f)) src s
        | FD_INODE \<Rightarrow>
            kbind (filewrite_loop dwrite f src s) (\<lambda>ok s. Ret (if ok then int (length src) else -1) s)
        | FD_NONE \<Rightarrow> Panic ''filewrite'')"

text \<open>\<open>pipealloc\<close>: the read and the write end, or \<open>None\<close> after giving back what was allocated.\<close>

definition pipealloc :: "'a file_state_scheme \<Rightarrow> ((nat \<times> nat) option, 'a file_state_scheme) outcome" where
  "pipealloc s =
     kbind (filealloc s) (\<lambda>f0 s.
     case f0 of
       None \<Rightarrow> Ret None s
     | Some f0 \<Rightarrow>
         kbind (filealloc s) (\<lambda>f1 s.
         case f1 of
           None \<Rightarrow> kbind (fileclose f0 s) (\<lambda>_ s. Ret None s)
         | Some f1 \<Rightarrow>
             kbind (kalloc s) (\<lambda>p s.
             if p = 0 then
               kbind (fileclose f0 s) (\<lambda>_ s.
               kbind (fileclose f1 s) (\<lambda>_ s. Ret None s))
             else
               let s = upd_pipe p (\<lambda>r. r\<lparr>pi_readopen := True, pi_writeopen := True, pi_nwrite := 0, pi_nread := 0\<rparr>) s;
                   s = upd_file f0 (\<lambda>r. r\<lparr>f_type := FD_PIPE, f_readable := True, f_writable := False, f_pipe := p\<rparr>) s;
                   s = upd_file f1 (\<lambda>r. r\<lparr>f_type := FD_PIPE, f_readable := False, f_writable := True, f_pipe := p\<rparr>) s
               in Ret (Some (f0, f1)) s)))"

end
