(* ===== verification/Paging.thy ===== *)
theory Paging
  imports Proc_State Bytes
begin

text \<open>
  Page tables (\<open>vm.c\<close>, without \<open>loaduvm\<close>, which reads a file, and without the segment
  descriptors). Page directories and page tables are pages of the word store of the allocator;
  a pointer to an entry is its address and the null pointer is 0. The linker symbol \<open>data\<close> is
  an argument. The bytes of a page are those of its words, the least significant first.
\<close>

section \<open>Macros of mmu.h\<close>

definition PDX :: "uint32 \<Rightarrow> uint32" where "PDX va = drop_bit 22 va AND 0x3FF"
definition PTX :: "uint32 \<Rightarrow> uint32" where "PTX va = drop_bit 12 va AND 0x3FF"
definition PGADDR :: "uint32 \<Rightarrow> uint32 \<Rightarrow> uint32 \<Rightarrow> uint32" where
  "PGADDR d t off = push_bit 22 d OR push_bit 12 t OR off"

definition NPDENTRIES :: nat where "NPDENTRIES = 1024"

definition PTE_P :: uint32 where "PTE_P = 0x001"
definition PTE_W :: uint32 where "PTE_W = 0x002"
definition PTE_U :: uint32 where "PTE_U = 0x004"
definition PTE_ADDR :: "uint32 \<Rightarrow> uint32" where "PTE_ADDR pte = pte AND NOT 0xFFF"
definition PTE_FLAGS :: "uint32 \<Rightarrow> uint32" where "PTE_FLAGS pte = pte AND 0xFFF"

definition present :: "uint32 \<Rightarrow> bool" where
  "present pte \<longleftrightarrow> pte AND PTE_P \<noteq> 0"

section \<open>Bytes of the store\<close>

definition mem_byte :: "(uint32 \<Rightarrow> uint32) \<Rightarrow> uint32 \<Rightarrow> uchar" where
  "mem_byte m a = un32 (m (a AND NOT 3)) ! unat (a AND 3)"

definition set_byte :: "(uint32 \<Rightarrow> uint32) \<Rightarrow> uint32 \<Rightarrow> uchar \<Rightarrow> uint32 \<Rightarrow> uint32" where
  "set_byte m a c = m(a AND NOT 3 := le32 ((un32 (m (a AND NOT 3)))[unat (a AND 3) := c]))"

fun put_mem :: "(uint32 \<Rightarrow> uint32) \<Rightarrow> uint32 \<Rightarrow> uchar list \<Rightarrow> uint32 \<Rightarrow> uint32" where
  "put_mem m a [] = m"
| "put_mem m a (c # cs) = put_mem (set_byte m a c) (a + 1) cs"

text \<open>\<open>memmove(dst, src, PGSIZE)\<close> between two pages.\<close>

definition copy_page :: "(uint32 \<Rightarrow> uint32) \<Rightarrow> uint32 \<Rightarrow> uint32 \<Rightarrow> uint32 \<Rightarrow> uint32" where
  "copy_page m dst src = (\<lambda>a. if a div PGSIZE = dst div PGSIZE then m (a - dst + src) else m a)"

section \<open>Mapping pages\<close>

definition walkpgdir :: "uint32 \<Rightarrow> uint32 \<Rightarrow> bool \<Rightarrow> 'a kmem_state_scheme \<Rightarrow> (uint32, 'a kmem_state_scheme) outcome" where
  "walkpgdir pgdir va alloc s =
     (let pde = pgdir + 4 * PDX va
      in if present (mem s pde) then Ret (P2V (PTE_ADDR (mem s pde)) + 4 * PTX va) s
         else if \<not> alloc then Ret 0 s
         else
           kbind (kalloc s) (\<lambda>pgtab s.
           if pgtab = 0 then Ret 0 s
           else
             let s = s\<lparr>mem := memset_page (mem s) pgtab 0\<rparr>;
                 s = s\<lparr>mem := (mem s)(pde := V2P pgtab OR PTE_P OR PTE_W OR PTE_U)\<rparr>
             in Ret (pgtab + 4 * PTX va) s))"

text \<open>
  The endless loop of \<open>mappages\<close>, left when \<open>a\<close> reaches \<open>last\<close>. The first argument bounds the
  number of rounds; \<open>mappages\<close> passes the number of pages of the range.
\<close>

primrec mappages_loop :: "nat \<Rightarrow> uint32 \<Rightarrow> uint32 \<Rightarrow> uint32 \<Rightarrow> uint32 \<Rightarrow> uint32 \<Rightarrow> 'a kmem_state_scheme \<Rightarrow>
    (int, 'a kmem_state_scheme) outcome" where
  "mappages_loop 0 pgdir a lst pa perm s = Fault"
| "mappages_loop (Suc n) pgdir a lst pa perm s =
     kbind (walkpgdir pgdir a True s) (\<lambda>pte s.
     if pte = 0 then Ret (-1) s
     else if present (mem s pte) then Panic ''remap''
     else
       let s = s\<lparr>mem := (mem s)(pte := pa OR perm OR PTE_P)\<rparr>
       in if a = lst then Ret 0 s
          else mappages_loop n pgdir (a + PGSIZE) lst (pa + PGSIZE) perm s)"

definition mappages :: "uint32 \<Rightarrow> uint32 \<Rightarrow> uint32 \<Rightarrow> uint32 \<Rightarrow> uint32 \<Rightarrow> 'a kmem_state_scheme \<Rightarrow>
    (int, 'a kmem_state_scheme) outcome" where
  "mappages pgdir va sz pa perm s =
     (let a = PGROUNDDOWN va;
          lst = PGROUNDDOWN (va + sz - 1)
      in mappages_loop (Suc (unat ((lst - a) div PGSIZE))) pgdir a lst pa perm s)"

section \<open>Releasing pages\<close>

text \<open>The loop of \<open>deallocuvm\<close>; every round moves \<open>a\<close> up by at least a page.\<close>

primrec deallocuvm_loop :: "nat \<Rightarrow> uint32 \<Rightarrow> uint32 \<Rightarrow> uint32 \<Rightarrow> 'a kmem_state_scheme \<Rightarrow> (unit, 'a kmem_state_scheme) outcome" where
  "deallocuvm_loop 0 pgdir a oldsz s = Fault"
| "deallocuvm_loop (Suc n) pgdir a oldsz s =
     (if a < oldsz then
        kbind (walkpgdir pgdir a False s) (\<lambda>pte s.
        if pte = 0 then
          let a = PGADDR (PDX a + 1) 0 0 - PGSIZE
          in deallocuvm_loop n pgdir (a + PGSIZE) oldsz s
        else if present (mem s pte) then
          let pa = PTE_ADDR (mem s pte)
          in if pa = 0 then Panic ''kfree''
             else
               let v = P2V pa
               in kbind (kfree v s) (\<lambda>_ s.
                  deallocuvm_loop n pgdir (a + PGSIZE) oldsz (s\<lparr>mem := (mem s)(pte := 0)\<rparr>))
        else deallocuvm_loop n pgdir (a + PGSIZE) oldsz s)
      else Ret () s)"

definition deallocuvm :: "uint32 \<Rightarrow> uint32 \<Rightarrow> uint32 \<Rightarrow> 'a kmem_state_scheme \<Rightarrow> (uint32, 'a kmem_state_scheme) outcome" where
  "deallocuvm pgdir oldsz newsz s =
     (if oldsz \<le> newsz then Ret oldsz s
      else
        kbind (deallocuvm_loop (unat oldsz div 4096 + 2) pgdir (PGROUNDUP newsz) oldsz s) (\<lambda>_ s. Ret newsz s))"

definition freevm :: "uint32 \<Rightarrow> 'a kmem_state_scheme \<Rightarrow> (unit, 'a kmem_state_scheme) outcome" where
  "freevm pgdir s =
     (if pgdir = 0 then Panic ''freevm: no pgdir''
      else
        kbind (deallocuvm pgdir KERNBASE 0 s) (\<lambda>_ s.
        kbind (kfor [0..<NPDENTRIES] (\<lambda>i s.
                 let pde = mem s (pgdir + 4 * of_nat i)
                 in if present pde then kfree (P2V (PTE_ADDR pde)) s else Ret () s) s) (\<lambda>_ s.
        kfree pgdir s)))"

section \<open>The kernel part of a page table\<close>

record kmapping =
  km_virt :: uint32
  km_phys_start :: uint32
  km_phys_end :: uint32
  km_perm :: uint32

definition KERNLINK :: uint32 where "KERNLINK = KERNBASE + EXTMEM"

definition kmap :: "uint32 \<Rightarrow> kmapping list" where
  "kmap data =
     [\<lparr>km_virt = KERNBASE, km_phys_start = 0, km_phys_end = EXTMEM, km_perm = PTE_W\<rparr>,
      \<lparr>km_virt = KERNLINK, km_phys_start = V2P KERNLINK, km_phys_end = V2P data, km_perm = 0\<rparr>,
      \<lparr>km_virt = data, km_phys_start = V2P data, km_phys_end = PHYSTOP, km_perm = PTE_W\<rparr>,
      \<lparr>km_virt = DEVSPACE, km_phys_start = DEVSPACE, km_phys_end = 0, km_perm = PTE_W\<rparr>]"

fun setupkvm_loop :: "kmapping list \<Rightarrow> uint32 \<Rightarrow> 'a kmem_state_scheme \<Rightarrow> (uint32, 'a kmem_state_scheme) outcome" where
  "setupkvm_loop [] pgdir s = Ret pgdir s"
| "setupkvm_loop (k # ks) pgdir s =
     kbind (mappages pgdir (km_virt k) (km_phys_end k - km_phys_start k) (km_phys_start k) (km_perm k) s) (\<lambda>r s.
     if r < 0 then kbind (freevm pgdir s) (\<lambda>_ s. Ret 0 s)
     else setupkvm_loop ks pgdir s)"

definition setupkvm :: "uint32 \<Rightarrow> 'a kmem_state_scheme \<Rightarrow> (uint32, 'a kmem_state_scheme) outcome" where
  "setupkvm data s =
     kbind (kalloc s) (\<lambda>pgdir s.
     if pgdir = 0 then Ret 0 s
     else
       let s = s\<lparr>mem := memset_page (mem s) pgdir 0\<rparr>
       in if DEVSPACE < P2V PHYSTOP then Panic ''PHYSTOP too high''
          else setupkvm_loop (kmap data) pgdir s)"

section \<open>User memory\<close>

text \<open>The argument \<open>init\<close> is the memory at \<open>init\<close>, \<open>sz\<close> bytes; a null page faults in \<open>memset\<close>.\<close>

definition inituvm :: "uint32 \<Rightarrow> uchar list \<Rightarrow> 'a kmem_state_scheme \<Rightarrow> (unit, 'a kmem_state_scheme) outcome" where
  "inituvm pgdir init s =
     (if unat PGSIZE \<le> length init then Panic ''inituvm: more than a page''
      else
        kbind (kalloc s) (\<lambda>pg s.
        if pg = 0 then Fault
        else
          let s = s\<lparr>mem := memset_page (mem s) pg 0\<rparr>
          in kbind (mappages pgdir 0 PGSIZE (V2P pg) (PTE_W OR PTE_U) s) (\<lambda>_ s.
             Ret () (s\<lparr>mem := put_mem (mem s) pg init\<rparr>))))"

text \<open>The values of \<open>a\<close> in a loop \<open>for(; a < e; a += PGSIZE)\<close> that does not wrap around.\<close>

definition upages :: "uint32 \<Rightarrow> uint32 \<Rightarrow> uint32 list" where
  "upages a e = map (\<lambda>k. a + of_nat k * PGSIZE) [0..<(unat e - unat a + 4095) div 4096]"

fun allocuvm_loop :: "uint32 \<Rightarrow> uint32 \<Rightarrow> uint32 \<Rightarrow> uint32 list \<Rightarrow> 'a kmem_state_scheme \<Rightarrow> (uint32, 'a kmem_state_scheme) outcome" where
  "allocuvm_loop pgdir oldsz newsz [] s = Ret newsz s"
| "allocuvm_loop pgdir oldsz newsz (a # as) s =
     kbind (kalloc s) (\<lambda>pg s.
     if pg = 0 then kbind (deallocuvm pgdir newsz oldsz s) (\<lambda>_ s. Ret 0 s)
     else
       let s = s\<lparr>mem := memset_page (mem s) pg 0\<rparr>
       in kbind (mappages pgdir a PGSIZE (V2P pg) (PTE_W OR PTE_U) s) (\<lambda>r s.
          if r < 0 then
            kbind (deallocuvm pgdir newsz oldsz s) (\<lambda>_ s.
            kbind (kfree pg s) (\<lambda>_ s. Ret 0 s))
          else allocuvm_loop pgdir oldsz newsz as s))"

definition allocuvm :: "uint32 \<Rightarrow> uint32 \<Rightarrow> uint32 \<Rightarrow> 'a kmem_state_scheme \<Rightarrow> (uint32, 'a kmem_state_scheme) outcome" where
  "allocuvm pgdir oldsz newsz s =
     (if KERNBASE \<le> newsz then Ret 0 s
      else if newsz < oldsz then Ret oldsz s
      else allocuvm_loop pgdir oldsz newsz (upages (PGROUNDUP oldsz) newsz) s)"

definition clearpteu :: "uint32 \<Rightarrow> uint32 \<Rightarrow> 'a kmem_state_scheme \<Rightarrow> (unit, 'a kmem_state_scheme) outcome" where
  "clearpteu pgdir uva s =
     kbind (walkpgdir pgdir uva False s) (\<lambda>pte s.
     if pte = 0 then Panic ''clearpteu''
     else Ret () (s\<lparr>mem := (mem s)(pte := mem s pte AND NOT PTE_U)\<rparr>))"

fun copyuvm_loop :: "uint32 \<Rightarrow> uint32 \<Rightarrow> uint32 list \<Rightarrow> 'a kmem_state_scheme \<Rightarrow> (uint32, 'a kmem_state_scheme) outcome" where
  "copyuvm_loop pgdir d [] s = Ret d s"
| "copyuvm_loop pgdir d (i # is) s =
     kbind (walkpgdir pgdir i False s) (\<lambda>pte s.
     if pte = 0 then Panic ''copyuvm: pte should exist''
     else if \<not> present (mem s pte) then Panic ''copyuvm: page not present''
     else
       let pa = PTE_ADDR (mem s pte);
           flags = PTE_FLAGS (mem s pte)
       in kbind (kalloc s) (\<lambda>pg s.
          if pg = 0 then kbind (freevm d s) (\<lambda>_ s. Ret 0 s)
          else
            let s = s\<lparr>mem := copy_page (mem s) pg (P2V pa)\<rparr>
            in kbind (mappages d i PGSIZE (V2P pg) flags s) (\<lambda>r s.
               if r < 0 then
                 kbind (kfree pg s) (\<lambda>_ s. kbind (freevm d s) (\<lambda>_ s. Ret 0 s))
               else copyuvm_loop pgdir d is s)))"

definition copyuvm :: "uint32 \<Rightarrow> uint32 \<Rightarrow> uint32 \<Rightarrow> 'a kmem_state_scheme \<Rightarrow> (uint32, 'a kmem_state_scheme) outcome" where
  "copyuvm data pgdir sz s =
     kbind (setupkvm data s) (\<lambda>d s.
     if d = 0 then Ret 0 s
     else copyuvm_loop pgdir d (upages 0 sz) s)"

text \<open>\<open>uva2ka\<close> follows the result of \<open>walkpgdir\<close> without a test for the null pointer.\<close>

definition uva2ka :: "uint32 \<Rightarrow> uint32 \<Rightarrow> 'a kmem_state_scheme \<Rightarrow> (uint32, 'a kmem_state_scheme) outcome" where
  "uva2ka pgdir uva s =
     kbind (walkpgdir pgdir uva False s) (\<lambda>pte s.
     if pte = 0 then Fault
     else if \<not> present (mem s pte) then Ret 0 s
     else if mem s pte AND PTE_U = 0 then Ret 0 s
     else Ret (P2V (PTE_ADDR (mem s pte))) s)"

lemma page_offset: "va - PGROUNDDOWN va = va mod PGSIZE"
  using PGROUNDDOWN_split [of va] by (metis add_diff_cancel_left')

lemma page_rest_pos: "0 < unat (PGSIZE - (va - PGROUNDDOWN va))"
proof -
  have "va mod PGSIZE < PGSIZE"
    by (simp add: word_less_nat_alt unat_mod PGSIZE_def)
  then show ?thesis by (simp add: page_offset unat_sub_if' word_less_nat_alt)
qed

function copyout :: "uint32 \<Rightarrow> uint32 \<Rightarrow> uchar list \<Rightarrow> 'a kmem_state_scheme \<Rightarrow> (int, 'a kmem_state_scheme) outcome" where
  "copyout pgdir va p s =
     (if p = [] then Ret 0 s
      else
        let va0 = PGROUNDDOWN va
        in kbind (uva2ka pgdir va0 s) (\<lambda>pa0 s.
           if pa0 = 0 then Ret (-1) s
           else
             let n = min (unat (PGSIZE - (va - va0))) (length p);
                 s = s\<lparr>mem := put_mem (mem s) (pa0 + (va - va0)) (take n p)\<rparr>
             in copyout pgdir (va0 + PGSIZE) (drop n p) s))"
  by pat_completeness auto
termination
  by (relation "measure (\<lambda>(pgdir, va, p, s). length p)") (use page_rest_pos in auto)

declare copyout.simps [simp del]

section \<open>What a page directory maps\<close>

text \<open>The directory entry for an address, the page table it points to, and the page table entry.\<close>

definition pde_of :: "(uint32 \<Rightarrow> uint32) \<Rightarrow> uint32 \<Rightarrow> uint32 \<Rightarrow> uint32" where
  "pde_of m d va = m (d + 4 * PDX va)"

definition tab_of :: "(uint32 \<Rightarrow> uint32) \<Rightarrow> uint32 \<Rightarrow> uint32 \<Rightarrow> uint32" where
  "tab_of m d va = P2V (PTE_ADDR (pde_of m d va))"

definition pte_of :: "(uint32 \<Rightarrow> uint32) \<Rightarrow> uint32 \<Rightarrow> uint32 \<Rightarrow> uint32" where
  "pte_of m d va = (if present (pde_of m d va) then m (tab_of m d va + 4 * PTX va) else 0)"

definition pgdir_ok :: "'a kmem_state_scheme \<Rightarrow> uint32 \<Rightarrow> uint32 list \<Rightarrow> bool" where
  "pgdir_ok s d xs \<longleftrightarrow> free_pages s xs \<and> kmem_unlocked s \<and> good_page s d \<and> d \<notin> set xs \<and>
     (\<forall>va. present (pde_of (mem s) d va) \<longrightarrow>
        good_page s (tab_of (mem s) d va) \<and> tab_of (mem s) d va \<noteq> d \<and> tab_of (mem s) d va \<notin> set xs) \<and>
     (\<forall>va wa. present (pde_of (mem s) d va) \<longrightarrow> present (pde_of (mem s) d wa) \<longrightarrow>
        tab_of (mem s) d va = tab_of (mem s) d wa \<longrightarrow> PDX va = PDX wa)"

section \<open>Bits\<close>

lemma index_bits: "PDX v = drop_bit 10 (drop_bit 12 v)" "PTX v = take_bit 10 (drop_bit 12 v)"
proof -
  have m: "(0x3FF :: uint32) = mask 10" by (simp add: mask_eq_exp_minus_1)
  show "PDX v = drop_bit 10 (drop_bit 12 v)"
    unfolding PDX_def m by (rule bit_word_eqI) (auto simp: bit_simps dest: bit_imp_le_length)
  show "PTX v = take_bit 10 (drop_bit 12 v)"
    unfolding PTX_def m by (rule bit_word_eqI) (auto simp: bit_simps)
qed

lemma PDX_less: "unat (PDX va) < 1024" and PTX_less: "unat (PTX va) < 1024"
proof -
  have "unat (PDX va) = unat va div 4194304"
    by (simp add: index_bits drop_bit_eq_div unat_div div_mult2_eq [symmetric])
  then show "unat (PDX va) < 1024" using unsigned_less [where ?'a = nat, of va] by simp
  show "unat (PTX va) < 1024" by (simp add: index_bits take_bit_eq_mod unat_mod)
qed

lemma entry_addr:
  assumes "d mod PGSIZE = 0" "unat k < 1024"
  shows "(d + 4 * k) div PGSIZE = d div PGSIZE" "unat (d + 4 * k) = unat d + 4 * unat k"
proof -
  obtain q where q: "unat d = 4096 * q" using assms(1) by (auto simp: aligned_unat)
  have k: "unat (4 * k) = 4 * unat k" using assms(2) by (simp add: unat_word_ariths)
  have "q < 1048576" using q unsigned_less [where ?'a = nat, of d] by simp
  then have "unat d + unat (4 * k) < 2 ^ 32" using q k assms(2) by simp
  then show u: "unat (d + 4 * k) = unat d + 4 * unat k"
    by (subst unat_add_lem [THEN iffD1]) (simp_all add: k)
  show "(d + 4 * k) div PGSIZE = d div PGSIZE"
    using u q assms(2) by (simp add: word_unat_eq_iff unat_div PGSIZE_def)
qed

lemma entry_inj:
  assumes "d mod PGSIZE = 0" "e mod PGSIZE = 0" "unat k < 1024" "unat j < 1024" "d + 4 * k = e + 4 * j"
  shows "d = e \<and> k = j"
proof -
  have "d div PGSIZE = e div PGSIZE" using entry_addr(1) assms by metis
  then have "d = e" using assms(1,2) by (metis div_mult_mod_eq)
  moreover have "unat k = unat j"
    using entry_addr(2) [OF assms(1,3)] entry_addr(2) [OF assms(1,4)] assms(5) \<open>d = e\<close> by simp
  ultimately show ?thesis by (simp add: word_unat_eq_iff)
qed

lemma PTE_ADDR_PGROUNDDOWN: "PTE_ADDR x = PGROUNDDOWN x"
  by (simp add: PTE_ADDR_def PGROUNDDOWN_def PGSIZE_def)

lemma PTE_ADDR_or:
  assumes "p mod PGSIZE = 0" "f < PGSIZE"
  shows "PTE_ADDR (p OR f) = p"
proof -
  have p: "take_bit 12 p = 0" using assms(1) by (simp add: mod_PGSIZE)
  have f: "take_bit 12 f = f"
    using assms(2) by (simp flip: mod_PGSIZE add: word_unat_eq_iff unat_mod word_less_nat_alt)
  have "p AND NOT (mask 12) = p"
    using p PGROUNDDOWN_split [of p] by (simp add: PGROUNDDOWN_mask mod_PGSIZE)
  moreover have "f AND NOT (mask 12) = 0"
    by (subst f [symmetric]) (rule bit_eqI, simp add: bit_simps)
  ultimately show ?thesis
    by (simp add: PTE_ADDR_PGROUNDDOWN PGROUNDDOWN_mask bit.conj_disj_distrib2)
qed

lemma P2V_V2P [simp]: "P2V (V2P p) = p" "V2P (P2V p) = p"
  by (simp_all add: P2V_def V2P_def)

lemma V2P_aligned: "V2P p mod PGSIZE = 0 \<longleftrightarrow> p mod PGSIZE = 0"
proof -
  have "V2P p = p + 0x80000000" by (simp add: V2P_def KERNBASE_def)
  moreover have "4096 dvd (unat p + 0x80000000) mod 2 ^ 32 \<longleftrightarrow> 4096 dvd unat p"
    by (simp add: dvd_mod_iff dvd_add_left_iff)
  ultimately show ?thesis by (simp add: aligned_unat unat_word_ariths)
qed

lemma present_or: "present (x OR PTE_P)"
  by (simp add: present_def PTE_P_def bit.conj_disj_distrib2 word_ao_dist)

lemma page_index:
  "va div PGSIZE = wa div PGSIZE \<longleftrightarrow> PDX va = PDX wa \<and> PTX va = PTX wa"
proof -
  have "a = b \<longleftrightarrow> drop_bit 10 a = drop_bit 10 b \<and> take_bit 10 a = take_bit 10 b" for a b :: uint32
    by (metis bits_ident)
  from this [of "drop_bit 12 va" "drop_bit 12 wa"] show ?thesis by (simp only: index_bits div_PGSIZE)
qed


section \<open>Walking and writing entries\<close>

lemma good_page_aligned: "good_page s p \<Longrightarrow> p mod PGSIZE = 0"
  by (simp add: good_page_def)

lemma entry_page:
  "good_page s p \<Longrightarrow> (p + 4 * PDX va) div PGSIZE = p div PGSIZE"
  "good_page s p \<Longrightarrow> (p + 4 * PTX va) div PGSIZE = p div PGSIZE"
  by (rule entry_addr(1) [OF good_page_aligned PDX_less], assumption)
    (rule entry_addr(1) [OF good_page_aligned PTX_less], assumption)

lemma entry_nonzero: "good_page s p \<Longrightarrow> p + 4 * PTX va \<noteq> 0"
proof
  assume p: "good_page s p" "p + 4 * PTX va = 0"
  then have "p = 0 \<and> PTX va = 0"
    using entry_inj [of p 0 "PTX va" 0] good_page_aligned [OF p(1)] PTX_less [of va] by simp
  with p(1) good_page_nonzero show False by blast
qed

lemma pgdir_okD:
  assumes "pgdir_ok s d xs"
  shows "free_pages s xs" "kmem_unlocked s" "good_page s d" "d \<notin> set xs"
    "present (pde_of (mem s) d va) \<Longrightarrow> good_page s (tab_of (mem s) d va)"
    "present (pde_of (mem s) d va) \<Longrightarrow> tab_of (mem s) d va \<noteq> d"
    "present (pde_of (mem s) d va) \<Longrightarrow> tab_of (mem s) d va \<notin> set xs"
    "present (pde_of (mem s) d va) \<Longrightarrow> present (pde_of (mem s) d wa) \<Longrightarrow>
       tab_of (mem s) d va = tab_of (mem s) d wa \<Longrightarrow> PDX va = PDX wa"
  using assms unfolding pgdir_ok_def by blast+

text \<open>Writing the page table entry of a mapped directory entry.\<close>

lemma set_pte:
  fixes w :: uint32
  assumes ok: "pgdir_ok s d xs" and pr: "present (pde_of (mem s) d va)"
  defines "s' \<equiv> s\<lparr>mem := (mem s)(tab_of (mem s) d va + 4 * PTX va := w)\<rparr>"
  shows "pgdir_ok s' d xs" "pde_of (mem s') d = pde_of (mem s) d"
    "pte_of (mem s') d u = (if u div PGSIZE = va div PGSIZE then w else pte_of (mem s) d u)"
proof -
  let ?t = "tab_of (mem s) d va"
  have t: "good_page s ?t" "?t \<noteq> d" "?t \<notin> set xs" and d: "good_page s d"
    by (fact pgdir_okD [OF ok] pgdir_okD(5-7) [OF ok pr])+
  have page: "a \<noteq> ?t + 4 * PTX va" if "good_page s p" "p \<noteq> ?t" "a div PGSIZE = p div PGSIZE" for a p
    using that good_page_div_inj [OF that(1) t(1)] entry_page(2) [OF t(1)] by auto
  have pde: "pde_of (mem s') d u = pde_of (mem s) d u" for u
    using page [OF d t(2) [symmetric], of "d + 4 * PDX u"] entry_page(1) [OF d] by (simp add: s'_def pde_of_def)
  then show pdeE: "pde_of (mem s') d = pde_of (mem s) d" by blast
  have tab: "tab_of (mem s') d = tab_of (mem s) d" by (simp add: fun_eq_iff tab_of_def pde)
  have "free_pages s' xs"
    unfolding s'_def
  proof (rule free_pages_write)
    show "free_pages s xs" by (rule pgdir_okD [OF ok])
    fix x assume x: "x \<in> set xs"
    with pgdir_okD(1) [OF ok] t(3) have "good_page s x" "x \<noteq> ?t" by (auto simp: free_pages_def)
    from page [OF this] show "((mem s)(?t + 4 * PTX va := w)) x = mem s x" by simp
  qed
  moreover have "kmem_unlocked s'" using pgdir_okD(2) [OF ok] by (simp add: s'_def)
  moreover have g: "good_page s' = good_page s" by (simp add: s'_def)
  ultimately show "pgdir_ok s' d xs" using ok unfolding pgdir_ok_def pdeE tab g by blast
  show "pte_of (mem s') d u = (if u div PGSIZE = va div PGSIZE then w else pte_of (mem s) d u)"
  proof (cases "present (pde_of (mem s) d u)")
    case u: True
    then have tu: "good_page s (tab_of (mem s) d u)" by (rule pgdir_okD [OF ok])
    have same: "tab_of (mem s) d u + 4 * PTX u = ?t + 4 * PTX va \<longleftrightarrow> PDX u = PDX va \<and> PTX u = PTX va"
    proof
      assume "tab_of (mem s) d u + 4 * PTX u = ?t + 4 * PTX va"
      from entry_inj [OF good_page_aligned [OF tu] good_page_aligned [OF t(1)] PTX_less PTX_less this]
      show "PDX u = PDX va \<and> PTX u = PTX va" using pgdir_okD(8) [OF ok u pr] by blast
    qed (simp add: tab_of_def pde_of_def)
    have "pte_of (mem s') d u = mem s' (tab_of (mem s) d u + 4 * PTX u)" using u by (simp add: pte_of_def pde tab)
    also have "\<dots> = (if tab_of (mem s) d u + 4 * PTX u = ?t + 4 * PTX va then w else mem s (tab_of (mem s) d u + 4 * PTX u))"
      by (simp add: s'_def)
    also have "mem s (tab_of (mem s) d u + 4 * PTX u) = pte_of (mem s) d u" using u by (simp add: pte_of_def)
    finally show ?thesis unfolding same page_index .
  next
    case u: False
    then have "\<not> (PDX u = PDX va)" using pr by (auto simp: pde_of_def)
    with u show ?thesis by (simp add: pte_of_def pde page_index)
  qed
qed


text \<open>A new page table: all its entries are zero, so nothing is mapped by it yet.\<close>

lemma new_table:
  assumes ok: "pgdir_ok s d (t # xs)" and pr: "\<not> present (pde_of (mem s) d va)"
  defines "s' \<equiv> s\<lparr>freelist := mem s t, mem := (memset_page (mem s) t 0)(d + 4 * PDX va := V2P t OR PTE_P OR PTE_W OR PTE_U)\<rparr>"
  shows "pgdir_ok s' d xs" "present (pde_of (mem s') d va)" "tab_of (mem s') d va = t"
    "pte_of (mem s') d u = pte_of (mem s) d u"
    "a div PGSIZE \<noteq> d div PGSIZE \<Longrightarrow> a div PGSIZE \<noteq> t div PGSIZE \<Longrightarrow> mem s' a = mem s a"
    "present (pde_of (mem s) d v) \<Longrightarrow> present (pde_of (mem s') d v) \<and> tab_of (mem s') d v = tab_of (mem s) d v"
proof -
  let ?e = "V2P t OR PTE_P OR PTE_W OR PTE_U"
  have d: "good_page s d" "d \<noteq> t" using pgdir_okD(3,4) [OF ok] by auto
  have t: "good_page s t" "t \<notin> set xs" "distinct (t # xs)" using pgdir_okD(1) [OF ok] by (auto simp: free_pages_def)
  have dt: "d div PGSIZE \<noteq> t div PGSIZE" using good_page_div_inj [OF d(1) t(1)] d(2) by blast
  have keep: "mem s' a = mem s a" if "a div PGSIZE \<noteq> t div PGSIZE" "a \<noteq> d + 4 * PDX va" for a
    using that by (simp add: s'_def memset_page_def)
  have same: "d + 4 * PDX u = d + 4 * PDX va \<longleftrightarrow> PDX u = PDX va" for u
    using entry_inj [OF good_page_aligned [OF d(1)] good_page_aligned [OF d(1)] PDX_less PDX_less] by metis
  have pde: "pde_of (mem s') d u = (if PDX u = PDX va then ?e else pde_of (mem s) d u)" for u
    using keep [of "d + 4 * PDX u"] dt entry_page(1) [OF d(1)] same by (simp add: pde_of_def) (simp add: s'_def)
  have e: "present ?e" "PTE_ADDR ?e = V2P t"
  proof -
    show "present ?e" by (simp add: present_def PTE_P_def PTE_W_def PTE_U_def bit.conj_disj_distrib2)
    show "PTE_ADDR ?e = V2P t"
      using PTE_ADDR_or [of "V2P t" 7] good_page_aligned [OF t(1)] V2P_aligned [of t]
      by (simp add: PTE_P_def PTE_W_def PTE_U_def) (simp add: PGSIZE_def)
  qed
  have tab: "tab_of (mem s') d u = (if PDX u = PDX va then t else tab_of (mem s) d u)" for u
    using e by (simp add: tab_of_def pde)
  show "present (pde_of (mem s') d va)" "tab_of (mem s') d va = t" by (simp_all add: pde tab e)
  show "a div PGSIZE \<noteq> d div PGSIZE \<Longrightarrow> a div PGSIZE \<noteq> t div PGSIZE \<Longrightarrow> mem s' a = mem s a"
    using keep [of a] entry_page(1) [OF d(1), of va] by auto
  have pr': "\<not> present (pde_of (mem s) d u)" if "PDX u = PDX va" for u using pr that by (simp add: pde_of_def)
  then show "present (pde_of (mem s) d v) \<Longrightarrow> present (pde_of (mem s') d v) \<and> tab_of (mem s') d v = tab_of (mem s) d v"
    by (auto simp: pde tab)
  have otab: "good_page s (tab_of (mem s) d u)" "tab_of (mem s) d u \<noteq> t" "tab_of (mem s) d u \<noteq> d" "tab_of (mem s) d u \<notin> set xs"
    if "present (pde_of (mem s) d u)" for u
    using pgdir_okD(5-7) [OF ok that] by auto
  show "pte_of (mem s') d u = pte_of (mem s) d u"
  proof (cases "PDX u = PDX va")
    case True
    have "mem s' (t + 4 * PTX u) = 0"
      using entry_page(2) [OF t(1), of u] entry_page(1) [OF d(1), of va] dt by (auto simp: s'_def memset_page_def)
    with True pr' [OF True] show ?thesis by (simp add: pte_of_def pde tab e)
  next
    case False
    have "mem s' (tab_of (mem s) d u + 4 * PTX u) = mem s (tab_of (mem s) d u + 4 * PTX u)"
      if u: "present (pde_of (mem s) d u)"
    proof (rule keep)
      have p: "(tab_of (mem s) d u + 4 * PTX u) div PGSIZE = tab_of (mem s) d u div PGSIZE"
        by (rule entry_page(2) [OF otab(1) [OF u]])
      then show "(tab_of (mem s) d u + 4 * PTX u) div PGSIZE \<noteq> t div PGSIZE"
        using good_page_div_inj [OF otab(1) [OF u] t(1)] otab(2) [OF u] by auto
      show "tab_of (mem s) d u + 4 * PTX u \<noteq> d + 4 * PDX va"
        using p entry_page(1) [OF d(1), of va] good_page_div_inj [OF otab(1) [OF u] d(1)] otab(3) [OF u] by auto
    qed
    with False show ?thesis by (simp add: pte_of_def pde tab)
  qed
  have g: "good_page s' = good_page s" by (simp add: s'_def)
  have "free_pages s' xs"
  proof -
    have "mem s' x = mem s x" if "x \<in> set xs" for x
    proof -
      have x: "good_page s x" "x \<noteq> t" "x \<noteq> d"
        using pgdir_okD(1,4) [OF ok] t(2) that by (auto simp: free_pages_def)
      show ?thesis
        using keep [of x] good_page_div_inj [OF x(1) t(1)] good_page_div_inj [OF x(1) d(1)] entry_page(1) [OF d(1), of va] x by auto
    qed
    then show ?thesis
      using free_pages_write [OF free_pages_kalloc(3) [OF pgdir_okD(1) [OF ok]], of "mem s'"] by (simp add: s'_def)
  qed
  moreover have "kmem_unlocked s'" using pgdir_okD(2) [OF ok] by (simp add: s'_def)
  moreover have "d \<notin> set xs" using pgdir_okD(4) [OF ok] by simp
  moreover have "good_page s (tab_of (mem s') d u)" "tab_of (mem s') d u \<noteq> d" "tab_of (mem s') d u \<notin> set xs"
    if "present (pde_of (mem s') d u)" for u
    using that otab [of u] t d by (auto simp: pde tab split: if_splits)
  moreover have "PDX u = PDX w" if "present (pde_of (mem s') d u)" "present (pde_of (mem s') d w)" "tab_of (mem s') d u = tab_of (mem s') d w" for u w
    using that pgdir_okD(8) [OF ok, of u w] otab(2) by (auto simp: pde tab split: if_splits)
  ultimately show "pgdir_ok s' d xs" using d(1) unfolding pgdir_ok_def g by blast
qed


section \<open>Mapping a range\<close>

text \<open>The pages a page directory consists of, by number.\<close>

definition table_pages :: "(uint32 \<Rightarrow> uint32) \<Rightarrow> uint32 \<Rightarrow> uint32 set" where
  "table_pages m d = insert (d div PGSIZE) ((\<lambda>u. tab_of m d u div PGSIZE) ` {u. present (pde_of m d u)})"

text \<open>Only the pages of the directory change, and it takes pages from the free list only.\<close>

definition vm_step :: "uint32 \<Rightarrow> 'a kmem_state_scheme \<Rightarrow> uint32 list \<Rightarrow> 'a kmem_state_scheme \<Rightarrow> uint32 list \<Rightarrow> bool" where
  "vm_step d s xs s' ys \<longleftrightarrow> pgdir_ok s' d ys \<and> set ys \<subseteq> set xs \<and> table_pages (mem s) d \<subseteq> table_pages (mem s') d \<and>
     (\<forall>a. a div PGSIZE \<notin> table_pages (mem s') d \<longrightarrow> mem s' a = mem s a)"

lemma table_pagesI: "present (pde_of m d u) \<Longrightarrow> tab_of m d u div PGSIZE \<in> table_pages m d" "d div PGSIZE \<in> table_pages m d"
  by (simp_all add: table_pages_def)

lemma vm_step_trans: "vm_step d s xs s1 ys \<Longrightarrow> vm_step d s1 ys s2 zs \<Longrightarrow> vm_step d s xs s2 zs"
  unfolding vm_step_def by (metis subset_trans subsetD)

lemma vm_step_refl: "pgdir_ok s d xs \<Longrightarrow> vm_step d s xs s xs"
  by (simp add: vm_step_def)

lemma walkpgdir_alloc:
  assumes ok: "pgdir_ok s d xs"
  obtains (full) "xs = []" "walkpgdir d va True s = Ret 0 s"
    | (entry) s' ys where "walkpgdir d va True s = Ret (tab_of (mem s') d va + 4 * PTX va) s'"
        "vm_step d s xs s' ys" "present (pde_of (mem s') d va)" "\<And>u. pte_of (mem s') d u = pte_of (mem s) d u"
proof (cases "present (pde_of (mem s) d va)")
  case True
  have "walkpgdir d va True s = Ret (tab_of (mem s) d va + 4 * PTX va) s"
    using True by (simp add: walkpgdir_def Let_def pde_of_def tab_of_def)
  from entry [OF this vm_step_refl [OF ok] True] show thesis by blast
next
  case False
  show thesis
  proof (cases xs)
    case Nil
    then have "freelist s = 0" using pgdir_okD(1) [OF ok] by (simp add: free_pages_def)
    with False Nil show thesis
      by (intro full) (simp_all add: walkpgdir_def Let_def pde_of_def kalloc_Ret pgdir_okD(2) [OF ok])
  next
    case (Cons t ys)
    let ?s = "s\<lparr>freelist := mem s t, mem := (memset_page (mem s) t 0)(d + 4 * PDX va := V2P t OR PTE_P OR PTE_W OR PTE_U)\<rparr>"
    note new = new_table [OF ok [unfolded Cons] False]
    have "freelist s = t" "t \<noteq> 0" using free_pages_kalloc [OF pgdir_okD(1) [OF ok, unfolded Cons]] by simp_all
    then have walk: "walkpgdir d va True s = Ret (tab_of (mem ?s) d va + 4 * PTX va) ?s"
      unfolding new(3) using False by (simp add: walkpgdir_def Let_def pde_of_def kalloc_Ret pgdir_okD(2) [OF ok])
    have sub: "table_pages (mem s) d \<subseteq> table_pages (mem ?s) d"
    proof
      fix x assume "x \<in> table_pages (mem s) d"
      then consider "x = d div PGSIZE" | u where "x = tab_of (mem s) d u div PGSIZE" "present (pde_of (mem s) d u)"
        by (auto simp: table_pages_def)
      then show "x \<in> table_pages (mem ?s) d"
        by cases (use table_pagesI(2) new(6) table_pagesI(1) in metis)+
    qed
    have "t div PGSIZE \<in> table_pages (mem ?s) d"
      using table_pagesI(1) [OF new(2)] unfolding new(3) .
    then have frame: "mem ?s a = mem s a" if "a div PGSIZE \<notin> table_pages (mem ?s) d" for a
      using new(5) [of a] table_pagesI(2) [of d "mem ?s"] that by metis
    have "vm_step d s xs ?s ys"
      unfolding vm_step_def using new(1) sub frame Cons set_subset_Cons by metis
    from entry [OF walk this new(2,4)] show thesis .
  qed
qed


lemma vm_step_set_pte:
  assumes "pgdir_ok s d xs" "present (pde_of (mem s) d va)"
  shows "vm_step d s xs (s\<lparr>mem := (mem s)(tab_of (mem s) d va + 4 * PTX va := w)\<rparr>) xs"
proof -
  let ?s = "s\<lparr>mem := (mem s)(tab_of (mem s) d va + 4 * PTX va := w)\<rparr>"
  note set = set_pte [OF assms, of w]
  have "tab_of (mem ?s) d = tab_of (mem s) d"
  proof
    fix u
    have "tab_of (mem ?s) d u = P2V (PTE_ADDR (pde_of (mem ?s) d u))" by (rule tab_of_def)
    also have "\<dots> = tab_of (mem s) d u" unfolding set(2) by (rule tab_of_def [symmetric])
    finally show "tab_of (mem ?s) d u = tab_of (mem s) d u" .
  qed
  then have pages: "table_pages (mem ?s) d = table_pages (mem s) d" by (simp only: table_pages_def set(2))
  have "mem ?s a = mem s a" if "a div PGSIZE \<notin> table_pages (mem s) d" for a
    using that table_pagesI(1) [OF assms(2)] entry_page(2) [OF pgdir_okD(5) [OF assms], of va] by auto
  then show ?thesis unfolding vm_step_def pages using set(1) by blast
qed

lemma nth_page: "unat ((a + of_nat j * PGSIZE) div PGSIZE) = (unat a div 4096 + j) mod 1048576"
proof -
  have d: "unat (x div PGSIZE) = unat x div 4096" for x by (simp add: unat_div PGSIZE_def)
  have "unat (a + of_nat j * PGSIZE) = (unat a + j * 4096) mod 4294967296"
    by (simp add: unat_word_ariths unat_of_nat PGSIZE_def mod_simps)
  also have "\<dots> div 4096 = (unat a + j * 4096) div 4096 mod 1048576"
    using mod_mult2_eq [of "unat a + j * 4096" 4096 1048576] by simp
  finally show ?thesis by (simp add: d add.commute)
qed

lemma nth_page_inj:
  assumes "(a + of_nat j * PGSIZE) div PGSIZE = (a + of_nat k * PGSIZE) div PGSIZE" "j < 1048576" "k < 1048576"
  shows "j = k"
proof -
  have "(unat a div 4096 + j) mod 1048576 = (unat a div 4096 + k) mod 1048576"
    using assms(1) nth_page [of a j] nth_page [of a k] by simp
  then obtain q1 q2 where "j + 1048576 * q1 = k + 1048576 * q2" by (auto simp: nat_mod_eq_iff)
  then have "(j + 1048576 * q1) mod 1048576 = (k + 1048576 * q2) mod 1048576" by simp
  then show ?thesis using assms(2,3) by simp
qed

text \<open>The mappings after the first \<open>k\<close> pages from \<open>a\<close> are mapped to the pages from \<open>pa\<close>.\<close>

definition mapped :: "uint32 \<Rightarrow> uint32 \<Rightarrow> uint32 \<Rightarrow> nat \<Rightarrow> (uint32 \<Rightarrow> uint32) \<Rightarrow> (uint32 \<Rightarrow> uint32) \<Rightarrow> bool" where
  "mapped a pa perm k old new \<longleftrightarrow>
     (\<forall>j<k. \<forall>u. u div PGSIZE = (a + of_nat j * PGSIZE) div PGSIZE \<longrightarrow> new u = (pa + of_nat j * PGSIZE) OR perm OR PTE_P) \<and>
     (\<forall>u. (\<forall>j<k. u div PGSIZE \<noteq> (a + of_nat j * PGSIZE) div PGSIZE) \<longrightarrow> new u = old u)"

text \<open>One round of the loop.\<close>

lemma map_one:
  assumes ok: "pgdir_ok s d xs" and np: "\<not> present (pte_of (mem s) d a)"
  obtains (full) "xs = []" "mappages_loop (Suc n) d a lst pa perm s = Ret (-1) s"
    | (entry) s' ys where
        "mappages_loop (Suc n) d a lst pa perm s =
           (if a = lst then Ret 0 s' else mappages_loop n d (a + PGSIZE) lst (pa + PGSIZE) perm s')"
        "vm_step d s xs s' ys"
        "\<And>u. pte_of (mem s') d u = (if u div PGSIZE = a div PGSIZE then pa OR perm OR PTE_P else pte_of (mem s) d u)"
  using ok
proof (cases rule: walkpgdir_alloc [where va = a])
  case full
  with that(1) show ?thesis by simp
next
  case (entry s1 ys)
  let ?w = "pa OR perm OR PTE_P"
  let ?s = "s1\<lparr>mem := (mem s1)(tab_of (mem s1) d a + 4 * PTX a := ?w)\<rparr>"
  have ok1: "pgdir_ok s1 d ys" using entry(2) by (simp add: vm_step_def)
  have "mem s1 (tab_of (mem s1) d a + 4 * PTX a) = pte_of (mem s) d a"
    using entry(3) entry(4) [of a] by (simp add: pte_of_def)
  with np entry_nonzero [OF pgdir_okD(5) [OF ok1 entry(3)], of a] entry(1)
  have run: "mappages_loop (Suc n) d a lst pa perm s =
      (if a = lst then Ret 0 ?s else mappages_loop n d (a + PGSIZE) lst (pa + PGSIZE) perm ?s)"
    by (simp add: Let_def)
  show ?thesis
    by (rule that(2) [OF run vm_step_trans [OF entry(2) vm_step_set_pte [OF ok1 entry(3)]]])
      (simp only: set_pte(3) [OF ok1 entry(3)] entry(4))
qed

lemma mapped_0: "mapped a pa perm 0 f f"
  by (simp add: mapped_def)

lemma mapped_Suc:
  assumes one: "\<And>u. g u = (if u div PGSIZE = a div PGSIZE then pa OR perm OR PTE_P else f u)"
    and rest: "mapped (a + PGSIZE) (pa + PGSIZE) perm k g h" and k: "k < 1048576"
  shows "mapped a pa perm (Suc k) f h"
proof -
  have shift: "b + PGSIZE + of_nat j * PGSIZE = b + of_nat (Suc j) * PGSIZE" for b and j :: nat
    by (simp add: algebra_simps)
  have new: "h u = (pa + of_nat (Suc j) * PGSIZE) OR perm OR PTE_P"
    if "j < k" "u div PGSIZE = (a + of_nat (Suc j) * PGSIZE) div PGSIZE" for u j
    using rest that unfolding mapped_def shift by blast
  have old: "h u = g u" if "\<And>j. j < k \<Longrightarrow> u div PGSIZE \<noteq> (a + of_nat (Suc j) * PGSIZE) div PGSIZE" for u
    using rest that unfolding mapped_def shift by blast
  have first: "h u = pa OR perm OR PTE_P" if "u div PGSIZE = a div PGSIZE" for u
  proof -
    have "u div PGSIZE \<noteq> (a + of_nat (Suc j) * PGSIZE) div PGSIZE" if "j < k" for j
      using nth_page_inj [of a 0 "Suc j"] \<open>u div PGSIZE = a div PGSIZE\<close> that k by auto
    from old [OF this] one [of u] that show ?thesis by simp
  qed
  show ?thesis
    unfolding mapped_def
  proof (intro conjI allI impI)
    fix j u assume "j < Suc k" "u div PGSIZE = (a + of_nat j * PGSIZE) div PGSIZE"
    then show "h u = (pa + of_nat j * PGSIZE) OR perm OR PTE_P"
      using first new by (cases j) simp_all
  next
    fix u assume u: "\<forall>j<Suc k. u div PGSIZE \<noteq> (a + of_nat j * PGSIZE) div PGSIZE"
    then have "h u = g u" using old [of u] by blast
    moreover have "u div PGSIZE \<noteq> a div PGSIZE" using u [rule_format, of 0] by simp
    ultimately show "h u = f u" using one by simp
  qed
qed

lemma mappages_loop_maps:
  assumes "pgdir_ok s d xs" "\<forall>j\<le>n. \<not> present (pte_of (mem s) d (a + of_nat j * PGSIZE))" "n < 1048575"
  shows "\<exists>r s' ys k. mappages_loop (Suc n) d a (a + of_nat n * PGSIZE) pa perm s = Ret r s' \<and> vm_step d s xs s' ys \<and>
    (r = 0 \<and> k = Suc n \<or> r = -1 \<and> ys = [] \<and> k \<le> n) \<and> mapped a pa perm k (pte_of (mem s) d) (pte_of (mem s') d)"
  using assms
proof (induction n arbitrary: s xs a pa)
  case 0
  have np: "\<not> present (pte_of (mem s) d a)" using 0(2) [rule_format, of 0] by simp
  from 0(1) np show ?case
  proof (cases rule: map_one [where n = 0 and lst = "a + of_nat 0 * PGSIZE" and pa = pa and perm = perm])
    case full
    with 0(1) show ?thesis by (intro exI [of _ "-1"] exI [of _ s] exI [of _ "[]"] exI [of _ 0]) (simp add: mapped_0 vm_step_refl)
  next
    case (entry s' ys)
    with mapped_Suc [OF entry(3) mapped_0] show ?thesis
      by (intro exI [of _ 0] exI [of _ s'] exI [of _ ys] exI [of _ "Suc 0"]) simp
  qed
next
  case (Suc n)
  have np: "\<not> present (pte_of (mem s) d a)" using Suc.prems(2) [rule_format, of 0] by simp
  let ?lst = "a + of_nat (Suc n) * PGSIZE"
  have lst: "?lst = (a + PGSIZE) + of_nat n * PGSIZE" by (simp add: algebra_simps)
  have far: "(a + of_nat (Suc j) * PGSIZE) div PGSIZE \<noteq> a div PGSIZE" if "j \<le> n" for j
    using nth_page_inj [of a "Suc j" 0] that Suc.prems(3) by auto
  from Suc.prems(1) np show ?case
  proof (cases rule: map_one [where n = "Suc n" and lst = ?lst and pa = pa and perm = perm])
    case full
    with Suc.prems(1) show ?thesis
      by (intro exI [of _ "-1"] exI [of _ s] exI [of _ "[]"] exI [of _ 0]) (simp add: mapped_0 vm_step_refl del: mappages_loop.simps)
  next
    case (entry s1 ys)
    have "a \<noteq> ?lst" using far [of n] by auto
    with entry(1) have run: "mappages_loop (Suc (Suc n)) d a ?lst pa perm s = mappages_loop (Suc n) d (a + PGSIZE) ?lst (pa + PGSIZE) perm s1"
      by (simp del: mappages_loop.simps)
    have ok1: "pgdir_ok s1 d ys" using entry(2) by (simp add: vm_step_def)
    have "\<not> present (pte_of (mem s1) d (a + PGSIZE + of_nat j * PGSIZE))" if "j \<le> n" for j
    proof -
      have j: "a + PGSIZE + of_nat j * PGSIZE = a + of_nat (Suc j) * PGSIZE" by (simp add: algebra_simps)
      show ?thesis unfolding j using entry(3) far [OF that] Suc.prems(2) [rule_format, of "Suc j"] that by simp
    qed
    with Suc.IH [OF ok1, of "a + PGSIZE" "pa + PGSIZE"] Suc.prems(3)
    obtain r s' zs k where rec: "mappages_loop (Suc n) d (a + PGSIZE) (a + PGSIZE + of_nat n * PGSIZE) (pa + PGSIZE) perm s1 = Ret r s'"
        "vm_step d s1 ys s' zs" "r = 0 \<and> k = Suc n \<or> r = -1 \<and> zs = [] \<and> k \<le> n"
        "mapped (a + PGSIZE) (pa + PGSIZE) perm k (pte_of (mem s1) d) (pte_of (mem s') d)"
      by (auto simp del: mappages_loop.simps)
    have "k < 1048576" using rec(3) Suc.prems(3) by auto
    note m = mapped_Suc [OF entry(3) rec(4) this]
    have "mappages_loop (Suc (Suc n)) d a ?lst pa perm s = Ret r s'" unfolding run unfolding lst by (rule rec(1))
    moreover have "r = 0 \<and> Suc k = Suc (Suc n) \<or> r = -1 \<and> zs = [] \<and> Suc k \<le> Suc n" using rec(3) by auto
    ultimately show ?thesis using m vm_step_trans [OF entry(2) rec(2)] by blast
  qed
qed


lemma aligned_plus_less:
  assumes "p mod PGSIZE = 0" "r < PGSIZE"
  shows "PGROUNDDOWN (p + r) = p"
proof -
  have "take_bit 12 p = 0" "take_bit 12 r = r"
    using assms by (simp_all flip: mod_PGSIZE add: word_unat_eq_iff unat_mod word_less_nat_alt)
  then have "\<not> (bit p n \<and> bit r n)" for n
    by (metis bit_take_bit_iff bit_0_eq bot_apply bot_bool_def)
  then have "p + r = p OR r" by (intro disjunctive_add_eq_or bit_word_eqI) (auto simp: bit_simps)
  then show ?thesis using PTE_ADDR_or [OF assms] by (simp add: PTE_ADDR_PGROUNDDOWN)
qed

lemma aligned_pages: "p mod PGSIZE = 0 \<Longrightarrow> (p + of_nat k * PGSIZE) mod PGSIZE = 0"
proof -
  assume p: "p mod PGSIZE = 0"
  have "4096 dvd (unat p + k * 4096) mod 4294967296"
    using p by (simp add: aligned_unat dvd_mod)
  then show ?thesis by (simp add: aligned_unat unat_word_ariths unat_of_nat mod_simps) (simp add: PGSIZE_def mod_simps)
qed

lemma mappages_rounds:
  assumes "va mod PGSIZE = 0" "n < 1048576"
  shows "mappages d va (of_nat (Suc n) * PGSIZE) pa perm s = mappages_loop (Suc n) d va (va + of_nat n * PGSIZE) pa perm s"
proof -
  have 1: "va + of_nat (Suc n) * PGSIZE - 1 = (va + of_nat n * PGSIZE) + (PGSIZE - 1)" by (simp add: algebra_simps)
  have 2: "PGROUNDDOWN ((va + of_nat n * PGSIZE) + (PGSIZE - 1)) = va + of_nat n * PGSIZE"
    by (rule aligned_plus_less [OF aligned_pages [OF assms(1)]]) (simp add: PGSIZE_def)
  have 3: "PGROUNDDOWN va = va" using aligned_plus_less [OF assms(1), of 0] by (simp add: PGSIZE_def)
  have 4: "unat ((va + of_nat n * PGSIZE - va) div PGSIZE) = n"
    using nth_page [of 0 n] assms(2) by simp
  show ?thesis unfolding mappages_def Let_def 1 2 3 4 by (rule refl)
qed

lemma mappages_remap:
  assumes "pgdir_ok s d xs" "present (pte_of (mem s) d (PGROUNDDOWN va))"
  shows "mappages d va sz pa perm s = Panic ''remap''"
proof -
  let ?a = "PGROUNDDOWN va"
  have p: "present (pde_of (mem s) d ?a)" using assms(2) by (auto simp: pte_of_def present_def split: if_splits)
  then have "walkpgdir d ?a True s = Ret (tab_of (mem s) d ?a + 4 * PTX ?a) s"
    by (simp add: walkpgdir_def Let_def pde_of_def tab_of_def)
  moreover have "tab_of (mem s) d ?a + 4 * PTX ?a \<noteq> 0" by (rule entry_nonzero [OF pgdir_okD(5) [OF assms(1) p]])
  ultimately show ?thesis using assms(2) p by (simp add: mappages_def Let_def pte_of_def)
qed

section \<open>The loops end\<close>

lemma acquire_no_Fault: "acquire l s \<noteq> Fault" "release l s \<noteq> Fault"
  by (auto simp: acquire_def release_def split: if_splits)

lemma kalloc_no_Fault: "kalloc s \<noteq> Fault"
  by (auto simp: kalloc_def Let_def kbind_eq_Fault acquire_no_Fault split: if_splits)

lemma kfree_no_Fault: "kfree v s \<noteq> Fault"
  by (auto simp: kfree_def Let_def kbind_eq_Fault acquire_no_Fault split: if_splits)


lemma walkpgdir_no_Fault: "walkpgdir d va alloc s \<noteq> Fault"
  by (auto simp: walkpgdir_def Let_def kbind_eq_Fault kalloc_no_Fault split: if_splits)

lemma mappages_loop_ends:
  assumes "a mod PGSIZE = 0" "lst mod PGSIZE = 0" "n = unat ((lst - a) div PGSIZE)"
  shows "mappages_loop (Suc n) d a lst pa perm s \<noteq> Fault"
  using assms
proof (induction n arbitrary: a pa s)
  case 0
  then obtain p q where pq: "unat lst = 4096 * p" "unat a = 4096 * q" by (auto simp: aligned_unat dvd_def)
  have "unat (lst - a) < 4096" using 0(3) by (simp add: unat_div PGSIZE_def)
  moreover have "q < 1048576" using pq(2) unsigned_less [where ?'a = nat, of a] by simp
  ultimately have "p = q" using pq by (auto simp: unat_sub_if' split: if_splits)
  then have "lst = a" using pq by (simp add: word_unat_eq_iff)
  then show ?case by (auto simp: kbind_eq_Fault walkpgdir_no_Fault Let_def split: if_splits)
next
  case (Suc n)
  have n: "unat (lst - a) div 4096 = Suc n" using Suc.prems(3) by (simp add: unat_div PGSIZE_def)
  have sub: "unat (x - PGSIZE) = unat x - 4096" if "4096 \<le> unat x" for x :: uint32
    using that by (simp add: unat_sub_if' PGSIZE_def)
  have "4096 \<le> unat (lst - a)" using n by (cases "unat (lst - a) < 4096") simp_all
  from sub [OF this] have "unat (lst - (a + PGSIZE)) = unat (lst - a) - 4096"
    by (simp only: diff_diff_eq)
  moreover have "unat (x div PGSIZE) = unat x div 4096" for x :: uint32 by (simp add: unat_div PGSIZE_def)
  ultimately have n': "n = unat ((lst - (a + PGSIZE)) div PGSIZE)" using n by simp
  have "(a + PGSIZE) mod PGSIZE = 0" using Suc.prems(1) aligned_pages [of a 1] by simp
  note IH = Suc.IH [OF this Suc.prems(2) n']
  show ?case
    by (subst mappages_loop.simps(2)) (use IH in \<open>auto simp: kbind_eq_Fault walkpgdir_no_Fault Let_def simp del: mappages_loop.simps split: if_splits\<close>)
qed

lemma mappages_no_Fault: "mappages d va sz pa perm s \<noteq> Fault"
  by (simp only: mappages_def Let_def) (rule mappages_loop_ends [OF PGROUNDDOWN_aligned PGROUNDDOWN_aligned refl])

lemma next_table:
  assumes "a mod PGSIZE = 0" "unat a < 0x80000000"
  shows "PGADDR (PDX a + 1) 0 0 mod PGSIZE = 0" "unat a + 4096 \<le> unat (PGADDR (PDX a + 1) 0 0)"
proof -
  have "unat (PDX a) = unat a div 4194304"
    by (simp add: index_bits drop_bit_eq_div unat_div div_mult2_eq [symmetric])
  moreover have "unat a div 4194304 < 512" using assms(2) by simp
  ultimately have "unat (PGADDR (PDX a + 1) 0 0) = (unat a div 4194304 + 1) * 4194304"
    by (simp add: PGADDR_def push_bit_eq_mult unat_word_ariths)
  moreover obtain q where "unat a = 4096 * q" using assms(1) by (auto simp: aligned_unat)
  ultimately show "PGADDR (PDX a + 1) 0 0 mod PGSIZE = 0" "unat a + 4096 \<le> unat (PGADDR (PDX a + 1) 0 0)"
    by (simp_all add: aligned_unat)
qed

lemma deallocuvm_loop_ends:
  assumes "a mod PGSIZE = 0" "oldsz \<le> KERNBASE" "unat oldsz \<le> unat a + 4096 * n"
  shows "deallocuvm_loop (Suc n) d a oldsz s \<noteq> Fault"
  using assms(1,3)
proof (induction n arbitrary: a s)
  case 0
  then have "\<not> a < oldsz" by (simp add: word_less_nat_alt)
  then show ?case by simp
next
  case (Suc n)
  show ?case
  proof (cases "a < oldsz")
    case True
    then have a: "unat a < 0x80000000" using assms(2) by (simp add: word_less_nat_alt word_le_nat_alt KERNBASE_def)
    have 1: "deallocuvm_loop (Suc n) d (a + PGSIZE) oldsz s \<noteq> Fault" for s :: "'a kmem_state_scheme"
      using Suc.IH [of "a + PGSIZE" s] Suc.prems a by (simp add: page_add aligned_add del: deallocuvm_loop.simps)
    have 2: "deallocuvm_loop (Suc n) d (PGADDR (PDX a + 1) 0 0) oldsz s \<noteq> Fault" for s :: "'a kmem_state_scheme"
      by (rule Suc.IH [OF next_table(1) [OF Suc.prems(1) a]]) (use Suc.prems(2) next_table(2) [OF Suc.prems(1) a] in simp)
    show ?thesis
      using 1 2 by (auto simp: deallocuvm_loop.simps(2) [of "Suc n"] kbind_eq_Fault walkpgdir_no_Fault kfree_no_Fault Let_def
          simp del: deallocuvm_loop.simps split: if_splits)
  next
    case False
    then show ?thesis by simp
  qed
qed

lemma deallocuvm_no_Fault: "oldsz \<le> KERNBASE \<Longrightarrow> deallocuvm d oldsz newsz s \<noteq> Fault"
  using deallocuvm_loop_ends [OF PGROUNDUP_aligned, of oldsz newsz "unat oldsz div 4096 + 1" d s]
  by (auto simp: deallocuvm_def kbind_eq_Fault)

lemma kfor_no_Fault: "(\<And>i s. f i s \<noteq> Fault) \<Longrightarrow> kfor is f s \<noteq> Fault"
  by (induction "is" arbitrary: s) (auto simp: kbind_eq_Fault)

lemma freevm_no_Fault: "freevm d s \<noteq> Fault"
  unfolding freevm_def
  by (auto simp: kbind_eq_Fault deallocuvm_no_Fault kfree_no_Fault Let_def intro!: kfor_no_Fault split: if_splits)

lemma setupkvm_no_Fault: "setupkvm data s \<noteq> Fault"
proof -
  have "setupkvm_loop ks d s \<noteq> Fault" for ks d and s :: "'a kmem_state_scheme"
    by (induction ks arbitrary: s) (auto simp: kbind_eq_Fault mappages_no_Fault freevm_no_Fault split: if_splits)
  then show ?thesis by (auto simp: setupkvm_def Let_def kbind_eq_Fault kalloc_no_Fault split: if_splits)
qed

lemma allocuvm_no_Fault: "allocuvm d oldsz newsz s \<noteq> Fault"
proof -
  have "allocuvm_loop d oldsz newsz as s \<noteq> Fault" if "newsz \<le> KERNBASE" for as and s :: "'a kmem_state_scheme"
    by (induction as arbitrary: s)
      (auto simp: Let_def kbind_eq_Fault mappages_no_Fault kalloc_no_Fault kfree_no_Fault deallocuvm_no_Fault [OF that] split: if_splits)
  then show ?thesis by (auto simp: allocuvm_def)
qed

lemma copyuvm_no_Fault: "copyuvm data d sz s \<noteq> Fault"
proof -
  have "copyuvm_loop d e as s \<noteq> Fault" for as e and s :: "'a kmem_state_scheme"
    by (induction as arbitrary: s)
      (auto simp: Let_def kbind_eq_Fault walkpgdir_no_Fault mappages_no_Fault kalloc_no_Fault kfree_no_Fault freevm_no_Fault split: if_splits)
  then show ?thesis by (auto simp: copyuvm_def kbind_eq_Fault setupkvm_no_Fault)
qed


section \<open>Properties\<close>

text \<open>
  C31: mappages maps exactly the pages of the range, in order, to the physical pages that follow
  pa, with the permissions asked for; every other address keeps its mapping, the page directory
  stays well formed, and no page outside the directory and its tables is written. It fails with
  -1 only when the allocator has no page left for a page table, after mapping a prefix of the
  range, and it panics when the first page is mapped already.
\<close>

theorem mappages_maps:
  assumes "pgdir_ok s d xs" "va mod PGSIZE = 0" "n < 1048575"
  shows "((\<forall>j\<le>n. \<not> present (pte_of (mem s) d (va + of_nat j * PGSIZE))) \<longrightarrow>
      (\<exists>r s' ys k. mappages d va (of_nat (Suc n) * PGSIZE) pa perm s = Ret r s' \<and> vm_step d s xs s' ys \<and>
         (r = 0 \<and> k = Suc n \<or> r = -1 \<and> ys = [] \<and> k \<le> n) \<and> mapped va pa perm k (pte_of (mem s) d) (pte_of (mem s') d)))
    \<and> (present (pte_of (mem s) d va) \<longrightarrow> mappages d va (of_nat (Suc n) * PGSIZE) pa perm s = Panic ''remap'')"
proof -
  have n: "n < 1048576" using assms(3) by simp
  have "PGROUNDDOWN va = va" using aligned_plus_less [OF assms(2), of 0] by (simp add: PGSIZE_def)
  with mappages_remap [OF assms(1), of va]
  have r: "present (pte_of (mem s) d va) \<longrightarrow> mappages d va (of_nat (Suc n) * PGSIZE) pa perm s = Panic ''remap''" by simp
  have m: "\<forall>j\<le>n. \<not> present (pte_of (mem s) d (va + of_nat j * PGSIZE)) \<Longrightarrow>
      \<exists>r s' ys k. mappages d va (of_nat (Suc n) * PGSIZE) pa perm s = Ret r s' \<and> vm_step d s xs s' ys \<and>
         (r = 0 \<and> k = Suc n \<or> r = -1 \<and> ys = [] \<and> k \<le> n) \<and> mapped va pa perm k (pte_of (mem s) d) (pte_of (mem s') d)"
    unfolding mappages_rounds [OF assms(2) n] by (rule mappages_loop_maps [OF assms(1) _ assms(3)])
  show ?thesis by (intro conjI r) (rule impI, rule m)
qed

definition vm_example :: kmem_state where
  "vm_example = kmem_example\<lparr>mem := (\<lambda>_. 0)\<rparr>"

lemma vm_example_ok: "pgdir_ok vm_example 0x80102000 [0x80101000]"
  by (simp add: pgdir_ok_def vm_example_def kmem_example_def free_pages_def kmem_unlocked_def good_page_def pde_of_def
      present_def layout_defs)

theorem mappages_maps_witness:
  "\<exists>r s' ys k. mappages 0x80102000 0x1000 (of_nat 2 * PGSIZE) 0x300000 6 vm_example = Ret r s' \<and>
     vm_step 0x80102000 vm_example [0x80101000] s' ys \<and> (r = 0 \<and> k = 2 \<or> r = -1 \<and> ys = [] \<and> k \<le> 1) \<and>
     mapped 0x1000 0x300000 6 k (\<lambda>_. 0) (pte_of (mem s') 0x80102000)"
proof -
  have m: "pte_of (mem vm_example) 0x80102000 = (\<lambda>_. 0)"
    by (simp add: vm_example_def pte_of_def pde_of_def present_def fun_eq_iff)
  have "(0x1000 :: uint32) mod PGSIZE = 0" by (simp add: PGSIZE_def)
  from mappages_maps [OF vm_example_ok this, of 1 "0x300000" 6, unfolded m]
  have "\<exists>r s' ys k. mappages 0x80102000 0x1000 (of_nat (Suc 1) * PGSIZE) 0x300000 6 vm_example = Ret r s' \<and>
      vm_step 0x80102000 vm_example [0x80101000] s' ys \<and> (r = 0 \<and> k = Suc 1 \<or> r = -1 \<and> ys = [] \<and> k \<le> 1) \<and>
      mapped 0x1000 0x300000 6 k (\<lambda>_. 0) (pte_of (mem s') 0x80102000)"
    by (simp only: present_def) simp
  then show ?thesis by (simp only: Suc_1)
qed


end
