(* ===== verification/Proc_Life.thy ===== *)
theory Proc_Life
  imports Scheduler File Paging
begin

text \<open>
  The life of a process (\<open>proc.c\<close>): the first process, fork, exit, wait and waitx, and the growth
  of a process. The program of the first process and the linker symbol \<open>data\<close> are arguments.
  The kernel reaches user memory through the page directory in \<open>cr3\<close>; a page fault there is a
  trap in kernel mode, which \<open>trap.c\<close> answers with a panic.
\<close>

section \<open>User memory\<close>

text \<open>What the hardware makes of an address: the kernel address of the byte, if the page is there.\<close>

definition translate :: "bool \<Rightarrow> uint32 \<Rightarrow> 'a proc_state_scheme \<Rightarrow> uint32 option" where
  "translate wr va s =
     (let pde = mem s (P2V (cr3 s) + 4 * PDX va)
      in if \<not> present pde then None
         else
           let pte = mem s (P2V (PTE_ADDR pde) + 4 * PTX va)
           in if present pte \<and> (wr \<longrightarrow> pte AND PTE_W \<noteq> 0) then Some (P2V (PTE_ADDR pte) + (va AND 0xFFF)) else None)"

definition read_user :: "uint32 \<Rightarrow> 'a proc_state_scheme \<Rightarrow> (uchar, 'a proc_state_scheme) outcome" where
  "read_user va s = (case translate False va s of None \<Rightarrow> Panic ''trap'' | Some a \<Rightarrow> Ret (mem_byte (mem s) a) s)"

fun read_users :: "nat \<Rightarrow> uint32 \<Rightarrow> 'a proc_state_scheme \<Rightarrow> (uchar list, 'a proc_state_scheme) outcome" where
  "read_users 0 va s = Ret [] s"
| "read_users (Suc n) va s =
     kbind (read_user va s) (\<lambda>c s. kbind (read_users n (va + 1) s) (\<lambda>cs s. Ret (c # cs) s))"

fun write_users :: "uint32 \<Rightarrow> uchar list \<Rightarrow> 'a proc_state_scheme \<Rightarrow> (unit, 'a proc_state_scheme) outcome" where
  "write_users va [] s = Ret () s"
| "write_users va (c # cs) s =
     (case translate True va s of
        None \<Rightarrow> Panic ''trap''
      | Some a \<Rightarrow> write_users (va + 1) cs (s\<lparr>mem := set_byte (mem s) a c\<rparr>))"

definition read_int :: "uint32 \<Rightarrow> 'a proc_state_scheme \<Rightarrow> (uint32, 'a proc_state_scheme) outcome" where
  "read_int va s = kbind (read_users 4 va s) (\<lambda>cs s. Ret (le32 cs) s)"

definition write_int :: "uint32 \<Rightarrow> int \<Rightarrow> 'a proc_state_scheme \<Rightarrow> (unit, 'a proc_state_scheme) outcome" where
  "write_int va i s = write_users va (un32 (word_of_int i)) s"

section \<open>Creating processes\<close>

definition kvmalloc :: "uint32 \<Rightarrow> 'a proc_state_scheme \<Rightarrow> (unit, 'a proc_state_scheme) outcome" where
  "kvmalloc data s = kbind (setupkvm data s) (\<lambda>d s. Ret () (switchkvm (s\<lparr>kpgdir := d\<rparr>)))"

text \<open>\<open>safestrcpy\<close> into the array \<open>name\<close> of sixteen bytes.\<close>

definition copy_name :: "string \<Rightarrow> string" where
  "copy_name nm = take 15 nm"

definition init_trapframe :: "trapframe \<Rightarrow> trapframe" where
  "init_trapframe tf = trapframe0\<lparr>tf_cs := 0x1B, tf_ds := 0x23, tf_es := 0x23, tf_ss := 0x23, tf_eflags := 0x200,
     tf_esp := PGSIZE, tf_eip := 0\<rparr>"

definition userinit :: "uint32 \<Rightarrow> uchar list \<Rightarrow> 'a file_state_scheme devread \<Rightarrow> 'a file_state_scheme \<Rightarrow>
    (unit, 'a file_state_scheme) outcome" where
  "userinit data initcode dread s =
     kbind (allocproc s) (\<lambda>p s.
     case p of
       None \<Rightarrow> Fault
     | Some p \<Rightarrow>
         let s = s\<lparr>initproc := Some p\<rparr>
         in kbind (setupkvm data s) (\<lambda>d s.
            let s = upd_proc p (\<lambda>r. r\<lparr>p_pgdir := d\<rparr>) s
            in if d = 0 then Panic ''userinit: out of memory?''
               else
                 kbind (inituvm d initcode s) (\<lambda>_ s.
                 let s = upd_proc p (\<lambda>r. r\<lparr>p_sz := PGSIZE\<rparr>) s;
                     s = upd_proc p (\<lambda>r. r\<lparr>p_tf := init_trapframe (p_tf r)\<rparr>) s;
                     s = upd_proc p (\<lambda>r. r\<lparr>p_name := copy_name ''initcode''\<rparr>) s
                 in kbind (namei dread [slash, 0] s) (\<lambda>ip s.
                    let s = upd_proc p (\<lambda>r. r\<lparr>p_cwd := ip\<rparr>) s
                    in kbind (acquire LkPtable s) (\<lambda>_ s.
                       let s = upd_proc p (\<lambda>r. r\<lparr>p_state := RUNNABLE\<rparr>) s
                       in kbind (if sched_cfg s = MLFQ then push_back_process p 0 s else Ret 0 s) (\<lambda>_ s.
                          release LkPtable s))))))"

definition growproc :: "int \<Rightarrow> 'a proc_state_scheme \<Rightarrow> (int, 'a proc_state_scheme) outcome" where
  "growproc n s =
     (case myproc s of
        None \<Rightarrow> Fault
      | Some p \<Rightarrow>
          let sz = p_sz (slot s p);
              pgdir = p_pgdir (slot s p)
          in kbind (if 0 < n then allocuvm pgdir sz (sz + word_of_int n) s
                    else if n < 0 then deallocuvm pgdir sz (sz + word_of_int n) s
                    else Ret sz s) (\<lambda>sz s.
             if n \<noteq> 0 \<and> sz = 0 then Ret (-1) s
             else
               let s = upd_proc p (\<lambda>r. r\<lparr>p_sz := sz\<rparr>) s
               in kbind (switchuvm (Some p) s) (\<lambda>_ s. Ret 0 s)))"

text \<open>The loop of \<open>fork\<close> over the open files.\<close>

definition fork_files :: "nat \<Rightarrow> nat \<Rightarrow> 'a file_state_scheme \<Rightarrow> (unit, 'a file_state_scheme) outcome" where
  "fork_files p np s =
     kfor [0..<NOFILE] (\<lambda>i s.
       case p_ofile (slot s p) ! i of
         None \<Rightarrow> Ret () s
       | Some f \<Rightarrow>
           kbind (filedup f s) (\<lambda>f s. Ret () (upd_proc np (\<lambda>r. r\<lparr>p_ofile := (p_ofile r)[i := Some f]\<rparr>) s))) s"

text \<open>The last part of \<open>fork\<close>: the child becomes runnable.\<close>

definition fork_publish :: "nat \<Rightarrow> 'a file_state_scheme \<Rightarrow> (unit, 'a file_state_scheme) outcome" where
  "fork_publish np s =
     kbind (acquire LkPtable s) (\<lambda>_ s.
     let s = upd_proc np (\<lambda>r. r\<lparr>p_state := RUNNABLE\<rparr>) s
     in kbind (if sched_cfg s = PBS then reset_pbs_chances (p_curr_priority (slot s np)) s else Ret 0 s) (\<lambda>_ s.
        kbind (if sched_cfg s = MLFQ
               then push_back_process np 0 (print (MsgInsert (ticks s) (p_pid (slot s np)) (p_curr_queue_id (slot s np))) s)
               else Ret 0 s) (\<lambda>_ s.
        release LkPtable s)))"

definition fork :: "uint32 \<Rightarrow> 'a file_state_scheme \<Rightarrow> (int, 'a file_state_scheme) outcome" where
  "fork data s =
     (case myproc s of
        None \<Rightarrow> Fault
      | Some p \<Rightarrow>
          kbind (allocproc s) (\<lambda>np s.
          case np of
            None \<Rightarrow> Ret (-1) s
          | Some np \<Rightarrow>
              kbind (copyuvm data (p_pgdir (slot s p)) (p_sz (slot s p)) s) (\<lambda>d s.
              let s = upd_proc np (\<lambda>r. r\<lparr>p_pgdir := d\<rparr>) s
              in if d = 0 then
                   kbind (kfree (p_kstack (slot s np)) s) (\<lambda>_ s.
                   Ret (-1) (upd_proc np (\<lambda>r. r\<lparr>p_kstack := 0, p_state := UNUSED\<rparr>) s))
                 else
                   let s = upd_proc np (\<lambda>r. r\<lparr>p_sz := p_sz (slot s p), p_parent := Some p, p_tf := p_tf (slot s p)\<rparr>) s;
                       s = upd_proc np (\<lambda>r. r\<lparr>p_tf := (p_tf r)\<lparr>tf_eax := 0\<rparr>\<rparr>) s
                   in kbind (fork_files p np s) (\<lambda>_ s.
                      case p_cwd (slot s p) of
                        None \<Rightarrow> Fault
                      | Some cwd \<Rightarrow>
                          kbind (idup cwd s) (\<lambda>cwd s.
                          let s = upd_proc np (\<lambda>r. r\<lparr>p_cwd := Some cwd\<rparr>) s;
                              s = upd_proc np (\<lambda>r. r\<lparr>p_name := copy_name (p_name (slot s p))\<rparr>) s;
                              pid = p_pid (slot s np)
                          in kbind (fork_publish np s) (\<lambda>_ s. Ret pid s))))))"

text \<open>\<open>forkret\<close>; the static variable \<open>first\<close> is an argument and part of the result.\<close>

definition forkret :: "bool \<Rightarrow> 'a file_state_scheme \<Rightarrow> (bool, 'a file_state_scheme) outcome" where
  "forkret first s =
     kbind (release LkPtable s) (\<lambda>_ s.
     if first then
       kbind (iinit (of_nat ROOTDEV) s) (\<lambda>_ s.
       kbind (initlog (of_nat ROOTDEV) s) (\<lambda>_ s. Ret False s))
     else Ret first s)"

section \<open>The end of a process\<close>

abbreviation proc_chan :: "nat option \<Rightarrow> chan" where
  "proc_chan p \<equiv> (case p of None \<Rightarrow> Chan0 | Some i \<Rightarrow> ChProc i)"

definition exit_files :: "nat \<Rightarrow> 'a file_state_scheme \<Rightarrow> (unit, 'a file_state_scheme) outcome" where
  "exit_files p s =
     kfor [0..<NOFILE] (\<lambda>fd s.
       case p_ofile (slot s p) ! fd of
         None \<Rightarrow> Ret () s
       | Some f \<Rightarrow>
           kbind (fileclose f s) (\<lambda>_ s. Ret () (upd_proc p (\<lambda>r. r\<lparr>p_ofile := (p_ofile r)[fd := None]\<rparr>) s))) s"

text \<open>One step of the loop that hands the children to \<open>initproc\<close>.\<close>

definition reparent_one :: "nat \<Rightarrow> nat \<Rightarrow> 'a proc_state_scheme \<Rightarrow> (unit, 'a proc_state_scheme) outcome" where
  "reparent_one p i s =
     (if p_parent (slot s i) = Some p then
        let s = upd_proc i (\<lambda>r. r\<lparr>p_parent := initproc s\<rparr>) s
        in if p_state (slot s i) = ZOMBIE then wakeup1 (proc_chan (initproc s)) s else Ret () s
      else Ret () s)"

text \<open>The part of \<open>exit\<close> under \<open>ptable.lock\<close>; the process leaves the processor and is never woken.\<close>

definition exit_zombie :: "nat \<Rightarrow> 'a proc_state_scheme \<Rightarrow> (unit, 'a proc_state_scheme) outcome" where
  "exit_zombie p s =
     kbind (acquire LkPtable s) (\<lambda>_ s.
     kbind (wakeup1 (proc_chan (p_parent (slot s p))) s) (\<lambda>_ s.
     kbind (kfor [0..<NPROC] (reparent_one p) s) (\<lambda>_ s.
     let s = upd_proc p (\<lambda>r. r\<lparr>p_state := ZOMBIE\<rparr>) s;
         s = upd_proc p (\<lambda>r. r\<lparr>p_end_time := sint (ticks s)\<rparr>) s;
         r = slot s p;
         s = print (MsgExit (ticks s) (p_name r) (p_pid r) (p_tot_run_time r)
               ((p_end_time r - p_creation_time r) - (p_tot_run_time r + p_tot_sleep_time r))
               (p_end_time r - p_creation_time r)) s
     in kbind (sched s) (\<lambda>_ s. Block Chan0 s))))"

definition exit :: "'a file_state_scheme \<Rightarrow> (unit, 'a file_state_scheme) outcome" where
  "exit s =
     (case myproc s of
        None \<Rightarrow> Fault
      | Some p \<Rightarrow>
          if initproc s = Some p then Panic ''init exiting''
          else
            kbind (exit_files p s) (\<lambda>_ s.
            kbind (begin_op s) (\<lambda>_ s.
            kbind (case p_cwd (slot s p) of None \<Rightarrow> Fault | Some cwd \<Rightarrow> iput cwd s) (\<lambda>_ s.
            kbind (end_op s) (\<lambda>_ s.
            let s = upd_proc p (\<lambda>r. r\<lparr>p_cwd := None\<rparr>) s
            in exit_zombie p s)))))"

text \<open>What \<open>wait\<close> and \<open>waitx\<close> do with a dead child; \<open>waitx\<close> stores the two times in between.\<close>

definition reap :: "nat \<Rightarrow> ('a proc_state_scheme \<Rightarrow> (unit, 'a proc_state_scheme) outcome) \<Rightarrow> 'a proc_state_scheme \<Rightarrow>
    (int, 'a proc_state_scheme) outcome" where
  "reap i store s =
     (let pid = p_pid (slot s i)
      in kbind (kfree (p_kstack (slot s i)) s) (\<lambda>_ s.
         let s = upd_proc i (\<lambda>r. r\<lparr>p_kstack := 0\<rparr>) s
         in kbind (store s) (\<lambda>_ s.
            kbind (freevm (p_pgdir (slot s i)) s) (\<lambda>_ s.
            let s = upd_proc i (\<lambda>r. r\<lparr>p_pid := 0, p_parent := None, p_name := [], p_killed := False, p_state := UNUSED\<rparr>) s
            in kbind (release LkPtable s) (\<lambda>_ s. Ret pid s)))))"

definition wait_scan :: "(nat \<Rightarrow> 'a proc_state_scheme \<Rightarrow> (unit, 'a proc_state_scheme) outcome) \<Rightarrow> 'a proc_state_scheme \<Rightarrow>
    (int, 'a proc_state_scheme) outcome" where
  "wait_scan store s =
     (case myproc s of
        None \<Rightarrow> Fault
      | Some p \<Rightarrow>
          (case find (\<lambda>i. p_parent (slot s i) = Some p \<and> p_state (slot s i) = ZOMBIE) [0..<NPROC] of
             Some i \<Rightarrow> reap i (store i) s
           | None \<Rightarrow>
               if (\<forall>i\<in>set [0..<NPROC]. p_parent (slot s i) \<noteq> Some p) \<or> p_killed (slot s p)
               then kbind (release LkPtable s) (\<lambda>_ s. Ret (-1) s)
               else kbind (sleep (ChProc p) LkPtable s) (\<lambda>_ _. Fault)))"

definition wait :: "'a proc_state_scheme \<Rightarrow> (int, 'a proc_state_scheme) outcome" where
  "wait s = kbind (acquire LkPtable s) (\<lambda>_ s. wait_scan (\<lambda>_. Ret ()) s)"

text \<open>A parent that was woken looks for a dead child again.\<close>

definition wait_resume :: "'a proc_state_scheme \<Rightarrow> (int, 'a proc_state_scheme) outcome" where
  "wait_resume s = kbind (sleep_resume LkPtable s) (\<lambda>_ s. wait_scan (\<lambda>_. Ret ()) s)"

definition waitx_times :: "uint32 \<Rightarrow> uint32 \<Rightarrow> nat \<Rightarrow> 'a proc_state_scheme \<Rightarrow> (unit, 'a proc_state_scheme) outcome" where
  "waitx_times wtime rtime i s =
     (let r = slot s i
      in kbind (write_int rtime (p_tot_run_time r) s) (\<lambda>_ s.
         write_int wtime ((p_end_time r - p_creation_time r) - (p_tot_run_time r + p_tot_sleep_time r)) s))"

definition waitx :: "uint32 \<Rightarrow> uint32 \<Rightarrow> 'a proc_state_scheme \<Rightarrow> (int, 'a proc_state_scheme) outcome" where
  "waitx wtime rtime s =
     (case myproc s of
        None \<Rightarrow> Fault
      | Some p \<Rightarrow>
          let s = print (MsgWaitx (p_pid (slot s p))) s
          in kbind (acquire LkPtable s) (\<lambda>_ s. wait_scan (waitx_times wtime rtime) s))"

definition waitx_resume :: "uint32 \<Rightarrow> uint32 \<Rightarrow> 'a proc_state_scheme \<Rightarrow> (int, 'a proc_state_scheme) outcome" where
  "waitx_resume wtime rtime s = kbind (sleep_resume LkPtable s) (\<lambda>_ s. wait_scan (waitx_times wtime rtime) s)"

section \<open>Exit\<close>

text \<open>What the loop of \<open>exit\<close> over the first \<open>n\<close> slots makes of slot \<open>j\<close>.\<close>

definition dead_child :: "nat \<Rightarrow> nat \<Rightarrow> 'a proc_state_scheme \<Rightarrow> bool" where
  "dead_child p n s \<longleftrightarrow> (\<exists>k<n. p_parent (slot s k) = Some p \<and> p_state (slot s k) = ZOMBIE)"

definition adopt :: "nat \<Rightarrow> nat option \<Rightarrow> proc \<Rightarrow> proc" where
  "adopt p ip r = (if p_parent r = Some p then r\<lparr>p_parent := ip\<rparr> else r)"

definition loop_slot :: "nat \<Rightarrow> nat \<Rightarrow> 'a proc_state_scheme \<Rightarrow> nat \<Rightarrow> proc" where
  "loop_slot p n s j =
     (let r = (if j < n then adopt p (initproc s) (slot s j) else slot s j)
      in if dead_child p n s \<and> sleeps_on (proc_chan (initproc s)) (slot s j) then wake_proc (sched_cfg s) r else r)"

definition reparented :: "nat \<Rightarrow> nat \<Rightarrow> 'a proc_state_scheme \<Rightarrow> 'a proc_state_scheme \<Rightarrow> bool" where
  "reparented p n s t \<longleftrightarrow> sched_inv {} t \<and> table_frame s t \<and> (\<forall>j<NPROC. slot t j = loop_slot p n s j)"

lemma adopt_fields [simp]:
  "p_state (adopt p ip r) = p_state r" "p_chan (adopt p ip r) = p_chan r" "p_pid (adopt p ip r) = p_pid r"
  "p_curr_queue_id (adopt p ip r) = p_curr_queue_id r" "sleeps_on c (adopt p ip r) = sleeps_on c r"
  by (simp_all add: adopt_def sleeps_on_def)

lemma wake_proc_fields [simp]:
  "p_parent (wake_proc cfg r) = p_parent r" "\<not> sleeps_on c (wake_proc cfg r)" "p_state (wake_proc cfg r) = RUNNABLE"
  "wake_proc cfg (adopt p ip r) = adopt p ip (wake_proc cfg r)" "p_pid (wake_proc cfg r) = p_pid r"
  by (simp_all add: wake_proc_def adopt_def sleeps_on_def)

lemma sched_inv_keep:
  assumes "sched_inv E s" "i < NPROC" "\<And>r. p_pid (f r) = p_pid r" "\<And>r. p_state (f r) = p_state r"
    "\<And>r. p_curr_queue_id (f r) = p_curr_queue_id r"
  shows "sched_inv E (upd_proc i f s)"
  using assms sched_inv_queues(3) [OF assms(1) _ assms(2)] by (intro sched_inv_upd) simp_all

lemma wake_if:
  "p_parent (if sleeps_on c r then wake_proc cfg r else r) = p_parent r"
  "p_state (if sleeps_on c r then wake_proc cfg r else r) = ZOMBIE \<longleftrightarrow> p_state r = ZOMBIE"
  by (auto simp: sleeps_on_def)

lemma more_upd_proc: "proc_state.more (upd_proc i f s) = proc_state.more s"
  by (simp add: upd_proc_def)

lemma dead_child_Suc:
  "dead_child p (Suc n) s \<longleftrightarrow> dead_child p n s \<or> p_parent (slot s n) = Some p \<and> p_state (slot s n) = ZOMBIE"
  by (auto simp: dead_child_def less_Suc_eq)

lemma reparent_one_step:
  assumes "reparented p n s t" "n < NPROC"
  shows "\<exists>u. reparent_one p n t = Ret () u \<and> reparented p (Suc n) s u"
proof -
  have t: "sched_inv {} t" "table_frame s t" using assms(1) by (simp_all add: reparented_def)
  have sl: "slot t j = loop_slot p n s j" if "j < NPROC" for j using assms(1) that by (simp add: reparented_def)
  have F: "initproc t = initproc s" "sched_cfg t = sched_cfg s" using t(2) by (simp_all add: table_frame_def)
  have len: "length (ptable t) = NPROC" using t(1) by simp
  have pn: "p_parent (slot t n) = p_parent (slot s n)" using sl [OF assms(2)] by (simp add: loop_slot_def Let_def)
  have zn: "p_state (slot t n) = ZOMBIE \<longleftrightarrow> p_state (slot s n) = ZOMBIE"
    using sl [OF assms(2)] by (auto simp: loop_slot_def Let_def sleeps_on_def)
  show ?thesis
  proof (cases "p_parent (slot s n) = Some p")
    case False
    then have "loop_slot p (Suc n) s = loop_slot p n s" by (auto simp: fun_eq_iff loop_slot_def Let_def dead_child_Suc less_Suc_eq adopt_def)
    then have "reparented p (Suc n) s t" using assms(1) by (simp add: reparented_def)
    moreover have "reparent_one p n t = Ret () t" using pn False by (simp add: reparent_one_def)
    ultimately show ?thesis by blast
  next
    case True
    let ?u = "upd_proc n (\<lambda>r. r\<lparr>p_parent := initproc t\<rparr>) t"
    have u: "sched_inv {} ?u" "table_frame s ?u"
      using t assms(2) by (auto intro!: sched_inv_keep simp: table_frame_def more_upd_proc)
    have su: "slot ?u j = (if j = n then adopt p (initproc s) (loop_slot p n s j) else loop_slot p n s j)" if "j < NPROC" for j
      using sl [OF that] True F(1) len pn that by (auto simp: adopt_def)
    show ?thesis
    proof (cases "p_state (slot s n) = ZOMBIE")
      case False
      then have "(if j = n then adopt p (initproc s) (loop_slot p n s j) else loop_slot p n s j) = loop_slot p (Suc n) s j" for j
        by (auto simp: loop_slot_def dead_child_Suc less_Suc_eq Let_def)
      then have "reparented p (Suc n) s ?u" unfolding reparented_def using u su by simp
      moreover have "reparent_one p n t = Ret () ?u" using False True pn zn len assms(2) by (simp add: reparent_one_def Let_def)
      ultimately show ?thesis by blast
    next
      case z: True
      obtain v where v: "wakeup1 (proc_chan (initproc s)) ?u = Ret () v" "woken_upto NPROC (proc_chan (initproc s)) ?u v"
        using wakeup1_spec [OF u(1)] by blast
      have "slot v j = loop_slot p (Suc n) s j" if "j < NPROC" for j
      proof -
        have "slot v j = (if sleeps_on (proc_chan (initproc s)) (slot ?u j) then wake_proc (sched_cfg s) (slot ?u j) else slot ?u j)"
          using v(2) that F(2) by (simp add: woken_upto_def)
        moreover have "dead_child p (Suc n) s" using True z by (simp add: dead_child_Suc)
        ultimately show ?thesis unfolding su [OF that] by (auto simp: loop_slot_def Let_def less_Suc_eq)
      qed
      moreover have "sched_inv {} v" "table_frame s v" using v(2) table_frame_trans [OF u(2)] by (simp_all add: woken_upto_def)
      ultimately have "reparented p (Suc n) s v" by (simp add: reparented_def)
      moreover have "reparent_one p n t = Ret () v" using True pn zn z len assms(2) v(1) F by (simp add: reparent_one_def Let_def)
      ultimately show ?thesis by blast
    qed
  qed
qed


lemma reparent_loop:
  "sched_inv {} s \<Longrightarrow> n \<le> NPROC \<Longrightarrow> \<exists>t. kfor [0..<n] (reparent_one p) s = Ret () t \<and> reparented p n s t"
proof (induction n)
  case 0
  then show ?case by (simp add: reparented_def loop_slot_def dead_child_def table_frame_def)
next
  case (Suc n)
  then obtain t where "kfor [0..<n] (reparent_one p) s = Ret () t" "reparented p n s t" by auto
  with reparent_one_step [of p n s t] Suc.prems(2) show ?case by (auto simp: kfor_Suc simp del: upt_Suc)
qed

text \<open>
  C39: The end of a process. The part of exit under ptable.lock always gives up the processor,
  never panics, and keeps the invariant of the table and the run queues. It wakes everybody who
  waits for the process that exits, hands all its children to the first process, which is woken
  exactly when one of them is dead already, makes the process a zombie with the time of its end,
  and changes nothing else in any slot.
\<close>

theorem exit_zombie_exact:
  assumes "in_proc p s"
  shows "\<exists>t. exit_zombie p s = Block Chan0 t \<and> sched_inv {} t \<and> held t = [LkPtable] \<and>
     (\<forall>j<NPROC. slot t j =
        (let woken = (sleeps_on (proc_chan (p_parent (slot s p))) (slot s j) \<or>
               dead_child p NPROC s \<and> sleeps_on (proc_chan (initproc s)) (slot s j));
             r = adopt p (initproc s) (if woken then wake_proc (sched_cfg s) (slot s j) else slot s j)
         in if j = p then r\<lparr>p_state := ZOMBIE, p_end_time := sint (ticks s), p_context := CtxSched\<rparr> else r))"
proof -
  note P = in_procD [OF assms]
  let ?h = "s\<lparr>held := [LkPtable]\<rparr>" let ?c = "proc_chan (p_parent (slot s p))"
  have "sched_inv {} ?h" using P(1) sched_inv_cong [of ?h s "{}"] by simp
  from wakeup1_spec [OF this, of ?c] obtain a where a: "wakeup1 ?c ?h = Ret () a" "woken_upto NPROC ?c ?h a" by blast
  have ai: "sched_inv {} a" "table_frame ?h a" using a(2) by (simp_all add: woken_upto_def)
  have as: "slot a j = (if sleeps_on ?c (slot s j) then wake_proc (sched_cfg s) (slot s j) else slot s j)" if "j < NPROC" for j
    using a(2) that by (simp add: woken_upto_def)
  obtain b where b: "kfor [0..<NPROC] (reparent_one p) a = Ret () b" "reparented p NPROC a b" using reparent_loop [OF ai(1)] by blast
  have bi: "sched_inv {} b" "table_frame a b" "\<And>j. j < NPROC \<Longrightarrow> slot b j = loop_slot p NPROC a j"
    using b(2) by (simp_all add: reparented_def)
  have F: "held b = [LkPtable]" "cpu_proc b = Some p" "ticks b = ticks s" "initproc a = initproc s" "sched_cfg a = sched_cfg s"
    using ai(2) bi(2) P(3) by (simp_all add: table_frame_def)
  have dc: "dead_child p NPROC a = dead_child p NPROC s"
    unfolding dead_child_def by (intro ex_cong1 conj_cong refl) (simp_all only: as wake_if)
  have rest: "slot b j = adopt p (initproc s) (if sleeps_on ?c (slot s j) \<or> dead_child p NPROC s \<and> sleeps_on (proc_chan (initproc s)) (slot s j)
      then wake_proc (sched_cfg s) (slot s j) else slot s j)" if "j < NPROC" for j
    unfolding bi(3) [OF that] loop_slot_def dc F as [OF that] if_P [OF that] Let_def
    by (cases "sleeps_on ?c (slot s j)") simp_all
  have run: "p_state (slot b p) = RUNNING"
    unfolding rest [OF P(4)] using assms by (simp add: sleeps_on_def in_proc_def)
  have len: "p < length (ptable b)" using bi(1) P(4) by simp
  define z where "z = upd_proc p (\<lambda>r. r\<lparr>p_end_time := sint (ticks (upd_proc p (\<lambda>r. r\<lparr>p_state := ZOMBIE\<rparr>) b))\<rparr>)
      (upd_proc p (\<lambda>r. r\<lparr>p_state := ZOMBIE\<rparr>) b)"
  define m where "m = (let r = slot z p in MsgExit (ticks z) (p_name r) (p_pid r) (p_tot_run_time r)
      ((p_end_time r - p_creation_time r) - (p_tot_run_time r + p_tot_sleep_time r)) (p_end_time r - p_creation_time r))"
  let ?t = "upd_proc p (\<lambda>r. r\<lparr>p_context := CtxSched\<rparr>) (print m z)"
  have zi: "sched_inv {} z"
  proof -
    have "sched_inv {} (upd_proc p (\<lambda>r. r\<lparr>p_state := ZOMBIE\<rparr>) b)"
      using bi(1) P(4) run sched_inv_queues(3) [OF bi(1) _ P(4)] by (intro sched_inv_upd) simp_all
    then show ?thesis unfolding z_def by (rule sched_inv_keep) (simp_all add: P(4))
  qed
  have zs: "p_state (slot z p) = ZOMBIE" "held z = [LkPtable]" "cpu_proc z = Some p" using len F by (simp_all add: z_def)
  have mi: "sched_inv {} (print m z)" using zi sched_inv_cong [of "print m z" z "{}"] by (simp add: print_def)
  have "sched (print m z) = Ret () ?t" using zs by (intro sched_Ret) (simp_all add: print_def)
  moreover have "exit_zombie p s = kbind (sched (print m z)) (\<lambda>_ s. Block Chan0 s)"
  proof -
    have h: "acquire LkPtable s = Ret () ?h" "p_parent (slot ?h p) = p_parent (slot s p)" using P(2) by simp_all
    show ?thesis unfolding exit_zombie_def m_def z_def by (simp only: h kbind.simps a(1) b(1) Let_def)
  qed
  ultimately have "exit_zombie p s = Block Chan0 ?t" by simp
  moreover have "sched_inv {} ?t"
    using mi by (rule sched_inv_keep) (simp_all add: P(4))
  moreover have "held ?t = [LkPtable]" using zs by (simp add: print_def)
  moreover have "slot ?t j = (if j = p then (slot b p)\<lparr>p_state := ZOMBIE, p_end_time := sint (ticks s), p_context := CtxSched\<rparr> else slot b j)" for j
    using len F(3) by (simp add: z_def print_def)
  ultimately show ?thesis using rest unfolding Let_def by (intro exI [of _ ?t]) auto
qed

text \<open>An example: process 1 waits for its child, process 0.\<close>

definition exit_example :: proc_state where
  "exit_example = upd_proc 0 (\<lambda>r. r\<lparr>p_parent := Some 1\<rparr>) (upd_proc 1 (\<lambda>r. r\<lparr>p_chan := ChProc 1\<rparr>) (proc_example RR))"

lemma exit_example_ok:
  "in_proc 0 exit_example" "p_parent (slot exit_example 0) = Some 1" "sleeps_on (ChProc 1) (slot exit_example 1)" "sched_cfg exit_example = RR"
proof -
  have e: "in_proc 0 (proc_example RR)" by (simp add: in_proc_def example_inv NPROC_def slot_example)
  have len: "length (ptable (proc_example RR)) = NPROC" using in_procD(1) [OF e] by simp
  have n: "0 < NPROC" "1 < NPROC" by (simp_all add: NPROC_def)
  have "sched_inv {} exit_example"
    unfolding exit_example_def using in_procD(1) [OF e] n by (intro sched_inv_keep) simp_all
  then show "in_proc 0 exit_example" using e n len by (simp add: in_proc_def exit_example_def)
  show "p_parent (slot exit_example 0) = Some 1" "sleeps_on (ChProc 1) (slot exit_example 1)" "sched_cfg exit_example = RR"
    using n len by (simp_all add: exit_example_def sleeps_on_def slot_example)
qed

theorem exit_zombie_exact_witness:
  "\<exists>t. exit_zombie 0 exit_example = Block Chan0 t \<and> p_state (slot t 0) = ZOMBIE \<and> p_state (slot t 1) = RUNNABLE"
proof -
  have n: "0 < NPROC" "1 < NPROC" by (simp_all add: NPROC_def)
  obtain t where t: "exit_zombie 0 exit_example = Block Chan0 t" "\<forall>j<NPROC. slot t j =
        (let woken = (sleeps_on (proc_chan (p_parent (slot exit_example 0))) (slot exit_example j) \<or>
               dead_child 0 NPROC exit_example \<and> sleeps_on (proc_chan (initproc exit_example)) (slot exit_example j));
             r = adopt 0 (initproc exit_example) (if woken then wake_proc (sched_cfg exit_example) (slot exit_example j) else slot exit_example j)
         in if j = 0 then r\<lparr>p_state := ZOMBIE, p_end_time := sint (ticks exit_example), p_context := CtxSched\<rparr> else r)"
    using exit_zombie_exact [OF exit_example_ok(1)] by blast
  then have "p_state (slot t 0) = ZOMBIE" "p_state (slot t 1) = RUNNABLE" using n exit_example_ok(2,3) by (simp_all add: Let_def)
  with t(1) show ?thesis by blast
qed

end
