(* ===== verification/Exec.thy ===== *)
theory Exec
  imports Proc_Life
begin

text \<open>
  Loading a program (\<open>exec.c\<close>, \<open>elf.h\<close> and \<open>loaduvm\<close> of \<open>vm.c\<close>). A path and an argument are
  lists of bytes without the terminating zero; \<open>None\<close> stands for a jump to the label \<open>bad\<close>.
\<close>

definition ELF_MAGIC :: uint32 where "ELF_MAGIC = 0x464C457F"
definition ELF_PROG_LOAD :: uint32 where "ELF_PROG_LOAD = 1"

text \<open>The fields of the two headers that the kernel uses.\<close>

record elfhdr =
  e_magic :: uint32
  e_entry :: uint32
  e_phoff :: uint32
  e_phnum :: ushort

record proghdr =
  ph_type :: uint32
  ph_off :: uint32
  ph_vaddr :: uint32
  ph_filesz :: uint32
  ph_memsz :: uint32

definition sizeof_elfhdr :: nat where "sizeof_elfhdr = 52"
definition sizeof_proghdr :: nat where "sizeof_proghdr = 32"

definition elfhdr_of :: "uchar list \<Rightarrow> elfhdr" where
  "elfhdr_of b = \<lparr>e_magic = get32 0 b, e_entry = get32 24 b, e_phoff = get32 28 b, e_phnum = get16 44 b\<rparr>"

definition proghdr_of :: "uchar list \<Rightarrow> proghdr" where
  "proghdr_of b = \<lparr>ph_type = get32 0 b, ph_off = get32 4 b, ph_vaddr = get32 8 b, ph_filesz = get32 16 b,
     ph_memsz = get32 20 b\<rparr>"

section \<open>Loading a segment\<close>

text \<open>The loop of \<open>loaduvm\<close> over the offsets of the pages of the segment.\<close>

fun loaduvm_loop :: "'a file_state_scheme devread \<Rightarrow> uint32 \<Rightarrow> uint32 \<Rightarrow> nat \<Rightarrow> uint32 \<Rightarrow> uint32 \<Rightarrow> uint32 list \<Rightarrow>
    'a file_state_scheme \<Rightarrow> (int, 'a file_state_scheme) outcome" where
  "loaduvm_loop dread pgdir addr ip offset sz [] s = Ret 0 s"
| "loaduvm_loop dread pgdir addr ip offset sz (i # is) s =
     kbind (walkpgdir pgdir (addr + i) False s) (\<lambda>pte s.
     if pte = 0 then Panic ''loaduvm: address should exist''
     else
       let pa = PTE_ADDR (mem s pte);
           n = (if sz - i < PGSIZE then sz - i else PGSIZE)
       in kbind (readi dread ip (offset + i) n s) (\<lambda>r s.
          let s = s\<lparr>mem := put_mem (mem s) (P2V pa) (snd r)\<rparr>
          in if word_of_int (fst r) \<noteq> n then Ret (-1) s
             else loaduvm_loop dread pgdir addr ip offset sz is s))"

definition loaduvm :: "'a file_state_scheme devread \<Rightarrow> uint32 \<Rightarrow> uint32 \<Rightarrow> nat \<Rightarrow> uint32 \<Rightarrow> uint32 \<Rightarrow>
    'a file_state_scheme \<Rightarrow> (int, 'a file_state_scheme) outcome" where
  "loaduvm dread pgdir addr ip offset sz s =
     (if addr mod PGSIZE \<noteq> 0 then Panic ''loaduvm: addr must be page aligned''
      else loaduvm_loop dread pgdir addr ip offset sz (upages 0 sz) s)"

text \<open>The loop over the program headers, of which \<open>n\<close> are left; the result is the size of the image.\<close>

primrec exec_load :: "nat \<Rightarrow> 'a file_state_scheme devread \<Rightarrow> uint32 \<Rightarrow> nat \<Rightarrow> uint32 \<Rightarrow> uint32 \<Rightarrow>
    'a file_state_scheme \<Rightarrow> (uint32 option, 'a file_state_scheme) outcome" where
  "exec_load 0 dread pgdir ip off sz s = Ret (Some sz) s"
| "exec_load (Suc n) dread pgdir ip off sz s =
     kbind (readi dread ip off (of_nat sizeof_proghdr) s) (\<lambda>r s.
     let ph = proghdr_of (snd r);
         off' = off + of_nat sizeof_proghdr
     in if fst r \<noteq> int sizeof_proghdr then Ret None s
        else if ph_type ph \<noteq> ELF_PROG_LOAD then exec_load n dread pgdir ip off' sz s
        else if ph_memsz ph < ph_filesz ph then Ret None s
        else if ph_vaddr ph + ph_memsz ph < ph_vaddr ph then Ret None s
        else
          kbind (allocuvm pgdir sz (ph_vaddr ph + ph_memsz ph) s) (\<lambda>sz s.
          if sz = 0 then Ret None s
          else if ph_vaddr ph mod PGSIZE \<noteq> 0 then Ret None s
          else
            kbind (loaduvm dread pgdir (ph_vaddr ph) ip (ph_off ph) (ph_filesz ph) s) (\<lambda>r s.
            if r < 0 then Ret None s
            else exec_load n dread pgdir ip off' sz s)))"

section \<open>The stack\<close>

text \<open>Pushes the argument strings; the result is the stack pointer and the addresses of the strings.\<close>

fun exec_args :: "uint32 \<Rightarrow> nat \<Rightarrow> uint32 \<Rightarrow> uchar list list \<Rightarrow> 'a kmem_state_scheme \<Rightarrow>
    ((uint32 \<times> uint32 list) option, 'a kmem_state_scheme) outcome" where
  "exec_args pgdir argc sp [] s = Ret (Some (sp, [])) s"
| "exec_args pgdir argc sp (arg # args) s =
     (if MAXARG \<le> argc then Ret None s
      else
        let sp = (sp - (of_nat (length arg) + 1)) AND NOT 3
        in kbind (copyout pgdir sp (arg @ [0]) s) (\<lambda>r s.
           if r < 0 then Ret None s
           else
             kbind (exec_args pgdir (argc + 1) sp args s) (\<lambda>q s.
             Ret (map_option (\<lambda>(sp', ps). (sp', sp # ps)) q) s)))"

definition ustack :: "uint32 \<Rightarrow> uint32 list \<Rightarrow> uint32 list" where
  "ustack sp ps = [0xffffffff, of_nat (length ps), sp - (of_nat (length ps) + 1) * 4] @ ps @ [0]"

definition exec_stack :: "uint32 \<Rightarrow> uint32 \<Rightarrow> uchar list list \<Rightarrow> 'a kmem_state_scheme \<Rightarrow>
    ((uint32 \<times> uint32) option, 'a kmem_state_scheme) outcome" where
  "exec_stack pgdir sz argv s =
     (let sz = PGROUNDUP sz
      in kbind (allocuvm pgdir sz (sz + 2 * PGSIZE) s) (\<lambda>sz s.
         if sz = 0 then Ret None s
         else
           kbind (clearpteu pgdir (sz - 2 * PGSIZE) s) (\<lambda>_ s.
           kbind (exec_args pgdir 0 sz argv s) (\<lambda>q s.
           case q of
             None \<Rightarrow> Ret None s
           | Some (sp, ps) \<Rightarrow>
               let us = ustack sp ps;
                   sp = sp - of_nat (3 + length ps + 1) * 4
               in kbind (copyout pgdir sp (concat (map un32 us)) s) (\<lambda>r s.
                  Ret (if r < 0 then None else Some (sz, sp)) s)))))"

section \<open>exec\<close>

text \<open>The program name: what follows the last slash of the path.\<close>

definition last_elem :: "uchar list \<Rightarrow> uchar list" where
  "last_elem path = rev (takeWhile (\<lambda>c. c \<noteq> slash) (rev path))"

definition exec_commit :: "nat \<Rightarrow> uchar list \<Rightarrow> uint32 \<Rightarrow> uint32 \<Rightarrow> uint32 \<Rightarrow> uint32 \<Rightarrow> 'a proc_state_scheme \<Rightarrow>
    (int, 'a proc_state_scheme) outcome" where
  "exec_commit p path pgdir sz entry sp s =
     (let nm = map (\<lambda>c. char_of (unat c)) (last_elem path);
          s = upd_proc p (\<lambda>r. r\<lparr>p_name := copy_name nm\<rparr>) s;
          oldpgdir = p_pgdir (slot s p);
          s = upd_proc p (\<lambda>r. r\<lparr>p_pgdir := pgdir, p_sz := sz, p_tf := (p_tf r)\<lparr>tf_eip := entry, tf_esp := sp\<rparr>\<rparr>) s
      in kbind (switchuvm (Some p) s) (\<lambda>_ s.
         kbind (freevm oldpgdir s) (\<lambda>_ s. Ret 0 s)))"

text \<open>The label \<open>bad\<close>, with the page directory and, while it is locked, the inode.\<close>

definition exec_bad :: "uint32 \<Rightarrow> nat option \<Rightarrow> 'a file_state_scheme \<Rightarrow> (int, 'a file_state_scheme) outcome" where
  "exec_bad pgdir ip s =
     kbind (if pgdir \<noteq> 0 then freevm pgdir s else Ret () s) (\<lambda>_ s.
     kbind (case ip of
              None \<Rightarrow> Ret () s
            | Some ip \<Rightarrow> kbind (iunlockput ip s) (\<lambda>_ s. end_op s)) (\<lambda>_ s. Ret (-1) s))"

definition exec :: "uint32 \<Rightarrow> 'a file_state_scheme devread \<Rightarrow> uchar list \<Rightarrow> uchar list list \<Rightarrow> 'a file_state_scheme \<Rightarrow>
    (int, 'a file_state_scheme) outcome" where
  "exec data dread path argv s =
     (case myproc s of
        None \<Rightarrow> Fault
      | Some p \<Rightarrow>
          kbind (begin_op s) (\<lambda>_ s.
          kbind (namei dread (path @ [0]) s) (\<lambda>ip s.
          case ip of
            None \<Rightarrow> kbind (end_op s) (\<lambda>_ s. Ret (-1) s)
          | Some ip \<Rightarrow>
              kbind (ilock (Some ip) s) (\<lambda>_ s.
              kbind (readi dread ip 0 (of_nat sizeof_elfhdr) s) (\<lambda>r s.
              let elf = elfhdr_of (snd r)
              in if fst r \<noteq> int sizeof_elfhdr then exec_bad 0 (Some ip) s
                 else if e_magic elf \<noteq> ELF_MAGIC then exec_bad 0 (Some ip) s
                 else
                   kbind (setupkvm data s) (\<lambda>pgdir s.
                   if pgdir = 0 then exec_bad 0 (Some ip) s
                   else
                     kbind (exec_load (unat (e_phnum elf)) dread pgdir ip (e_phoff elf) 0 s) (\<lambda>sz s.
                     case sz of
                       None \<Rightarrow> exec_bad pgdir (Some ip) s
                     | Some sz \<Rightarrow>
                         kbind (iunlockput ip s) (\<lambda>_ s.
                         kbind (end_op s) (\<lambda>_ s.
                         kbind (exec_stack pgdir sz argv s) (\<lambda>st s.
                         case st of
                           None \<Rightarrow> exec_bad pgdir None s
                         | Some (sz, sp) \<Rightarrow> exec_commit p path pgdir sz (e_entry elf) sp s))))))))))"

end
