(* ===== verification/Sysproc.thy ===== *)
theory Sysproc
  imports Exec
begin

text \<open>
  Fetching the arguments of a system call (the first half of \<open>syscall.c\<close>) and the system calls of
  \<open>sysproc.c\<close>. A result passed through a pointer is part of the result of the definition.
\<close>

section \<open>Arguments\<close>

definition fetchint :: "uint32 \<Rightarrow> 'a proc_state_scheme \<Rightarrow> (uint32 option, 'a proc_state_scheme) outcome" where
  "fetchint addr s =
     (case myproc s of
        None \<Rightarrow> Fault
      | Some p \<Rightarrow>
          if p_sz (slot s p) \<le> addr \<or> p_sz (slot s p) < addr + 4 then Ret None s
          else kbind (read_int addr s) (\<lambda>i s. Ret (Some i) s))"

text \<open>The scan of \<open>fetchstr\<close> over the bytes that are left; the string comes without its zero.\<close>

primrec fetchstr_loop :: "nat \<Rightarrow> uint32 \<Rightarrow> 'a proc_state_scheme \<Rightarrow> (uchar list option, 'a proc_state_scheme) outcome" where
  "fetchstr_loop 0 a s = Ret None s"
| "fetchstr_loop (Suc n) a s =
     kbind (read_user a s) (\<lambda>c s.
     if c = 0 then Ret (Some []) s
     else kbind (fetchstr_loop n (a + 1) s) (\<lambda>r s. Ret (map_option ((#) c) r) s))"

definition fetchstr :: "uint32 \<Rightarrow> 'a proc_state_scheme \<Rightarrow> (uchar list option, 'a proc_state_scheme) outcome" where
  "fetchstr addr s =
     (case myproc s of
        None \<Rightarrow> Fault
      | Some p \<Rightarrow>
          if p_sz (slot s p) \<le> addr then Ret None s
          else fetchstr_loop (unat (p_sz (slot s p)) - unat addr) addr s)"

definition argint :: "nat \<Rightarrow> 'a proc_state_scheme \<Rightarrow> (uint32 option, 'a proc_state_scheme) outcome" where
  "argint n s =
     (case myproc s of
        None \<Rightarrow> Fault
      | Some p \<Rightarrow> fetchint (tf_esp (p_tf (slot s p)) + 4 + 4 * of_nat n) s)"

definition argptr :: "nat \<Rightarrow> int \<Rightarrow> 'a proc_state_scheme \<Rightarrow> (uint32 option, 'a proc_state_scheme) outcome" where
  "argptr n len s =
     (case myproc s of
        None \<Rightarrow> Fault
      | Some p \<Rightarrow>
          kbind (argint n s) (\<lambda>i s.
          case i of
            None \<Rightarrow> Ret None s
          | Some i \<Rightarrow>
              if len < 0 \<or> p_sz (slot s p) \<le> i \<or> p_sz (slot s p) < i + word_of_int len then Ret None s
              else Ret (Some i) s))"

definition argstr :: "nat \<Rightarrow> 'a proc_state_scheme \<Rightarrow> (uchar list option, 'a proc_state_scheme) outcome" where
  "argstr n s =
     kbind (argint n s) (\<lambda>addr s.
     case addr of
       None \<Rightarrow> Ret None s
     | Some addr \<Rightarrow> fetchstr addr s)"

section \<open>System calls on processes\<close>

definition sys_fork :: "uint32 \<Rightarrow> 'a file_state_scheme \<Rightarrow> (int, 'a file_state_scheme) outcome" where
  "sys_fork data s = fork data s"

definition sys_exit :: "'a file_state_scheme \<Rightarrow> (int, 'a file_state_scheme) outcome" where
  "sys_exit s = kbind (exit s) (\<lambda>_ s. Ret 0 s)"

definition sys_wait :: "'a proc_state_scheme \<Rightarrow> (int, 'a proc_state_scheme) outcome" where
  "sys_wait s = wait s"

definition sys_waitx :: "'a proc_state_scheme \<Rightarrow> (int, 'a proc_state_scheme) outcome" where
  "sys_waitx s =
     kbind (argptr 0 4 s) (\<lambda>wtime s.
     case wtime of
       None \<Rightarrow> Ret (-1) s
     | Some wtime \<Rightarrow>
         kbind (argptr 1 4 s) (\<lambda>rtime s.
         case rtime of
           None \<Rightarrow> Ret (-1) s
         | Some rtime \<Rightarrow> waitx wtime rtime s))"

text \<open>The two integers are fetched with \<open>argptr\<close>, so they are tested as if they were addresses.\<close>

definition sys_set_priority :: "'a proc_state_scheme \<Rightarrow> (int, 'a proc_state_scheme) outcome" where
  "sys_set_priority s =
     kbind (argptr 0 4 s) (\<lambda>new_priority s.
     case new_priority of
       None \<Rightarrow> Ret (-1) s
     | Some new_priority \<Rightarrow>
         kbind (argptr 1 4 s) (\<lambda>proc_pid s.
         case proc_pid of
           None \<Rightarrow> Ret (-1) s
         | Some proc_pid \<Rightarrow> set_priority (sint new_priority) (sint proc_pid) s))"

definition sys_get_ps_data :: "'a proc_state_scheme \<Rightarrow> (int, 'a proc_state_scheme) outcome" where
  "sys_get_ps_data s = kbind (get_ps_data s) (\<lambda>_ s. Ret 0 s)"

definition sys_kill :: "'a proc_state_scheme \<Rightarrow> (int, 'a proc_state_scheme) outcome" where
  "sys_kill s =
     kbind (argint 0 s) (\<lambda>pid s.
     case pid of
       None \<Rightarrow> Ret (-1) s
     | Some pid \<Rightarrow> kill (sint pid) s)"

definition sys_getpid :: "'a proc_state_scheme \<Rightarrow> (int, 'a proc_state_scheme) outcome" where
  "sys_getpid s = (case myproc s of None \<Rightarrow> Fault | Some p \<Rightarrow> Ret (p_pid (slot s p)) s)"

definition sys_sbrk :: "'a proc_state_scheme \<Rightarrow> (int, 'a proc_state_scheme) outcome" where
  "sys_sbrk s =
     kbind (argint 0 s) (\<lambda>n s.
     case n of
       None \<Rightarrow> Ret (-1) s
     | Some n \<Rightarrow>
         (case myproc s of
            None \<Rightarrow> Fault
          | Some p \<Rightarrow>
              let addr = sint (p_sz (slot s p))
              in kbind (growproc (sint n) s) (\<lambda>r s.
                 if r < 0 then Ret (-1) s else Ret addr s)))"

text \<open>
  The loop of \<open>sys_sleep\<close>, entered with \<open>tickslock\<close> held. The comparison is one of unsigned
  numbers, since \<open>ticks - ticks0\<close> is unsigned. A process that is woken enters the loop again.
\<close>

definition sys_sleep_loop :: "uint32 \<Rightarrow> uint32 \<Rightarrow> 'a proc_state_scheme \<Rightarrow> (int, 'a proc_state_scheme) outcome" where
  "sys_sleep_loop ticks0 n s =
     (if ticks s - ticks0 < n then
        (case myproc s of
           None \<Rightarrow> Fault
         | Some p \<Rightarrow>
             if p_killed (slot s p) then kbind (release LkTicks s) (\<lambda>_ s. Ret (-1) s)
             else kbind (sleep ChTicks LkTicks s) (\<lambda>_ _. Fault))
      else kbind (release LkTicks s) (\<lambda>_ s. Ret 0 s))"

definition sys_sleep :: "'a proc_state_scheme \<Rightarrow> (int, 'a proc_state_scheme) outcome" where
  "sys_sleep s =
     kbind (argint 0 s) (\<lambda>n s.
     case n of
       None \<Rightarrow> Ret (-1) s
     | Some n \<Rightarrow> kbind (acquire LkTicks s) (\<lambda>_ s. sys_sleep_loop (ticks s) n s))"

definition sys_sleep_resume :: "uint32 \<Rightarrow> uint32 \<Rightarrow> 'a proc_state_scheme \<Rightarrow> (int, 'a proc_state_scheme) outcome" where
  "sys_sleep_resume ticks0 n s = kbind (sleep_resume LkTicks s) (\<lambda>_ s. sys_sleep_loop ticks0 n s)"

definition sys_uptime :: "'a proc_state_scheme \<Rightarrow> (int, 'a proc_state_scheme) outcome" where
  "sys_uptime s =
     kbind (acquire LkTicks s) (\<lambda>_ s.
     let xticks = ticks s
     in kbind (release LkTicks s) (\<lambda>_ s. Ret (sint xticks) s))"

section \<open>Arguments are checked\<close>

definition user_byte :: "'a proc_state_scheme \<Rightarrow> uint32 \<Rightarrow> uchar" where
  "user_byte s a = mem_byte (mem s) (the (translate False a s))"

definition user_bytes :: "'a proc_state_scheme \<Rightarrow> uint32 \<Rightarrow> nat \<Rightarrow> uchar list" where
  "user_bytes s a n = map (\<lambda>k. user_byte s (a + of_nat k)) [0..<n]"

text \<open>Every address below the size of the process has a page.\<close>

definition user_mapped :: "nat \<Rightarrow> 'a proc_state_scheme \<Rightarrow> bool" where
  "user_mapped p s \<longleftrightarrow> (\<forall>a. a < p_sz (slot s p) \<longrightarrow> translate False a s \<noteq> None)"

lemma user_bytes_Suc: "user_bytes s a (Suc n) = user_byte s a # user_bytes s (a + 1) n"
  unfolding user_bytes_def by (simp only: upt_conv_Cons [OF zero_less_Suc] map_Suc_upt [symmetric]) (simp add: algebra_simps)

lemma user_below:
  assumes "user_mapped p s" "unat a + n \<le> unat (p_sz (slot s p))" "k < n"
  shows "translate False (a + of_nat k) s \<noteq> None"
proof -
  have "unat a + k < 2 ^ 32" using assms(2,3) unsigned_less [where ?'a = nat, of "p_sz (slot s p)"] by simp
  then have "unat (a + of_nat k) = unat a + k" by (simp add: unat_word_ariths unsigned_of_nat take_bit_eq_mod)
  then have "a + of_nat k < p_sz (slot s p)" using assms(2,3) by (simp add: word_less_nat_alt)
  then show ?thesis using assms(1) by (simp add: user_mapped_def)
qed

lemma read_user_ok: "translate False a s \<noteq> None \<Longrightarrow> read_user a s = Ret (user_byte s a) s"
  by (auto simp: read_user_def user_byte_def)

lemma pages_Suc:
  assumes "\<And>k. k < Suc n \<Longrightarrow> translate False (a + of_nat k) s \<noteq> None"
  shows "translate False a s \<noteq> None" "k < n \<Longrightarrow> translate False (a + 1 + of_nat k) s \<noteq> None"
  using assms [of 0] assms [of "Suc k"] by (simp_all add: algebra_simps)

lemma read_users_ok:
  "(\<And>k. k < n \<Longrightarrow> translate False (a + of_nat k) s \<noteq> None) \<Longrightarrow> read_users n a s = Ret (user_bytes s a n) s"
proof (induction n arbitrary: a)
  case (Suc n)
  note M = pages_Suc [OF Suc.prems]
  show ?case using Suc.IH [of "a + 1"] M by (simp add: read_user_ok user_bytes_Suc)
qed (simp add: user_bytes_def)

lemma fetchstr_loop_ok:
  "(\<And>k. k < n \<Longrightarrow> translate False (a + of_nat k) s \<noteq> None) \<Longrightarrow>
     fetchstr_loop n a s = Ret (if 0 \<in> set (user_bytes s a n) then Some (takeWhile (\<lambda>c. c \<noteq> 0) (user_bytes s a n)) else None) s"
proof (induction n arbitrary: a)
  case (Suc n)
  note M = pages_Suc [OF Suc.prems]
  show ?case using Suc.IH [of "a + 1"] M by (auto simp: read_user_ok user_bytes_Suc)
qed (simp add: user_bytes_def)

text \<open>The checks of the size cannot be passed by wrapping around: a process has at most 2 GB.\<close>

lemma no_wrap_check:
  assumes "sz \<le> KERNBASE" "a < sz" "0 \<le> len" "len < 2 ^ 31"
  shows "sz < a + word_of_int len \<longleftrightarrow> unat sz < unat a + nat len"
proof -
  have "unat sz \<le> 2 ^ 31" using assms(1) by (simp add: KERNBASE_def word_le_nat_alt)
  then have "unat a + nat len < 2 ^ 32" using assms(2-4) by (simp add: word_less_nat_alt)
  moreover have "word_of_int len = (of_nat (nat len) :: uint32)" using assms(3) by simp
  ultimately have "unat (a + word_of_int len) = unat a + nat len" by (simp add: unat_word_ariths unsigned_of_nat take_bit_eq_mod)
  then show ?thesis by (simp add: word_less_nat_alt)
qed

lemma fetchint_ok:
  assumes "myproc s = Some p" "user_mapped p s" "p_sz (slot s p) \<le> KERNBASE"
  shows "fetchint a s = Ret (if unat a + 4 \<le> unat (p_sz (slot s p)) then Some (le32 (user_bytes s a 4)) else None) s"
proof (cases "unat a + 4 \<le> unat (p_sz (slot s p))")
  case True
  then have lt: "a < p_sz (slot s p)" by (simp add: word_less_nat_alt)
  then have "\<not> p_sz (slot s p) < a + 4" using no_wrap_check [OF assms(3) lt, of 4] True by simp
  moreover have "read_users 4 a s = Ret (user_bytes s a 4) s" using user_below [OF assms(2) True] by (rule read_users_ok)
  ultimately show ?thesis using assms(1) lt True by (simp add: fetchint_def read_int_def not_le)
next
  case False
  then have "p_sz (slot s p) \<le> a \<or> p_sz (slot s p) < a + 4"
    using no_wrap_check [OF assms(3), of a 4] by (cases "a < p_sz (slot s p)") (auto simp: not_le not_less)
  with False assms(1) show ?thesis by (simp add: fetchint_def)
qed

lemma fetchstr_ok:
  assumes "myproc s = Some p" "user_mapped p s"
  shows "fetchstr a s =
     (let bs = user_bytes s a (unat (p_sz (slot s p)) - unat a) in
      Ret (if 0 \<in> set bs then Some (takeWhile (\<lambda>c. c \<noteq> 0) bs) else None) s)"
proof (cases "a < p_sz (slot s p)")
  case True
  let ?n = "unat (p_sz (slot s p)) - unat a"
  have "unat a + ?n \<le> unat (p_sz (slot s p))" using True by (simp add: word_less_nat_alt)
  from fetchstr_loop_ok [OF user_below [OF assms(2) this]] assms(1) True show ?thesis
    by (simp add: fetchstr_def not_le Let_def)
next
  case False
  then show ?thesis using assms(1) by (simp add: fetchstr_def user_bytes_def word_less_nat_alt not_less word_le_nat_alt)
qed

text \<open>
  C38: System call arguments. For a process of at most 2 GB whose pages are all mapped, fetching
  an argument never faults and never leaves the memory of the process: an integer comes from four
  bytes below the size of the process, a pointer is accepted exactly when all len bytes at it lie
  below that size, also for lengths that would make the sum wrap around, and a string exactly
  when its terminating zero does. Everything else is refused, and the state never changes.
\<close>

theorem user_arguments_checked:
  assumes "myproc s = Some p" "user_mapped p s" "p_sz (slot s p) \<le> KERNBASE" "len < 2 ^ 31"
  shows "let sz = unat (p_sz (slot s p)); sp = tf_esp (p_tf (slot s p)) + 4 + 4 * of_nat n;
             arg = (if unat sp + 4 \<le> sz then Some (le32 (user_bytes s sp 4)) else None) in
     argint n s = Ret arg s \<and>
     argptr n len s = Ret (case arg of None \<Rightarrow> None
       | Some a \<Rightarrow> if 0 \<le> len \<and> unat a < sz \<and> unat a + nat len \<le> sz then Some a else None) s \<and>
     argstr n s = Ret (case arg of None \<Rightarrow> None
       | Some a \<Rightarrow> let bs = user_bytes s a (sz - unat a) in
           if 0 \<in> set bs then Some (takeWhile (\<lambda>c. c \<noteq> 0) bs) else None) s"
proof -
  let ?sz = "p_sz (slot s p)" let ?sp = "tf_esp (p_tf (slot s p)) + 4 + 4 * of_nat n"
  define arg where "arg = (if unat ?sp + 4 \<le> unat ?sz then Some (le32 (user_bytes s ?sp 4)) else None)"
  have i: "argint n s = Ret arg s" using assms(1) fetchint_ok [OF assms(1-3), of ?sp] by (simp add: argint_def arg_def)
  have "(0 \<le> len \<and> unat a < unat ?sz \<and> unat a + nat len \<le> unat ?sz) = (\<not> (len < 0 \<or> ?sz \<le> a \<or> ?sz < a + word_of_int len))" for a
    using no_wrap_check [OF assms(3) _ _ assms(4), of a] by (auto simp: not_le not_less word_less_nat_alt word_le_nat_alt)
  then have "argptr n len s = Ret (case arg of None \<Rightarrow> None
       | Some a \<Rightarrow> if 0 \<le> len \<and> unat a < unat ?sz \<and> unat a + nat len \<le> unat ?sz then Some a else None) s"
    using assms(1) i by (simp add: argptr_def split: option.split)
  moreover have "argstr n s = Ret (case arg of None \<Rightarrow> None
       | Some a \<Rightarrow> let bs = user_bytes s a (unat ?sz - unat a) in
           if 0 \<in> set bs then Some (takeWhile (\<lambda>c. c \<noteq> 0) bs) else None) s"
    using i fetchstr_ok [OF assms(1,2)] by (simp add: argstr_def Let_def split: option.split)
  ultimately show ?thesis using i unfolding Let_def arg_def by blast
qed

text \<open>An example: one page at address 0 is every page, and all of memory holds the number 7.\<close>

definition args_example :: "proc_state" where
  "args_example = (proc_example RR)\<lparr>mem := (\<lambda>_. 7), cr3 := 0,
     ptable := [proc0\<lparr>p_sz := 0x1000, p_tf := (p_tf proc0)\<lparr>tf_esp := 0\<rparr>\<rparr>]\<rparr>"

lemma args_example_simps:
  "myproc args_example = Some 0" "slot args_example 0 = proc0\<lparr>p_sz := 0x1000, p_tf := (p_tf proc0)\<lparr>tf_esp := 0\<rparr>\<rparr>"
  "mem args_example = (\<lambda>_. 7)" "translate False a args_example = Some (KERNBASE + (a AND 0xFFF))"
  by (simp_all add: args_example_def proc_example_def myproc_def translate_def Let_def present_def PTE_P_def PTE_ADDR_def P2V_def)

theorem user_arguments_checked_witness:
  "argint 0 args_example = Ret (Some 7) args_example \<and> argptr 0 16 args_example = Ret (Some 7) args_example \<and>
   argptr 0 0x1000 args_example = Ret None args_example \<and> argint 0x3FF args_example = Ret None args_example"
proof -
  have m: "user_mapped 0 args_example" by (simp add: user_mapped_def args_example_simps)
  have b: "le32 (user_bytes args_example 4 4) = 7"
    by (simp add: user_bytes_def user_byte_def args_example_simps upt_rec mem_byte_def KERNBASE_def un32_def le32_def)
  have k: "p_sz (slot args_example 0) \<le> KERNBASE" by (simp add: args_example_simps KERNBASE_def)
  note W = user_arguments_checked [OF args_example_simps(1) m k]
  show ?thesis using W [of 16 0] W [of "0x1000" 0] W [of 16 "0x3FF"] b by (simp add: args_example_simps Let_def)
qed

end
