(* ===== verification/Sysfile.thy ===== *)
theory Sysfile
  imports Sysproc
begin

text \<open>
  The system calls on files (\<open>sysfile.c\<close>). The bytes a call transfers are copied between user
  memory and the file layer when the call of the file layer starts or returns. Each definition is
  one function of the source; \<open>None\<close> is a null pointer.
\<close>

definition O_RDONLY :: uint32 where "O_RDONLY = 0x000"
definition O_WRONLY :: uint32 where "O_WRONLY = 0x001"
definition O_RDWR :: uint32 where "O_RDWR = 0x002"
definition O_CREATE :: uint32 where "O_CREATE = 0x200"

section \<open>File descriptors\<close>

definition argfd :: "nat \<Rightarrow> 'a proc_state_scheme \<Rightarrow> ((nat \<times> nat) option, 'a proc_state_scheme) outcome" where
  "argfd n s =
     kbind (argint n s) (\<lambda>fd s.
     case fd of
       None \<Rightarrow> Ret None s
     | Some fd \<Rightarrow>
         if sint fd < 0 \<or> int NOFILE \<le> sint fd then Ret None s
         else
           (case myproc s of
              None \<Rightarrow> Fault
            | Some p \<Rightarrow> Ret (map_option (\<lambda>f. (unat fd, f)) (p_ofile (slot s p) ! unat fd)) s))"

definition fdalloc :: "nat \<Rightarrow> 'a proc_state_scheme \<Rightarrow> (nat option, 'a proc_state_scheme) outcome" where
  "fdalloc f s =
     (case myproc s of
        None \<Rightarrow> Fault
      | Some p \<Rightarrow>
          (case find (\<lambda>fd. p_ofile (slot s p) ! fd = None) [0..<NOFILE] of
             None \<Rightarrow> Ret None s
           | Some fd \<Rightarrow> Ret (Some fd) (upd_proc p (\<lambda>r. r\<lparr>p_ofile := (p_ofile r)[fd := Some f]\<rparr>) s)))"

definition clear_fd :: "nat \<Rightarrow> 'a proc_state_scheme \<Rightarrow> (unit, 'a proc_state_scheme) outcome" where
  "clear_fd fd s =
     (case myproc s of
        None \<Rightarrow> Fault
      | Some p \<Rightarrow> Ret () (upd_proc p (\<lambda>r. r\<lparr>p_ofile := (p_ofile r)[fd := None]\<rparr>) s))"

definition sys_dup :: "'a file_state_scheme \<Rightarrow> (int, 'a file_state_scheme) outcome" where
  "sys_dup s =
     kbind (argfd 0 s) (\<lambda>f s.
     case f of
       None \<Rightarrow> Ret (-1) s
     | Some (_, f) \<Rightarrow>
         kbind (fdalloc f s) (\<lambda>fd s.
         case fd of
           None \<Rightarrow> Ret (-1) s
         | Some fd \<Rightarrow> kbind (filedup f s) (\<lambda>_ s. Ret (int fd) s)))"

text \<open>The three arguments of \<open>read\<close> and \<open>write\<close>: the file, the length and the address.\<close>

definition rw_args :: "'a proc_state_scheme \<Rightarrow> ((nat \<times> int \<times> uint32) option, 'a proc_state_scheme) outcome" where
  "rw_args s =
     kbind (argfd 0 s) (\<lambda>f s.
     case f of
       None \<Rightarrow> Ret None s
     | Some (_, f) \<Rightarrow>
         kbind (argint 2 s) (\<lambda>n s.
         case n of
           None \<Rightarrow> Ret None s
         | Some n \<Rightarrow>
             kbind (argptr 1 (sint n) s) (\<lambda>p s.
             Ret (map_option (\<lambda>p. (f, sint n, p)) p) s)))"

definition sys_read :: "'a file_state_scheme devread \<Rightarrow> 'a file_state_scheme \<Rightarrow> (int, 'a file_state_scheme) outcome" where
  "sys_read dread s =
     kbind (rw_args s) (\<lambda>r s.
     case r of
       None \<Rightarrow> Ret (-1) s
     | Some (f, n, p) \<Rightarrow>
         kbind (fileread dread f n s) (\<lambda>r s.
         kbind (write_users p (snd r) s) (\<lambda>_ s. Ret (fst r) s)))"

definition sys_write :: "'a file_state_scheme devwrite \<Rightarrow> 'a file_state_scheme \<Rightarrow> (int, 'a file_state_scheme) outcome" where
  "sys_write dwrite s =
     kbind (rw_args s) (\<lambda>r s.
     case r of
       None \<Rightarrow> Ret (-1) s
     | Some (f, n, p) \<Rightarrow>
         kbind (read_users (nat n) p s) (\<lambda>cs s. filewrite dwrite f cs s))"

definition sys_close :: "'a file_state_scheme \<Rightarrow> (int, 'a file_state_scheme) outcome" where
  "sys_close s =
     kbind (argfd 0 s) (\<lambda>f s.
     case f of
       None \<Rightarrow> Ret (-1) s
     | Some (fd, f) \<Rightarrow>
         kbind (clear_fd fd s) (\<lambda>_ s.
         kbind (fileclose f s) (\<lambda>_ s. Ret 0 s)))"

text \<open>The structure is twenty bytes; its padding keeps what was there.\<close>

definition put_stat :: "uint32 \<Rightarrow> fstat \<Rightarrow> 'a proc_state_scheme \<Rightarrow> (unit, 'a proc_state_scheme) outcome" where
  "put_stat st r s =
     kbind (write_users (st + 4) (un32 (st_dev r)) s) (\<lambda>_ s.
     kbind (write_users (st + 8) (un32 (st_ino r)) s) (\<lambda>_ s.
     kbind (write_users st (un16 (st_type r)) s) (\<lambda>_ s.
     kbind (write_users (st + 12) (un16 (st_nlink r)) s) (\<lambda>_ s.
     write_users (st + 16) (un32 (st_size r)) s))))"

definition sys_fstat :: "'a file_state_scheme \<Rightarrow> (int, 'a file_state_scheme) outcome" where
  "sys_fstat s =
     kbind (argfd 0 s) (\<lambda>f s.
     case f of
       None \<Rightarrow> Ret (-1) s
     | Some (_, f) \<Rightarrow>
         kbind (argptr 1 20 s) (\<lambda>st s.
         case st of
           None \<Rightarrow> Ret (-1) s
         | Some st \<Rightarrow>
             kbind (filestat f s) (\<lambda>r s.
             case r of
               None \<Rightarrow> Ret (-1) s
             | Some r \<Rightarrow> kbind (put_stat st r s) (\<lambda>_ s. Ret 0 s))))"

section \<open>Links\<close>

definition end_op_ret :: "int \<Rightarrow> 'a file_state_scheme \<Rightarrow> (int, 'a file_state_scheme) outcome" where
  "end_op_ret r s = kbind (end_op s) (\<lambda>_ s. Ret r s)"

definition add_nlink :: "nat \<Rightarrow> ushort \<Rightarrow> 'a file_state_scheme \<Rightarrow> (unit, 'a file_state_scheme) outcome" where
  "add_nlink ip d s = iupdate ip (upd_ino ip (\<lambda>r. r\<lparr>i_nlink := i_nlink r + d\<rparr>) s)"

definition sys_link_bad :: "nat \<Rightarrow> 'a file_state_scheme \<Rightarrow> (int, 'a file_state_scheme) outcome" where
  "sys_link_bad ip s =
     kbind (ilock (Some ip) s) (\<lambda>_ s.
     kbind (add_nlink ip (-1) s) (\<lambda>_ s.
     kbind (iunlockput ip s) (\<lambda>_ s. end_op_ret (-1) s)))"

definition sys_link :: "'a file_state_scheme devread \<Rightarrow> 'a file_state_scheme devwrite \<Rightarrow> 'a file_state_scheme \<Rightarrow>
    (int, 'a file_state_scheme) outcome" where
  "sys_link dread dwrite s =
     kbind (argstr 0 s) (\<lambda>old s.
     case old of
       None \<Rightarrow> Ret (-1) s
     | Some old \<Rightarrow>
         kbind (argstr 1 s) (\<lambda>new s.
         case new of
           None \<Rightarrow> Ret (-1) s
         | Some new \<Rightarrow>
             kbind (begin_op s) (\<lambda>_ s.
             kbind (namei dread (old @ [0]) s) (\<lambda>ip s.
             case ip of
               None \<Rightarrow> end_op_ret (-1) s
             | Some ip \<Rightarrow>
                 kbind (ilock (Some ip) s) (\<lambda>_ s.
                 if i_type (ino s ip) = T_DIR then kbind (iunlockput ip s) (\<lambda>_ s. end_op_ret (-1) s)
                 else
                   kbind (add_nlink ip 1 s) (\<lambda>_ s.
                   kbind (iunlock (Some ip) s) (\<lambda>_ s.
                   kbind (nameiparent dread (new @ [0]) (replicate DIRSIZ 0) s) (\<lambda>r s.
                   case fst r of
                     None \<Rightarrow> sys_link_bad ip s
                   | Some dp \<Rightarrow>
                       kbind (ilock (Some dp) s) (\<lambda>_ s.
                       kbind (if i_dev (ino s dp) \<noteq> i_dev (ino s ip) then Ret (-1) s
                              else dirlink dread dwrite dp (snd r) (i_inum (ino s ip)) s) (\<lambda>r s.
                       if r < 0 then kbind (iunlockput dp s) (\<lambda>_ s. sys_link_bad ip s)
                       else
                         kbind (iunlockput dp s) (\<lambda>_ s.
                         kbind (iput ip s) (\<lambda>_ s. end_op_ret 0 s))))))))))))"

fun isdirempty_loop :: "'a file_state_scheme devread \<Rightarrow> nat \<Rightarrow> nat list \<Rightarrow> 'a file_state_scheme \<Rightarrow>
    (bool, 'a file_state_scheme) outcome" where
  "isdirempty_loop dread dp [] s = Ret True s"
| "isdirempty_loop dread dp (off # offs) s =
     kbind (readi dread dp (of_nat off) (of_nat sizeof_dirent) s) (\<lambda>r s.
     if fst r \<noteq> int sizeof_dirent then Panic ''isdirempty: readi''
     else if de_inum (dirent_of (snd r)) \<noteq> 0 then Ret False s
     else isdirempty_loop dread dp offs s)"

text \<open>The entries after the first two, which are \<open>.\<close> and \<open>..\<close>.\<close>

definition isdirempty :: "'a file_state_scheme devread \<Rightarrow> nat \<Rightarrow> 'a file_state_scheme \<Rightarrow> (bool, 'a file_state_scheme) outcome" where
  "isdirempty dread dp s = isdirempty_loop dread dp (drop 2 (dir_offs (i_size (ino s dp)))) s"

definition dot :: "uchar list" where "dot = [46, 0]"
definition dotdot :: "uchar list" where "dotdot = [46, 46, 0]"

definition sys_unlink_bad :: "nat \<Rightarrow> 'a file_state_scheme \<Rightarrow> (int, 'a file_state_scheme) outcome" where
  "sys_unlink_bad dp s = kbind (iunlockput dp s) (\<lambda>_ s. end_op_ret (-1) s)"

text \<open>The part of \<open>sys_unlink\<close> that takes the entry at \<open>off\<close> away.\<close>

definition unlink_entry :: "'a file_state_scheme devwrite \<Rightarrow> nat \<Rightarrow> nat \<Rightarrow> uint32 \<Rightarrow> 'a file_state_scheme \<Rightarrow>
    (int, 'a file_state_scheme) outcome" where
  "unlink_entry dwrite dp ip off s =
     kbind (writei dwrite dp (replicate sizeof_dirent 0) off s) (\<lambda>r s.
     if r \<noteq> int sizeof_dirent then Panic ''unlink: writei''
     else
       kbind (if i_type (ino s ip) = T_DIR then add_nlink dp (-1) s else Ret () s) (\<lambda>_ s.
       kbind (iunlockput dp s) (\<lambda>_ s.
       kbind (add_nlink ip (-1) s) (\<lambda>_ s.
       kbind (iunlockput ip s) (\<lambda>_ s. end_op_ret 0 s)))))"

definition sys_unlink :: "'a file_state_scheme devread \<Rightarrow> 'a file_state_scheme devwrite \<Rightarrow> 'a file_state_scheme \<Rightarrow>
    (int, 'a file_state_scheme) outcome" where
  "sys_unlink dread dwrite s =
     kbind (argstr 0 s) (\<lambda>path s.
     case path of
       None \<Rightarrow> Ret (-1) s
     | Some path \<Rightarrow>
         kbind (begin_op s) (\<lambda>_ s.
         kbind (nameiparent dread (path @ [0]) (replicate DIRSIZ 0) s) (\<lambda>r s.
         case fst r of
           None \<Rightarrow> end_op_ret (-1) s
         | Some dp \<Rightarrow>
             kbind (ilock (Some dp) s) (\<lambda>_ s.
             if namecmp (snd r) dot = 0 \<or> namecmp (snd r) dotdot = 0 then sys_unlink_bad dp s
             else
               kbind (dirlookup dread dp (snd r) s) (\<lambda>e s.
               case e of
                 None \<Rightarrow> sys_unlink_bad dp s
               | Some (ip, off) \<Rightarrow>
                   kbind (ilock (Some ip) s) (\<lambda>_ s.
                   if sint (i_nlink (ino s ip)) < 1 then Panic ''unlink: nlink < 1''
                   else
                     kbind (if i_type (ino s ip) = T_DIR then isdirempty dread ip s else Ret True s) (\<lambda>empty s.
                     if \<not> empty then kbind (iunlockput ip s) (\<lambda>_ s. sys_unlink_bad dp s)
                     else unlink_entry dwrite dp ip off s)))))))"

section \<open>Creating and opening files\<close>

text \<open>The part of \<open>create\<close> that fills a fresh inode.\<close>

definition create_new :: "'a file_state_scheme devread \<Rightarrow> 'a file_state_scheme devwrite \<Rightarrow> nat \<Rightarrow> uchar list \<Rightarrow>
    ushort \<Rightarrow> ushort \<Rightarrow> ushort \<Rightarrow> 'a file_state_scheme \<Rightarrow> (nat option, 'a file_state_scheme) outcome" where
  "create_new dread dwrite dp name ty major minor s =
     kbind (ialloc (i_dev (ino s dp)) ty s) (\<lambda>ip s.
     kbind (ilock (Some ip) s) (\<lambda>_ s.
     let s = upd_ino ip (\<lambda>r. r\<lparr>i_major := major, i_minor := minor, i_nlink := 1\<rparr>) s
     in kbind (iupdate ip s) (\<lambda>_ s.
        kbind (if ty = T_DIR then
                 kbind (add_nlink dp 1 s) (\<lambda>_ s.
                 kbind (dirlink dread dwrite ip dot (i_inum (ino s ip)) s) (\<lambda>r s.
                 if r < 0 then Panic ''create dots''
                 else
                   kbind (dirlink dread dwrite ip dotdot (i_inum (ino s dp)) s) (\<lambda>r s.
                   if r < 0 then Panic ''create dots'' else Ret () s)))
               else Ret () s) (\<lambda>_ s.
        kbind (dirlink dread dwrite dp name (i_inum (ino s ip)) s) (\<lambda>r s.
        if r < 0 then Panic ''create: dirlink''
        else kbind (iunlockput dp s) (\<lambda>_ s. Ret (Some ip) s))))))"

definition create :: "'a file_state_scheme devread \<Rightarrow> 'a file_state_scheme devwrite \<Rightarrow> uchar list \<Rightarrow> ushort \<Rightarrow> ushort \<Rightarrow>
    ushort \<Rightarrow> 'a file_state_scheme \<Rightarrow> (nat option, 'a file_state_scheme) outcome" where
  "create dread dwrite path ty major minor s =
     kbind (nameiparent dread (path @ [0]) (replicate DIRSIZ 0) s) (\<lambda>r s.
     case fst r of
       None \<Rightarrow> Ret None s
     | Some dp \<Rightarrow>
         kbind (ilock (Some dp) s) (\<lambda>_ s.
         kbind (dirlookup dread dp (snd r) s) (\<lambda>e s.
         case e of
           Some (ip, _) \<Rightarrow>
             kbind (iunlockput dp s) (\<lambda>_ s.
             kbind (ilock (Some ip) s) (\<lambda>_ s.
             if ty = T_FILE \<and> i_type (ino s ip) = T_FILE then Ret (Some ip) s
             else kbind (iunlockput ip s) (\<lambda>_ s. Ret None s)))
         | None \<Rightarrow> create_new dread dwrite dp (snd r) ty major minor s)))"

text \<open>The part of \<open>sys_open\<close> up to the locked inode; \<open>None\<close> when the call has failed.\<close>

definition open_inode :: "'a file_state_scheme devread \<Rightarrow> 'a file_state_scheme devwrite \<Rightarrow> uchar list \<Rightarrow> uint32 \<Rightarrow>
    'a file_state_scheme \<Rightarrow> (nat option, 'a file_state_scheme) outcome" where
  "open_inode dread dwrite path omode s =
     (if omode AND O_CREATE \<noteq> 0 then
        kbind (create dread dwrite path T_FILE 0 0 s) (\<lambda>ip s.
        case ip of
          None \<Rightarrow> kbind (end_op s) (\<lambda>_ s. Ret None s)
        | Some ip \<Rightarrow> Ret (Some ip) s)
      else
        kbind (namei dread (path @ [0]) s) (\<lambda>ip s.
        case ip of
          None \<Rightarrow> kbind (end_op s) (\<lambda>_ s. Ret None s)
        | Some ip \<Rightarrow>
            kbind (ilock (Some ip) s) (\<lambda>_ s.
            if i_type (ino s ip) = T_DIR \<and> omode \<noteq> O_RDONLY then
              kbind (iunlockput ip s) (\<lambda>_ s. kbind (end_op s) (\<lambda>_ s. Ret None s))
            else Ret (Some ip) s)))"

definition sys_open :: "'a file_state_scheme devread \<Rightarrow> 'a file_state_scheme devwrite \<Rightarrow> 'a file_state_scheme \<Rightarrow>
    (int, 'a file_state_scheme) outcome" where
  "sys_open dread dwrite s =
     kbind (argstr 0 s) (\<lambda>path s.
     case path of
       None \<Rightarrow> Ret (-1) s
     | Some path \<Rightarrow>
         kbind (argint 1 s) (\<lambda>omode s.
         case omode of
           None \<Rightarrow> Ret (-1) s
         | Some omode \<Rightarrow>
             kbind (begin_op s) (\<lambda>_ s.
             kbind (open_inode dread dwrite path omode s) (\<lambda>ip s.
             case ip of
               None \<Rightarrow> Ret (-1) s
             | Some ip \<Rightarrow>
                 kbind (filealloc s) (\<lambda>f s.
                 case f of
                   None \<Rightarrow> kbind (iunlockput ip s) (\<lambda>_ s. end_op_ret (-1) s)
                 | Some f \<Rightarrow>
                     kbind (fdalloc f s) (\<lambda>fd s.
                     case fd of
                       None \<Rightarrow> kbind (fileclose f s) (\<lambda>_ s. kbind (iunlockput ip s) (\<lambda>_ s. end_op_ret (-1) s))
                     | Some fd \<Rightarrow>
                         kbind (iunlock (Some ip) s) (\<lambda>_ s.
                         kbind (end_op s) (\<lambda>_ s.
                         Ret (int fd) (upd_file f (\<lambda>r. r\<lparr>f_type := FD_INODE, f_ip := ip, f_off := 0,
                           f_readable := (omode AND O_WRONLY = 0),
                           f_writable := (omode AND O_WRONLY \<noteq> 0 \<or> omode AND O_RDWR \<noteq> 0)\<rparr>) s)))))))))"

definition sys_mkdir :: "'a file_state_scheme devread \<Rightarrow> 'a file_state_scheme devwrite \<Rightarrow> 'a file_state_scheme \<Rightarrow>
    (int, 'a file_state_scheme) outcome" where
  "sys_mkdir dread dwrite s =
     kbind (begin_op s) (\<lambda>_ s.
     kbind (argstr 0 s) (\<lambda>path s.
     kbind (case path of None \<Rightarrow> Ret None s | Some path \<Rightarrow> create dread dwrite path T_DIR 0 0 s) (\<lambda>ip s.
     case ip of
       None \<Rightarrow> end_op_ret (-1) s
     | Some ip \<Rightarrow> kbind (iunlockput ip s) (\<lambda>_ s. end_op_ret 0 s))))"

definition sys_mknod :: "'a file_state_scheme devread \<Rightarrow> 'a file_state_scheme devwrite \<Rightarrow> 'a file_state_scheme \<Rightarrow>
    (int, 'a file_state_scheme) outcome" where
  "sys_mknod dread dwrite s =
     kbind (begin_op s) (\<lambda>_ s.
     kbind (argstr 0 s) (\<lambda>path s.
     case path of
       None \<Rightarrow> end_op_ret (-1) s
     | Some path \<Rightarrow>
         kbind (argint 1 s) (\<lambda>major s.
         case major of
           None \<Rightarrow> end_op_ret (-1) s
         | Some major \<Rightarrow>
             kbind (argint 2 s) (\<lambda>minor s.
             case minor of
               None \<Rightarrow> end_op_ret (-1) s
             | Some minor \<Rightarrow>
                 kbind (create dread dwrite path T_DEV (ucast major) (ucast minor) s) (\<lambda>ip s.
                 case ip of
                   None \<Rightarrow> end_op_ret (-1) s
                 | Some ip \<Rightarrow> kbind (iunlockput ip s) (\<lambda>_ s. end_op_ret 0 s))))))"

definition sys_chdir :: "'a file_state_scheme devread \<Rightarrow> 'a file_state_scheme \<Rightarrow> (int, 'a file_state_scheme) outcome" where
  "sys_chdir dread s =
     (case myproc s of
        None \<Rightarrow> Fault
      | Some p \<Rightarrow>
          kbind (begin_op s) (\<lambda>_ s.
          kbind (argstr 0 s) (\<lambda>path s.
          kbind (case path of None \<Rightarrow> Ret None s | Some path \<Rightarrow> namei dread (path @ [0]) s) (\<lambda>ip s.
          case ip of
            None \<Rightarrow> end_op_ret (-1) s
          | Some ip \<Rightarrow>
              kbind (ilock (Some ip) s) (\<lambda>_ s.
              if i_type (ino s ip) \<noteq> T_DIR then kbind (iunlockput ip s) (\<lambda>_ s. end_op_ret (-1) s)
              else
                kbind (iunlock (Some ip) s) (\<lambda>_ s.
                kbind (case p_cwd (slot s p) of None \<Rightarrow> Fault | Some cwd \<Rightarrow> iput cwd s) (\<lambda>_ s.
                kbind (end_op s) (\<lambda>_ s.
                Ret 0 (upd_proc p (\<lambda>r. r\<lparr>p_cwd := Some ip\<rparr>) s))))))))) "

section \<open>exec and pipe\<close>

text \<open>The loop of \<open>sys_exec\<close>: fetches the arguments from index \<open>MAXARG - n\<close> on.\<close>

primrec exec_argv :: "nat \<Rightarrow> uint32 \<Rightarrow> 'a proc_state_scheme \<Rightarrow> (uchar list list option, 'a proc_state_scheme) outcome" where
  "exec_argv 0 uargv s = Ret None s"
| "exec_argv (Suc n) uargv s =
     kbind (fetchint uargv s) (\<lambda>uarg s.
     case uarg of
       None \<Rightarrow> Ret None s
     | Some uarg \<Rightarrow>
         if uarg = 0 then Ret (Some []) s
         else
           kbind (fetchstr uarg s) (\<lambda>str s.
           case str of
             None \<Rightarrow> Ret None s
           | Some str \<Rightarrow>
               kbind (exec_argv n (uargv + 4) s) (\<lambda>r s. Ret (map_option ((#) str) r) s)))"

definition sys_exec :: "uint32 \<Rightarrow> 'a file_state_scheme devread \<Rightarrow> 'a file_state_scheme \<Rightarrow> (int, 'a file_state_scheme) outcome" where
  "sys_exec data dread s =
     kbind (argstr 0 s) (\<lambda>path s.
     case path of
       None \<Rightarrow> Ret (-1) s
     | Some path \<Rightarrow>
         kbind (argint 1 s) (\<lambda>uargv s.
         case uargv of
           None \<Rightarrow> Ret (-1) s
         | Some uargv \<Rightarrow>
             kbind (exec_argv MAXARG uargv s) (\<lambda>argv s.
             case argv of
               None \<Rightarrow> Ret (-1) s
             | Some argv \<Rightarrow> exec data dread path argv s)))"

definition sys_pipe :: "'a file_state_scheme \<Rightarrow> (int, 'a file_state_scheme) outcome" where
  "sys_pipe s =
     kbind (argptr 0 8 s) (\<lambda>fd s.
     case fd of
       None \<Rightarrow> Ret (-1) s
     | Some fd \<Rightarrow>
         kbind (pipealloc s) (\<lambda>r s.
         case r of
           None \<Rightarrow> Ret (-1) s
         | Some (rf, wrf) \<Rightarrow>
             kbind (fdalloc rf s) (\<lambda>fd0 s.
             case fd0 of
               None \<Rightarrow> kbind (fileclose rf s) (\<lambda>_ s. kbind (fileclose wrf s) (\<lambda>_ s. Ret (-1) s))
             | Some fd0 \<Rightarrow>
                 kbind (fdalloc wrf s) (\<lambda>fd1 s.
                 case fd1 of
                   None \<Rightarrow>
                     kbind (clear_fd fd0 s) (\<lambda>_ s.
                     kbind (fileclose rf s) (\<lambda>_ s.
                     kbind (fileclose wrf s) (\<lambda>_ s. Ret (-1) s)))
                 | Some fd1 \<Rightarrow>
                     kbind (write_int fd (int fd0) s) (\<lambda>_ s.
                     kbind (write_int (fd + 4) (int fd1) s) (\<lambda>_ s. Ret 0 s))))))"

end
