(* ===== verification/Syscall.thy ===== *)
theory Syscall
  imports Sysfile
begin

text \<open>
  The dispatch of system calls (\<open>syscall.c\<close>, \<open>syscall.h\<close>): the number is in \<open>eax\<close> of the saved
  registers, and so is the result afterwards.
\<close>

definition syscalls :: "uint32 \<Rightarrow> 'a file_state_scheme devread \<Rightarrow> 'a file_state_scheme devwrite \<Rightarrow> int \<Rightarrow>
    ('a file_state_scheme \<Rightarrow> (int, 'a file_state_scheme) outcome) option" where
  "syscalls data dread dwrite num =
     (if num = 1 then Some (sys_fork data)
      else if num = 2 then Some sys_exit
      else if num = 3 then Some sys_wait
      else if num = 4 then Some sys_pipe
      else if num = 5 then Some (sys_read dread)
      else if num = 6 then Some sys_kill
      else if num = 7 then Some (sys_exec data dread)
      else if num = 8 then Some sys_fstat
      else if num = 9 then Some (sys_chdir dread)
      else if num = 10 then Some sys_dup
      else if num = 11 then Some sys_getpid
      else if num = 12 then Some sys_sbrk
      else if num = 13 then Some sys_sleep
      else if num = 14 then Some sys_uptime
      else if num = 15 then Some (sys_open dread dwrite)
      else if num = 16 then Some (sys_write dwrite)
      else if num = 17 then Some (sys_mknod dread dwrite)
      else if num = 18 then Some (sys_unlink dread dwrite)
      else if num = 19 then Some (sys_link dread dwrite)
      else if num = 20 then Some (sys_mkdir dread dwrite)
      else if num = 21 then Some sys_close
      else if num = 22 then Some sys_waitx
      else if num = 23 then Some sys_get_ps_data
      else if num = 24 then Some sys_set_priority
      else None)"

definition set_eax :: "nat \<Rightarrow> int \<Rightarrow> 'a proc_state_scheme \<Rightarrow> 'a proc_state_scheme" where
  "set_eax p r s = upd_proc p (\<lambda>q. q\<lparr>p_tf := (p_tf q)\<lparr>tf_eax := word_of_int r\<rparr>\<rparr>) s"

definition syscall :: "uint32 \<Rightarrow> 'a file_state_scheme devread \<Rightarrow> 'a file_state_scheme devwrite \<Rightarrow> 'a file_state_scheme \<Rightarrow>
    (unit, 'a file_state_scheme) outcome" where
  "syscall data dread dwrite s =
     (case myproc s of
        None \<Rightarrow> Fault
      | Some p \<Rightarrow>
          (case syscalls data dread dwrite (sint (tf_eax (p_tf (slot s p)))) of
             Some f \<Rightarrow> kbind (f s) (\<lambda>r s. Ret () (set_eax p r s))
           | None \<Rightarrow> Ret () (set_eax p (-1) s)))"

end
