(* ===== verification/Format.thy ===== *)
theory Format
  imports Prelude
begin

text \<open>
  Formatted output: \<open>printint\<close> and \<open>cprintf\<close> of the kernel (\<open>console.c\<close>), \<open>printint\<close> and
  \<open>printf\<close> of the user library (\<open>printf.c\<close>), and \<open>atoi\<close> of \<open>ulib.c\<close>. Output is the string
  that is sent, character by character, to the console or to a file.
\<close>

section \<open>Numbers\<close>

text \<open>The loop over the digits, in the order they are stored in \<open>buf\<close>: the lowest first.\<close>

function print_digits :: "string \<Rightarrow> nat \<Rightarrow> nat \<Rightarrow> string" where
  "print_digits digits x base =
     (if base < 2 then []
      else digits ! (x mod base) # (if x div base = 0 then [] else print_digits digits (x div base) base))"
  by pat_completeness auto
termination
proof (relation "measure (\<lambda>(digits, x, base). x)")
  fix digits :: string and x base :: nat
  assume "\<not> base < 2" "x div base \<noteq> 0"
  moreover from this(2) have "0 < x" by (cases x) simp_all
  ultimately show "((digits, x div base, base), digits, x, base) \<in> measure (\<lambda>(digits, x, base). x)"
    by (simp add: div_less_dividend)
qed simp

declare print_digits.simps [simp del]

text \<open>The contents of \<open>buf\<close>, which is printed from its end, for the digits of one of the two files.\<close>

definition printint_buf :: "string \<Rightarrow> uint32 \<Rightarrow> nat \<Rightarrow> bool \<Rightarrow> string" where
  "printint_buf digits xx base sign =
     (let neg = (sign \<and> sint xx < 0);
          x = (if neg then - xx else xx)
      in print_digits digits (unat x) base @ (if neg then ''-'' else []))"

definition printint :: "uint32 \<Rightarrow> nat \<Rightarrow> bool \<Rightarrow> string" where
  "printint xx base sign = rev (printint_buf ''0123456789abcdef'' xx base sign)"

definition printint_user :: "uint32 \<Rightarrow> nat \<Rightarrow> bool \<Rightarrow> string" where
  "printint_user xx base sign = rev (printint_buf ''0123456789ABCDEF'' xx base sign)"

definition is_digit :: "char \<Rightarrow> bool" where
  "is_digit c \<longleftrightarrow> c \<in> set ''0123456789''"

fun atoi_from :: "int \<Rightarrow> string \<Rightarrow> int" where
  "atoi_from n [] = n"
| "atoi_from n (c # s) =
     (if is_digit c then atoi_from (n * 10 + of_char c - of_char (CHR ''0'')) s else n)"

definition atoi :: "string \<Rightarrow> int" where
  "atoi s = atoi_from 0 s"

section \<open>Formats\<close>

text \<open>An argument on the stack: an integer, or a pointer to a string that may be null.\<close>

datatype fmt_arg = ArgInt uint32 | ArgStr "string option"

definition arg_str :: "string option \<Rightarrow> string" where
  "arg_str st = (case st of None \<Rightarrow> ''(null)'' | Some st \<Rightarrow> st)"

text \<open>
  What \<open>cprintf\<close> prints for a format and its arguments; \<open>None\<close> when the format asks for an
  argument that is not there, or for one of the other kind.
\<close>

fun cprintf :: "string \<Rightarrow> fmt_arg list \<Rightarrow> string option" where
  "cprintf [] args = Some []"
| "cprintf [c] args = (if c \<noteq> CHR ''%'' then Some [c] else Some [])"
| "cprintf (c # d # fmt) args =
     (if c \<noteq> CHR ''%'' then map_option ((#) c) (cprintf (d # fmt) args)
      else if d = CHR ''d'' then
        (case args of ArgInt i # args' \<Rightarrow> map_option ((@) (printint i 10 True)) (cprintf fmt args') | _ \<Rightarrow> None)
      else if d = CHR ''x'' \<or> d = CHR ''p'' then
        (case args of ArgInt i # args' \<Rightarrow> map_option ((@) (printint i 16 False)) (cprintf fmt args') | _ \<Rightarrow> None)
      else if d = CHR ''s'' then
        (case args of ArgStr st # args' \<Rightarrow> map_option ((@) (arg_str st)) (cprintf fmt args') | _ \<Rightarrow> None)
      else if d = CHR ''%'' then map_option ((#) d) (cprintf fmt args)
      else map_option ((@) [CHR ''%'', d]) (cprintf fmt args))"

text \<open>\<open>printf\<close> keeps the variable \<open>state\<close>, which is true after a percent sign.\<close>

fun printf_from :: "bool \<Rightarrow> string \<Rightarrow> fmt_arg list \<Rightarrow> string option" where
  "printf_from st [] args = Some []"
| "printf_from st (c # fmt) args =
     (if \<not> st then
        (if c = CHR ''%'' then printf_from True fmt args else map_option ((#) c) (printf_from False fmt args))
      else if c = CHR ''d'' then
        (case args of ArgInt i # args' \<Rightarrow> map_option ((@) (printint_user i 10 True)) (printf_from False fmt args') | _ \<Rightarrow> None)
      else if c = CHR ''x'' \<or> c = CHR ''p'' then
        (case args of ArgInt i # args' \<Rightarrow> map_option ((@) (printint_user i 16 False)) (printf_from False fmt args') | _ \<Rightarrow> None)
      else if c = CHR ''s'' then
        (case args of ArgStr s # args' \<Rightarrow> map_option ((@) (arg_str s)) (printf_from False fmt args') | _ \<Rightarrow> None)
      else if c = CHR ''c'' then
        (case args of ArgInt i # args' \<Rightarrow> map_option ((#) (char_of (unat i))) (printf_from False fmt args') | _ \<Rightarrow> None)
      else if c = CHR ''%'' then map_option ((#) c) (printf_from False fmt args)
      else map_option ((@) [CHR ''%'', c]) (printf_from False fmt args))"

definition printf :: "string \<Rightarrow> fmt_arg list \<Rightarrow> string option" where
  "printf fmt args = printf_from False fmt args"

section \<open>Reading numbers back\<close>

definition digit_value :: "char \<Rightarrow> nat" where
  "digit_value c =
     (let n = of_char c in if n < 58 then n - 48 else if n < 71 then n - 55 else n - 87)"

definition value_of :: "nat \<Rightarrow> string \<Rightarrow> nat" where
  "value_of base s = foldl (\<lambda>n c. n * base + digit_value c) 0 s"

definition signed_value :: "string \<Rightarrow> int" where
  "signed_value s = (if s \<noteq> [] \<and> hd s = CHR ''-'' then - int (value_of 10 (tl s)) else int (value_of 10 s))"

definition digits_ok :: "string \<Rightarrow> nat \<Rightarrow> bool" where
  "digits_ok digits base \<longleftrightarrow> (\<forall>d<base. digit_value (digits ! d) = d)"

lemma digits_ok_tables:
  "digits_ok ''0123456789abcdef'' 16" "digits_ok ''0123456789abcdef'' 10"
  "digits_ok ''0123456789ABCDEF'' 16" "digits_ok ''0123456789ABCDEF'' 10"
  by (simp_all add: digits_ok_def digit_value_def Let_def eval_nat_numeral All_less_Suc)

lemma value_of_print_digits:
  assumes "2 \<le> base" "digits_ok digits base"
  shows "value_of base (rev (print_digits digits x base)) = x"
  using assms
proof (induction digits x base rule: print_digits.induct)
  case (1 digits x base)
  show ?case
  proof (cases "x div base = 0")
    case True
    then have "x < base" using 1(2) by (simp add: div_eq_0_iff)
    with 1(2,3) True show ?thesis
      by (auto simp: print_digits.simps [of digits x] value_of_def digits_ok_def)
  next
    case False
    have "value_of base (rev (print_digits digits x base)) =
        value_of base (rev (print_digits digits (x div base) base)) * base + digit_value (digits ! (x mod base))"
      using 1(2) False by (simp add: print_digits.simps [of digits x] value_of_def)
    also have "\<dots> = (x div base) * base + x mod base"
      using 1 False by (simp add: digits_ok_def)
    finally show ?thesis by simp
  qed
qed

lemma length_print_digits:
  assumes "2 \<le> base" "x < base ^ Suc k"
  shows "length (print_digits digits x base) \<le> Suc k"
  using assms
proof (induction k arbitrary: x)
  case 0
  then show ?case by (simp add: print_digits.simps [of digits x])
next
  case (Suc k)
  then have "x div base < base ^ Suc k" by (simp add: less_mult_imp_div_less mult.commute)
  with Suc show ?case by (simp add: print_digits.simps [of digits x])
qed

lemma print_digits_char:
  assumes "2 \<le> base" "c \<in> set (print_digits digits x base)"
  shows "\<exists>d<base. c = digits ! d"
  using assms
proof (induction digits x base rule: print_digits.induct)
  case (1 digits x base)
  show ?case
  proof (cases "c = digits ! (x mod base)")
    case True
    then show ?thesis using 1(2) by (intro exI [of _ "x mod base"]) simp
  next
    case False
    with 1 show ?thesis by (auto simp: print_digits.simps [of digits x] split: if_splits)
  qed
qed

lemma print_digits_nonempty: "2 \<le> base \<Longrightarrow> print_digits digits x base \<noteq> []"
  by (simp add: print_digits.simps [of digits x])


lemma atoi_value:
  assumes "\<forall>c\<in>set s. is_digit c"
  shows "atoi_from (int n) s = int (foldl (\<lambda>n c. n * 10 + digit_value c) n s)"
  using assms
proof (induction s arbitrary: n)
  case Nil
  then show ?case by simp
next
  case (Cons c s)
  have c: "is_digit c" using Cons.prems by simp
  then have "int n * 10 + of_char c - of_char (CHR ''0'') = int (n * 10 + digit_value c)"
    by (auto simp: is_digit_def digit_value_def Let_def)
  then have "atoi_from (int n) (c # s) = atoi_from (int (n * 10 + digit_value c)) s" using c by (simp only: atoi_from.simps if_True)
  also have "\<dots> = int (foldl (\<lambda>n c. n * 10 + digit_value c) (n * 10 + digit_value c) s)"
    using Cons.prems by (intro Cons.IH) simp
  finally show ?case by simp
qed

lemma sint_cases: "sint xx = (if uint xx < 0x80000000 then uint xx else uint xx - 0x100000000)" for xx :: uint32
proof -
  have "uint xx < 0x100000000" "0 \<le> uint xx" using unsigned_less [where ?'a = int, of xx] by simp_all
  moreover have "sint xx = (uint xx + 0x80000000) mod 0x100000000 - 0x80000000"
    by (simp add: sint_uint signed_take_bit_eq_take_bit_shift take_bit_eq_mod)
  moreover have "(uint xx + 0x80000000) mod 0x100000000 = (uint xx - 0x80000000) mod 0x100000000"
    using mod_add_self2 [of "uint xx - 0x80000000" "0x100000000"] by (simp add: add.commute)
  ultimately show ?thesis
    by (cases "uint xx < 0x80000000") (simp_all add: mod_pos_pos_trivial)
qed

lemma neg_value: "sint xx < 0 \<Longrightarrow> int (unat (- xx)) = - sint xx" for xx :: uint32
proof -
  assume "sint xx < 0"
  then have "0x80000000 \<le> uint xx" "sint xx = uint xx - 0x100000000" "uint xx < 0x100000000"
    using sint_cases [of xx] unsigned_less [where ?'a = int, of xx] by (auto split: if_splits)
  then show ?thesis by (simp add: uint_word_ariths zmod_zminus1_eq_if mod_pos_pos_trivial)
qed

lemma printint_buf_ok:
  assumes "digits_ok digits 10" "\<forall>d<10. is_digit (digits ! d)"
  shows "signed_value (rev (printint_buf digits xx 10 True)) = sint xx"
    "length (rev (printint_buf digits xx 10 True)) \<le> 16"
    "sint xx < 0 \<or> atoi (rev (printint_buf digits xx 10 True)) = sint xx"
proof -
  let ?d = "\<lambda>x. print_digits digits x 10"
  have digit: "is_digit c" if "c \<in> set (?d x)" for c x
    using print_digits_char [OF _ that] assms(2) by auto
  have val: "value_of 10 (rev (?d x)) = x" for x by (rule value_of_print_digits [OF _ assms(1)]) simp
  have hd: "hd (rev (?d x)) \<noteq> CHR ''-''" for x
    using digit [of "last (?d x)" x] print_digits_nonempty [of 10 digits x] by (auto simp: hd_rev is_digit_def)
  have len: "length (?d (unat y)) \<le> 10" for y :: uint32
    using length_print_digits [of 10 "unat y" 9 digits] unsigned_less [where ?'a = nat, of y] by simp
  show "length (rev (printint_buf digits xx 10 True)) \<le> 16"
    using len [of xx] len [of "- xx"] by (simp add: printint_buf_def Let_def)
  have pos: "uint xx = sint xx" if "\<not> sint xx < 0" using that sint_cases [of xx] unsigned_less [where ?'a = int, of xx] by (auto split: if_splits)
  show "signed_value (rev (printint_buf digits xx 10 True)) = sint xx"
    using neg_value [of xx] pos hd [of "unat xx"] val print_digits_nonempty [of 10 digits "unat xx"]
    by (auto simp: printint_buf_def Let_def signed_value_def)
  have "atoi (rev (?d x)) = int x" for x
    using atoi_value [of "rev (?d x)" 0] digit val [of x] by (simp add: atoi_def value_of_def)
  then show "sint xx < 0 \<or> atoi (rev (printint_buf digits xx 10 True)) = sint xx"
    using pos by (auto simp: printint_buf_def Let_def)
qed

lemma printint_buf_hex:
  assumes "digits_ok digits 16"
  shows "value_of 16 (rev (printint_buf digits xx 16 False)) = unat xx" "length (rev (printint_buf digits xx 16 False)) \<le> 16"
  using value_of_print_digits [OF _ assms, of "unat xx"] length_print_digits [of 16 "unat xx" 15 digits]
    unsigned_less [where ?'a = nat, of xx] by (simp_all add: printint_buf_def)

lemma decimal_tables:
  "\<forall>d<10. is_digit (''0123456789abcdef'' ! d)" "\<forall>d<10. is_digit (''0123456789ABCDEF'' ! d)"
  by (simp_all add: is_digit_def eval_nat_numeral All_less_Suc)

section \<open>Properties\<close>


end
