(* ===== verification/Console.thy ===== *)
theory Console
  imports Syscall Format
begin

text \<open>
  The console (\<open>console.c\<close> and the interface of \<open>uart.c\<close>): the screen with its cursor and the
  line discipline of the input buffer. Screen memory is a function of the position, the cursor
  registers are the field \<open>cursor\<close>, and \<open>serial\<close> is what was sent to the serial port. An
  interrupt handler gets the values of \<open>getc\<close> up to the first negative one as a list. The input
  buffer refines a pair of lists: the lines that were entered and the line being edited.
\<close>

section \<open>State\<close>

definition INPUT_BUF :: nat where "INPUT_BUF = 128"
definition BACKSPACE :: int where "BACKSPACE = 0x100"

record cons_state = file_state +
  in_buf :: "uchar list"
  in_r :: uint32
  in_w :: uint32
  in_e :: uint32
  crt :: "nat \<Rightarrow> ushort"
  cursor :: nat
  uart :: bool
  serial :: "uchar list"

definition ctrl :: "char \<Rightarrow> int" where
  "ctrl c = of_char c - of_char (CHR ''@'')"

section \<open>The screen\<close>

text \<open>Scrolling: 23 lines move up by one and the rest up to the end of the screen is cleared.\<close>

definition scroll_up :: "nat \<Rightarrow> (nat \<Rightarrow> ushort) \<Rightarrow> nat \<Rightarrow> ushort" where
  "scroll_up pos m = (\<lambda>i. if pos \<le> i \<and> i < 24 * 80 then 0 else if i < 23 * 80 then m (i + 80) else m i)"

definition cgaputc :: "int \<Rightarrow> 'a cons_state_scheme \<Rightarrow> (unit, 'a cons_state_scheme) outcome" where
  "cgaputc c s =
     (let pos = int (cursor s);
          s' = (if c = 10 \<or> c = BACKSPACE then s
                else s\<lparr>crt := (crt s)(cursor s := (word_of_int c AND 0xff) OR 0x0700)\<rparr>);
          pos = (if c = 10 then pos + (80 - pos mod 80)
                 else if c = BACKSPACE then (if 0 < pos then pos - 1 else pos)
                 else pos + 1)
      in if pos < 0 \<or> 25 * 80 < pos then Panic ''pos under/overflow''
         else
           let s'' = (if 24 \<le> pos div 80 then s'\<lparr>crt := scroll_up (nat (pos - 80)) (crt s')\<rparr> else s');
               pos = nat (if 24 \<le> pos div 80 then pos - 80 else pos)
           in Ret () (s''\<lparr>cursor := pos, crt := (crt s'')(pos := 0x0720)\<rparr>))"

definition uartputc :: "int \<Rightarrow> 'a cons_state_scheme \<Rightarrow> 'a cons_state_scheme" where
  "uartputc c s = (if uart s then s\<lparr>serial := serial s @ [word_of_int c]\<rparr> else s)"

definition consputc :: "int \<Rightarrow> 'a cons_state_scheme \<Rightarrow> (unit, 'a cons_state_scheme) outcome" where
  "consputc c s =
     cgaputc c (if c = BACKSPACE then uartputc 8 (uartputc 32 (uartputc 8 s)) else uartputc c s)"

fun consputs :: "uchar list \<Rightarrow> 'a cons_state_scheme \<Rightarrow> (unit, 'a cons_state_scheme) outcome" where
  "consputs [] s = Ret () s"
| "consputs (c # cs) s = kbind (consputc (uint c) s) (\<lambda>_ s. consputs cs s)"

section \<open>Input\<close>

definition in_at :: "'a cons_state_scheme \<Rightarrow> uint32 \<Rightarrow> uchar" where
  "in_at s i = in_buf s ! (unat i mod INPUT_BUF)"

text \<open>The loop that deletes the line being edited, at most \<open>n\<close> characters.\<close>

primrec kill_line :: "nat \<Rightarrow> 'a cons_state_scheme \<Rightarrow> (unit, 'a cons_state_scheme) outcome" where
  "kill_line 0 s = Ret () s"
| "kill_line (Suc n) s =
     (if in_e s \<noteq> in_w s \<and> in_at s (in_e s - 1) \<noteq> 10
      then kbind (consputc BACKSPACE (s\<lparr>in_e := in_e s - 1\<rparr>)) (\<lambda>_ s. kill_line n s)
      else Ret () s)"

text \<open>One character: the new state, and whether it asks for the list of processes.\<close>

definition console_char :: "int \<Rightarrow> 'a cons_state_scheme \<Rightarrow> (bool, 'a cons_state_scheme) outcome" where
  "console_char c s =
     (if c = ctrl (CHR ''P'') then Ret True s
      else if c = ctrl (CHR ''U'') then
        kbind (kill_line (unat (in_e s - in_w s)) s) (\<lambda>_ s. Ret False s)
      else if c = ctrl (CHR ''H'') \<or> c = 0x7f then
        (if in_e s \<noteq> in_w s then kbind (consputc BACKSPACE (s\<lparr>in_e := in_e s - 1\<rparr>)) (\<lambda>_ s. Ret False s) else Ret False s)
      else if c \<noteq> 0 \<and> in_e s - in_r s < of_nat INPUT_BUF then
        let c = (if c = 13 then 10 else c);
            s = s\<lparr>in_buf := (in_buf s)[unat (in_e s) mod INPUT_BUF := word_of_int c], in_e := in_e s + 1\<rparr>
        in kbind (consputc c s) (\<lambda>_ s.
           if c = 10 \<or> c = ctrl (CHR ''D'') \<or> in_e s = in_r s + of_nat INPUT_BUF
           then kbind (wakeup ChInput (s\<lparr>in_w := in_e s\<rparr>)) (\<lambda>_ s. Ret False s)
           else Ret False s)
      else Ret False s)"

fun console_chars :: "int list \<Rightarrow> bool \<Rightarrow> 'a cons_state_scheme \<Rightarrow> (bool, 'a cons_state_scheme) outcome" where
  "console_chars [] dump s = Ret dump s"
| "console_chars (c # cs) dump s = kbind (console_char c s) (\<lambda>d s. console_chars cs (dump \<or> d) s)"

text \<open>The result is whether \<open>procdump\<close> was called at the end; it only prints.\<close>

definition consoleintr :: "int list \<Rightarrow> 'a cons_state_scheme \<Rightarrow> (bool, 'a cons_state_scheme) outcome" where
  "consoleintr cs s =
     kbind (acquire LkCons s) (\<lambda>_ s.
     kbind (console_chars cs False s) (\<lambda>dump s.
     kbind (release LkCons s) (\<lambda>_ s. Ret dump s)))"

text \<open>
  The loop of \<open>consoleread\<close>: \<open>n\<close> bytes are wanted, \<open>got\<close> is what has been copied already, and
  \<open>None\<close> says that the process was killed.
\<close>

primrec consoleread_loop :: "nat \<Rightarrow> uchar list \<Rightarrow> 'a cons_state_scheme \<Rightarrow> (uchar list option, 'a cons_state_scheme) outcome" where
  "consoleread_loop 0 got s = Ret (Some got) s"
| "consoleread_loop (Suc n) got s =
     (if in_r s = in_w s then
        (case myproc s of
           None \<Rightarrow> Fault
         | Some p \<Rightarrow> if p_killed (slot s p) then Ret None s else kbind (sleep ChInput LkCons s) (\<lambda>_ _. Fault))
      else
        let c = in_at s (in_r s);
            s = s\<lparr>in_r := in_r s + 1\<rparr>
        in if c = 4 then
             (if got \<noteq> [] then Ret (Some got) (s\<lparr>in_r := in_r s - 1\<rparr>) else Ret (Some got) s)
           else if c = 10 then Ret (Some (got @ [c])) s
           else consoleread_loop n (got @ [c]) s)"

definition consoleread_end :: "nat \<Rightarrow> uchar list option \<Rightarrow> 'a cons_state_scheme \<Rightarrow> (int \<times> uchar list, 'a cons_state_scheme) outcome" where
  "consoleread_end ip r s =
     kbind (release LkCons s) (\<lambda>_ s.
     kbind (ilock (Some ip) s) (\<lambda>_ s.
     Ret (case r of None \<Rightarrow> (-1, []) | Some got \<Rightarrow> (int (length got), got)) s))"

definition consoleread :: "nat \<Rightarrow> uint32 \<Rightarrow> 'a cons_state_scheme \<Rightarrow> (int \<times> uchar list, 'a cons_state_scheme) outcome" where
  "consoleread ip n s =
     kbind (iunlock (Some ip) s) (\<lambda>_ s.
     kbind (acquire LkCons s) (\<lambda>_ s.
     kbind (consoleread_loop (nat (sint n)) [] s) (\<lambda>r s. consoleread_end ip r s)))"

text \<open>A reader that was woken, with the bytes it had got before it slept.\<close>

definition consoleread_resume :: "nat \<Rightarrow> nat \<Rightarrow> uchar list \<Rightarrow> 'a cons_state_scheme \<Rightarrow> (int \<times> uchar list, 'a cons_state_scheme) outcome" where
  "consoleread_resume ip n got s =
     kbind (sleep_resume LkCons s) (\<lambda>_ s.
     kbind (consoleread_loop n got s) (\<lambda>r s. consoleread_end ip r s))"

definition consolewrite :: "nat \<Rightarrow> uchar list \<Rightarrow> 'a cons_state_scheme \<Rightarrow> (int, 'a cons_state_scheme) outcome" where
  "consolewrite ip buf s =
     kbind (iunlock (Some ip) s) (\<lambda>_ s.
     kbind (acquire LkCons s) (\<lambda>_ s.
     kbind (consputs buf s) (\<lambda>_ s.
     kbind (release LkCons s) (\<lambda>_ s.
     kbind (ilock (Some ip) s) (\<lambda>_ s. Ret (int (length buf)) s)))))"

text \<open>The device table as \<open>consoleinit\<close> leaves it.\<close>

definition CONSOLE :: int where "CONSOLE = 1"

definition devsw_read :: "int \<Rightarrow> (nat \<Rightarrow> uint32 \<Rightarrow> 'a cons_state_scheme \<Rightarrow> (int \<times> uchar list, 'a cons_state_scheme) outcome) option" where
  "devsw_read m = (if m = CONSOLE then Some consoleread else None)"

definition devsw_write :: "int \<Rightarrow> (nat \<Rightarrow> uchar list \<Rightarrow> 'a cons_state_scheme \<Rightarrow> (int, 'a cons_state_scheme) outcome) option" where
  "devsw_write m = (if m = CONSOLE then Some consolewrite else None)"

section \<open>The line discipline\<close>

definition committed :: "'a cons_state_scheme \<Rightarrow> uchar list" where
  "committed s = ring_list INPUT_BUF (in_buf s) (in_r s) (in_w s)"

definition editing :: "'a cons_state_scheme \<Rightarrow> uchar list" where
  "editing s = ring_list INPUT_BUF (in_buf s) (in_w s) (in_e s)"

definition console_ok :: "'a cons_state_scheme \<Rightarrow> bool" where
  "console_ok s \<longleftrightarrow> length (in_buf s) = INPUT_BUF \<and> cursor s < 24 * 80 \<and>
     unat (in_w s - in_r s) + unat (in_e s - in_w s) \<le> INPUT_BUF \<and> 10 \<notin> set (editing s)"

interpretation cr: ring_buffer INPUT_BUF
  by unfold_locales (simp_all add: INPUT_BUF_def dvd_def)

text \<open>What a character does to the lines entered and the line being edited.\<close>

fun line_char :: "int \<Rightarrow> uchar list \<times> uchar list \<Rightarrow> uchar list \<times> uchar list" where
  "line_char c (com, ed) =
     (if c = ctrl (CHR ''P'') then (com, ed)
      else if c = ctrl (CHR ''U'') then (com, [])
      else if c = ctrl (CHR ''H'') \<or> c = 0x7f then (com, butlast ed)
      else if c = 0 \<or> INPUT_BUF \<le> length com + length ed then (com, ed)
      else
        let c = (if c = 13 then 10 else c);
            ed = ed @ [word_of_int c]
        in if c = 10 \<or> c = ctrl (CHR ''D'') \<or> length com + length ed = INPUT_BUF then (com @ ed, []) else (com, ed))"

lemma cgaputc_total:
  assumes "cursor s < 24 * 80"
  shows "\<exists>m n. cgaputc c s = Ret () (s\<lparr>crt := m, cursor := n\<rparr>) \<and> n < 24 * 80"
proof -
  define s1 where "s1 = (if c = 10 \<or> c = BACKSPACE then s
                else s\<lparr>crt := (crt s)(cursor s := (word_of_int c AND 0xff) OR 0x0700)\<rparr>)"
  define pos where "pos = (if c = 10 then int (cursor s) + (80 - int (cursor s) mod 80)
                 else if c = BACKSPACE then (if 0 < int (cursor s) then int (cursor s) - 1 else int (cursor s))
                 else int (cursor s) + 1)"
  have b: "0 \<le> pos" "pos \<le> 24 * 80"
  proof -
    have "int (cursor s) + (80 - int (cursor s) mod 80) \<le> 24 * 80" "0 \<le> int (cursor s) + (80 - int (cursor s) mod 80)"
      using assms by presburger+
    then show "0 \<le> pos" "pos \<le> 24 * 80" using assms by (simp_all add: pos_def)
  qed
  define s2 where "s2 = (if 24 \<le> pos div 80 then s1\<lparr>crt := scroll_up (nat (pos - 80)) (crt s1)\<rparr> else s1)"
  define q where "q = nat (if 24 \<le> pos div 80 then pos - 80 else pos)"
  have "cgaputc c s = Ret () (s2\<lparr>cursor := q, crt := (crt s2)(q := 0x0720)\<rparr>)"
    using b unfolding cgaputc_def Let_def s1_def [symmetric] pos_def [symmetric] s2_def [symmetric] q_def [symmetric] by simp
  moreover have "s2\<lparr>cursor := q, crt := (crt s2)(q := 0x0720)\<rparr> = s\<lparr>crt := (crt s2)(q := 0x0720), cursor := q\<rparr>"
    by (rule cons_state.equality) (simp_all add: s2_def s1_def)
  moreover have "q < 24 * 80" using b by (auto simp: q_def)
  ultimately show ?thesis by metis
qed

lemma consputc_total:
  assumes "cursor s < 24 * 80"
  shows "\<exists>m n l. consputc c s = Ret () (s\<lparr>crt := m, cursor := n, serial := l\<rparr>) \<and> n < 24 * 80"
proof -
  let ?s = "if c = BACKSPACE then uartputc 8 (uartputc 32 (uartputc 8 s)) else uartputc c s"
  have u: "\<exists>l. ?s = s\<lparr>serial := l\<rparr>"
  proof
    show "?s = s\<lparr>serial := serial ?s\<rparr>" by (rule cons_state.equality) (simp_all add: uartputc_def)
  qed
  then obtain l where l: "?s = s\<lparr>serial := l\<rparr>" by blast
  have "cursor (s\<lparr>serial := l\<rparr>) < 24 * 80" using assms by simp
  from cgaputc_total [OF this, of c] obtain m n where
    "cgaputc c (s\<lparr>serial := l\<rparr>) = Ret () (s\<lparr>serial := l, crt := m, cursor := n\<rparr>)" "n < 24 * 80" by blast
  moreover have "s\<lparr>serial := l, crt := m, cursor := n\<rparr> = s\<lparr>crt := m, cursor := n, serial := l\<rparr>"
    by (rule cons_state.equality) simp_all
  ultimately show ?thesis unfolding consputc_def l by metis
qed

text \<open>The input fields of a state in which process \<open>p\<close> runs.\<close>

definition input_is :: "nat \<Rightarrow> 'a cons_state_scheme \<Rightarrow> uchar list \<Rightarrow> uint32 \<Rightarrow> uint32 \<Rightarrow> uint32 \<Rightarrow> bool" where
  "input_is p s b r w e \<longleftrightarrow> in_proc p s \<and> cursor s < 24 * 80 \<and> in_buf s = b \<and> in_r s = r \<and> in_w s = w \<and> in_e s = e"

lemma in_proc_cons [simp]:
  "in_proc p (s\<lparr>crt := m\<rparr>) = in_proc p s" "in_proc p (s\<lparr>cursor := n\<rparr>) = in_proc p s" "in_proc p (s\<lparr>serial := l\<rparr>) = in_proc p s"
  "in_proc p (s\<lparr>in_e := e\<rparr>) = in_proc p s" "in_proc p (s\<lparr>in_buf := b\<rparr>) = in_proc p s" "in_proc p (s\<lparr>in_w := e\<rparr>) = in_proc p s"
  "in_proc p (s\<lparr>in_r := e\<rparr>) = in_proc p s"
  by (rule in_proc_cong; simp)+

lemma held_cons:
  "s\<lparr>held := h, in_e := e\<rparr> = s\<lparr>in_e := e, held := h\<rparr>" "s\<lparr>held := h, in_buf := b\<rparr> = s\<lparr>in_buf := b, held := h\<rparr>"
  "s\<lparr>held := h, in_w := e\<rparr> = s\<lparr>in_w := e, held := h\<rparr>" "s\<lparr>held := h, in_r := e\<rparr> = s\<lparr>in_r := e, held := h\<rparr>"
  "s\<lparr>held := h, crt := m, cursor := n, serial := l\<rparr> = s\<lparr>crt := m, cursor := n, serial := l, held := h\<rparr>"
  by (rule cons_state.equality; simp)+

lemma consputc_input:
  assumes "input_is p s b r w e"
  shows "\<exists>t. consputc c (s\<lparr>held := h\<rparr>) = Ret () (t\<lparr>held := h\<rparr>) \<and> input_is p t b r w e"
proof -
  have "cursor (s\<lparr>held := h\<rparr>) < 24 * 80" using assms by (simp add: input_is_def)
  from consputc_total [OF this, of c] obtain m n l where
    "consputc c (s\<lparr>held := h\<rparr>) = Ret () (s\<lparr>crt := m, cursor := n, serial := l, held := h\<rparr>)" "n < 24 * 80"
    unfolding held_cons by blast
  moreover have "input_is p (s\<lparr>crt := m, cursor := n, serial := l\<rparr>) b r w e" using assms calculation(2) by (simp add: input_is_def)
  ultimately show ?thesis by blast
qed

lemma kill_line_input:
  "input_is p s b r w e \<Longrightarrow> 10 \<notin> set (ring_list INPUT_BUF b w e) \<Longrightarrow> n = unat (e - w) \<Longrightarrow>
     \<exists>t. kill_line n (s\<lparr>held := h\<rparr>) = Ret () (t\<lparr>held := h\<rparr>) \<and> input_is p t b r w w"
proof (induction n arbitrary: s e)
  case 0
  then have "e = w" by (simp add: unat_eq_0)
  with 0 show ?case by auto
next
  case (Suc n)
  then have ne: "w \<noteq> e" by auto
  note bk = cr.ring_back [OF ne, of b]
  have "unat (e - 1 - w) = unat (e - w - 1)" by (simp add: algebra_simps)
  then have n: "n = unat (e - 1 - w)" using Suc.prems(3) ne unat_minus_one [of "e - w"] by simp
  have "input_is p (s\<lparr>in_e := e - 1\<rparr>) b r w (e - 1)" using Suc.prems(1) by (simp add: input_is_def)
  from consputc_input [OF this, of BACKSPACE h] obtain u where
    u: "consputc BACKSPACE (s\<lparr>in_e := e - 1, held := h\<rparr>) = Ret () (u\<lparr>held := h\<rparr>)" "input_is p u b r w (e - 1)" by blast
  have "10 \<notin> set (ring_list INPUT_BUF b w (e - 1))" "b ! (unat (e - 1) mod INPUT_BUF) \<noteq> 10" using Suc.prems(2) bk by auto
  with Suc.IH [OF u(2) _ n] u(1) ne Suc.prems(1) show ?case by (simp add: input_is_def in_at_def held_cons)
qed

lemma proc_more_cons:
  "proc_state.more t = proc_state.more s \<Longrightarrow>
     in_buf t = in_buf s \<and> in_r t = in_r s \<and> in_w t = in_w s \<and> in_e t = in_e s \<and> cursor t = cursor s"
  by (cases s rule: cons_state.cases_scheme, cases t rule: cons_state.cases_scheme, hypsubst) simp

lemma wakeup_input:
  assumes "input_is p s b r w e"
  shows "\<exists>t. wakeup ChInput (s\<lparr>held := [LkCons]\<rparr>) = Ret () (t\<lparr>held := [LkCons]\<rparr>) \<and> input_is p t b r w e"
proof -
  have "in_proc p s" using assms by (simp add: input_is_def)
  from wakeup_held [OF this, of LkCons ChInput] obtain t where
    "wakeup ChInput (s\<lparr>held := [LkCons]\<rparr>) = Ret () (t\<lparr>held := [LkCons]\<rparr>)" "in_proc p t" "proc_state.more t = proc_state.more s"
    by auto
  with proc_more_cons [of t s] assms show ?thesis by (auto simp: input_is_def)
qed


lemma ctrl_values [simp]:
  "ctrl (CHR ''P'') = 16" "ctrl (CHR ''U'') = 21" "ctrl (CHR ''H'') = 8" "ctrl (CHR ''D'') = 4"
  by (simp_all add: ctrl_def)

lemma console_okI:
  assumes "input_is p t b r w e" "length b = INPUT_BUF" "unat (w - r) + unat (e - w) \<le> INPUT_BUF" "10 \<notin> set (ring_list INPUT_BUF b w e)"
  shows "in_proc p t" "console_ok t" "committed t = ring_list INPUT_BUF b r w" "editing t = ring_list INPUT_BUF b w e"
  using assms by (simp_all add: input_is_def console_ok_def committed_def editing_def)

lemma console_okD:
  assumes "in_proc p s" "console_ok s"
  shows "input_is p s (in_buf s) (in_r s) (in_w s) (in_e s)" "length (in_buf s) = INPUT_BUF"
    "unat (in_w s - in_r s) + unat (in_e s - in_w s) \<le> INPUT_BUF" "10 \<notin> set (ring_list INPUT_BUF (in_buf s) (in_w s) (in_e s))"
  using assms by (simp_all add: input_is_def console_ok_def committed_def editing_def)

lemma unat_split:
  "unat (w - r) + unat (e - w) \<le> INPUT_BUF \<Longrightarrow> unat (e - r :: uint32) = unat (w - r) + unat (e - w)"
proof -
  assume "unat (w - r) + unat (e - w) \<le> INPUT_BUF"
  then have "unat ((w - r) + (e - w)) = unat (w - r) + unat (e - w)" by (subst unat_word_ariths(1)) (simp add: INPUT_BUF_def)
  then show ?thesis by simp
qed

definition char_post :: "nat \<Rightarrow> int \<Rightarrow> 'a cons_state_scheme \<Rightarrow> 'a cons_state_scheme \<Rightarrow> bool" where
  "char_post p c s t \<longleftrightarrow> in_proc p t \<and> console_ok t \<and> (committed t, editing t) = line_char c (committed s, editing s)"

lemma console_erase:
  assumes "in_proc p s" "console_ok s" "c = 8 \<or> c = 0x7f"
  shows "\<exists>t. console_char c (s\<lparr>held := [LkCons]\<rparr>) = Ret False (t\<lparr>held := [LkCons]\<rparr>) \<and> char_post p c s t"
proof (cases "in_w s = in_e s")
  case True
  then have "editing s = []" by (simp add: editing_def)
  then have "char_post p c s s" using assms by (auto simp: char_post_def)
  moreover have "console_char c (s\<lparr>held := [LkCons]\<rparr>) = Ret False (s\<lparr>held := [LkCons]\<rparr>)"
    using True assms(3) by (auto simp: console_char_def)
  ultimately show ?thesis by blast
next
  case False
  note D = console_okD [OF assms(1,2)]
  note bk = cr.ring_back [OF False, of "in_buf s"]
  have "input_is p (s\<lparr>in_e := in_e s - 1\<rparr>) (in_buf s) (in_r s) (in_w s) (in_e s - 1)" using D(1) by (simp add: input_is_def)
  from consputc_input [OF this, of BACKSPACE "[LkCons]"] obtain t where
    t: "consputc BACKSPACE (s\<lparr>in_e := in_e s - 1, held := [LkCons]\<rparr>) = Ret () (t\<lparr>held := [LkCons]\<rparr>)"
      "input_is p t (in_buf s) (in_r s) (in_w s) (in_e s - 1)" by blast
  have "unat (in_w s - in_r s) + unat (in_e s - 1 - in_w s) \<le> INPUT_BUF" using D(3) arg_cong [OF bk, of length] by simp
  moreover have "10 \<notin> set (ring_list INPUT_BUF (in_buf s) (in_w s) (in_e s - 1))" using D(4) bk by simp
  ultimately have "char_post p c s t"
    using console_okI [OF t(2) D(2)] assms(3) bk by (auto simp: char_post_def committed_def editing_def)
  moreover have "console_char c (s\<lparr>held := [LkCons]\<rparr>) = Ret False (t\<lparr>held := [LkCons]\<rparr>)"
    using t(1) False assms(3) by (auto simp: console_char_def held_cons)
  ultimately show ?thesis by blast
qed

lemma console_kill:
  assumes "in_proc p s" "console_ok s"
  shows "\<exists>t. console_char 21 (s\<lparr>held := [LkCons]\<rparr>) = Ret False (t\<lparr>held := [LkCons]\<rparr>) \<and> char_post p 21 s t"
proof -
  note D = console_okD [OF assms]
  obtain t where t: "kill_line (unat (in_e s - in_w s)) (s\<lparr>held := [LkCons]\<rparr>) = Ret () (t\<lparr>held := [LkCons]\<rparr>)"
    "input_is p t (in_buf s) (in_r s) (in_w s) (in_w s)" using kill_line_input [OF D(1,4) refl] by blast
  have "char_post p 21 s t"
    using console_okI [OF t(2) D(2)] D(3) by (simp add: char_post_def committed_def)
  with t(1) show ?thesis by (intro exI [of _ t]) (simp add: console_char_def)
qed


text \<open>A character that is stored and echoed: the buffer has room for it.\<close>

lemma ring_store:
  fixes x :: 'a and r w e :: uint32
  assumes "length b = INPUT_BUF" "unat (w - r) + unat (e - w) < INPUT_BUF"
  defines "b' \<equiv> b[unat e mod INPUT_BUF := x]"
  shows "ring_list INPUT_BUF b' r w = ring_list INPUT_BUF b r w" "ring_list INPUT_BUF b' w (e + 1) = ring_list INPUT_BUF b w e @ [x]"
    "ring_list INPUT_BUF b' r (e + 1) = ring_list INPUT_BUF b r w @ ring_list INPUT_BUF b w e @ [x]" "unat (e + 1 - w) = Suc (unat (e - w))"
    "unat (e + 1 - r) = Suc (unat (w - r) + unat (e - w))"
proof -
  show old: "ring_list INPUT_BUF b' r w = ring_list INPUT_BUF b r w" using cr.ring_put_old [OF assms(1,2)] by (simp add: b'_def)
  show n: "ring_list INPUT_BUF b' w (e + 1) = ring_list INPUT_BUF b w e @ [x]"
    using cr.ring_put [of b e w x] assms(1,2) by (simp add: b'_def)
  show l: "unat (e + 1 - w) = Suc (unat (e - w))" using arg_cong [OF n, of length] by simp
  have "unat (w - r) + unat (e + 1 - w) < 2 ^ 32" using l assms(2) by (simp add: INPUT_BUF_def)
  from cr.ring_append [OF this, of b'] old n
  show f: "ring_list INPUT_BUF b' r (e + 1) = ring_list INPUT_BUF b r w @ ring_list INPUT_BUF b w e @ [x]" by simp
  show "unat (e + 1 - r) = Suc (unat (w - r) + unat (e - w))" using arg_cong [OF f, of length] by simp
qed

lemma console_store:
  assumes "in_proc p s" "console_ok s" "length (committed s) + length (editing s) < INPUT_BUF"
    "0 < c" "c < 256" "c \<noteq> 13" "c \<notin> {16, 21, 8, 0x7f}" "c0 = c \<or> c0 = 13 \<and> c = 10"
  shows "\<exists>t. console_char c0 (s\<lparr>held := [LkCons]\<rparr>) = Ret False (t\<lparr>held := [LkCons]\<rparr>) \<and> char_post p c0 s t"
proof -
  note D = console_okD [OF assms(1,2)]
  let ?b = "(in_buf s)[unat (in_e s) mod INPUT_BUF := word_of_int c]" let ?e = "in_e s + 1"
  have lt: "unat (in_w s - in_r s) + unat (in_e s - in_w s) < INPUT_BUF" using assms(3) by (simp add: committed_def editing_def)
  note R = ring_store(1-3) [OF D(2) lt, of "word_of_int c"] ring_store(4,5) [OF D(2) lt]
  define stop where "stop \<longleftrightarrow> c = 10 \<or> c = 4 \<or> ?e = in_r s + of_nat INPUT_BUF"
  have full: "?e = in_r s + of_nat INPUT_BUF \<longleftrightarrow> Suc (length (committed s) + length (editing s)) = INPUT_BUF"
  proof -
    have "?e = in_r s + of_nat INPUT_BUF \<longleftrightarrow> ?e - in_r s = of_nat INPUT_BUF" by (auto simp: algebra_simps)
    also have "\<dots> \<longleftrightarrow> unat (?e - in_r s) = INPUT_BUF" by (simp add: INPUT_BUF_def unat_arith_simps)
    finally show ?thesis using R(5) by (simp add: committed_def editing_def)
  qed
  have room: "in_e s - in_r s < of_nat INPUT_BUF"
    using lt unat_split [OF D(3)] by (simp add: word_less_nat_alt INPUT_BUF_def)
  have "input_is p (s\<lparr>in_buf := ?b, in_e := ?e\<rparr>) ?b (in_r s) (in_w s) ?e" using D(1) by (simp add: input_is_def)
  from consputc_input [OF this, of c "[LkCons]"] obtain u where
    u: "consputc c (s\<lparr>in_buf := ?b, in_e := ?e, held := [LkCons]\<rparr>) = Ret () (u\<lparr>held := [LkCons]\<rparr>)"
      "input_is p u ?b (in_r s) (in_w s) ?e" by blast
  have uf: "in_e u = ?e" "in_r u = in_r s" using u(2) by (simp_all add: input_is_def)
  have k: "c0 \<notin> {16, 21, 8, 0x7f, 0}" "(if c0 = 13 then 10 else c0) = c" using assms(4,6,7,8) by auto
  have cc: "console_char c0 (s\<lparr>held := [LkCons]\<rparr>) =
      (if stop then kbind (wakeup ChInput (u\<lparr>in_w := ?e, held := [LkCons]\<rparr>)) (\<lambda>_ s. Ret False s) else Ret False (u\<lparr>held := [LkCons]\<rparr>))"
    using k room u(1) uf by (auto simp: console_char_def held_cons stop_def)
  have lc: "line_char c0 (committed s, editing s) =
      (let ed = editing s @ [word_of_int c] in if stop then (committed s @ ed, []) else (committed s, ed))"
    using k assms(3) full by (auto simp: stop_def Let_def)
  have old: "committed s = ring_list INPUT_BUF (in_buf s) (in_r s) (in_w s)" "editing s = ring_list INPUT_BUF (in_buf s) (in_w s) (in_e s)"
    by (simp_all add: committed_def editing_def)
  show ?thesis
  proof (cases stop)
    case True
    have "input_is p (u\<lparr>in_w := ?e\<rparr>) ?b (in_r s) ?e ?e" using u(2) by (simp add: input_is_def)
    from wakeup_input [OF this] obtain t where t: "wakeup ChInput (u\<lparr>in_w := ?e, held := [LkCons]\<rparr>) = Ret () (t\<lparr>held := [LkCons]\<rparr>)"
      "input_is p t ?b (in_r s) ?e ?e" by blast
    have "char_post p c0 s t"
      using console_okI [OF t(2)] D(2) R(3,5) lt lc True unfolding old char_post_def by simp
    with t(1) cc True show ?thesis by auto
  next
    case False
    have "uint (word_of_int c :: uchar) = c" using assms(4,5) by (simp add: uint_word_of_int)
    then have "word_of_int c \<noteq> (10 :: uchar)" using False by (auto simp: stop_def)
    then have "10 \<notin> set (ring_list INPUT_BUF ?b (in_w s) ?e)" unfolding R(2) using D(4) by auto
    then have "char_post p c0 s u"
      using console_okI [OF u(2)] D(2) R(1,2,4) lt lc False unfolding old char_post_def by simp
    with cc False show ?thesis by auto
  qed
qed

lemma console_char_lines:
  assumes "in_proc p s" "console_ok s" "0 \<le> c" "c < 256"
  shows "\<exists>t. console_char c (s\<lparr>held := [LkCons]\<rparr>) = Ret (c = 16) (t\<lparr>held := [LkCons]\<rparr>) \<and> char_post p c s t"
proof -
  consider "c = 16" | "c = 21" | "c = 8 \<or> c = 0x7f" | "c \<notin> {16, 21, 8, 0x7f}" "c = 0 \<or> INPUT_BUF \<le> length (committed s) + length (editing s)"
    | "c \<notin> {16, 21, 8, 0x7f}" "0 < c" "length (committed s) + length (editing s) < INPUT_BUF" using assms(3) by force
  then show ?thesis
  proof cases
    case 1
    then show ?thesis using assms by (intro exI [of _ s]) (simp add: console_char_def char_post_def)
  next
    case 2
    then show ?thesis using console_kill [OF assms(1,2)] by simp
  next
    case 3
    then show ?thesis using console_erase [OF assms(1,2) 3] by auto
  next
    case 4
    have "\<not> in_e s - in_r s < of_nat INPUT_BUF" if "c \<noteq> 0"
      using 4(2) that unat_split [OF console_okD(3) [OF assms(1,2)]] by (simp add: word_less_nat_alt INPUT_BUF_def committed_def editing_def)
    then show ?thesis using 4 assms by (intro exI [of _ s]) (auto simp: console_char_def char_post_def)
  next
    case 5
    then show ?thesis
      using console_store [OF assms(1,2), of c c] console_store [OF assms(1,2), of 10 13] assms(4) by (cases "c = 13") auto
  qed
qed


fun lines_after :: "int list \<Rightarrow> uchar list \<times> uchar list \<Rightarrow> uchar list \<times> uchar list" where
  "lines_after [] l = l"
| "lines_after (c # cs) l = lines_after cs (line_char c l)"

lemma console_chars_lines:
  "in_proc p s \<Longrightarrow> console_ok s \<Longrightarrow> list_all (\<lambda>c. 0 \<le> c \<and> c < 256) cs \<Longrightarrow>
     \<exists>t. console_chars cs d (s\<lparr>held := [LkCons]\<rparr>) = Ret (d \<or> 16 \<in> set cs) (t\<lparr>held := [LkCons]\<rparr>) \<and> in_proc p t \<and> console_ok t \<and>
       (committed t, editing t) = lines_after cs (committed s, editing s)"
proof (induction cs arbitrary: s d)
  case (Cons c cs)
  then obtain u where u: "console_char c (s\<lparr>held := [LkCons]\<rparr>) = Ret (c = 16) (u\<lparr>held := [LkCons]\<rparr>)" "char_post p c s u"
    using console_char_lines [of p s c] by auto
  then have "in_proc p u" "console_ok u" "(committed u, editing u) = line_char c (committed s, editing s)" by (simp_all add: char_post_def)
  with Cons.IH [OF this(1,2), of "d \<or> c = 16"] Cons.prems(3) u(1) show ?case by auto
qed auto

text \<open>Reading consumes what was entered.\<close>

definition plain :: "uchar \<Rightarrow> bool" where
  "plain x \<longleftrightarrow> x \<noteq> 4 \<and> x \<noteq> 10"

definition input_left :: "nat \<Rightarrow> 'a cons_state_scheme \<Rightarrow> uchar list \<Rightarrow> 'a cons_state_scheme \<Rightarrow> bool" where
  "input_left p s xs t \<longleftrightarrow> in_proc p t \<and> console_ok t \<and> committed t = xs \<and> editing t = editing s \<and> slot t p = slot s p"

lemma committed_take:
  assumes "in_proc p s" "console_ok s" "committed s = x # xs"
  shows "in_r s \<noteq> in_w s" "in_at s (in_r s) = x" "input_left p s xs (s\<lparr>in_r := in_r s + 1\<rparr>)"
proof -
  show ne: "in_r s \<noteq> in_w s" using assms(3) by (auto simp: committed_def)
  note T = cr.ring_take [OF ne, of "in_buf s"]
  have x: "x = in_buf s ! (unat (in_r s) mod INPUT_BUF)" "xs = ring_list INPUT_BUF (in_buf s) (in_r s + 1) (in_w s)"
    using assms(3) T by (simp_all add: committed_def)
  then show "in_at s (in_r s) = x" by (simp add: in_at_def)
  have "unat (in_w s - in_r s) = Suc (unat (in_w s - (in_r s + 1)))" using arg_cong [OF T, of length] by simp
  then show "input_left p s xs (s\<lparr>in_r := in_r s + 1\<rparr>)"
    using assms(1,2) x(2) by (simp add: input_left_def console_ok_def committed_def editing_def)
qed

lemma consoleread_plain:
  "in_proc p s \<Longrightarrow> console_ok s \<Longrightarrow> committed s = l @ rest \<Longrightarrow> list_all plain l \<Longrightarrow>
     \<exists>t. consoleread_loop (length l + n) got (s\<lparr>held := h\<rparr>) = consoleread_loop n (got @ l) (t\<lparr>held := h\<rparr>) \<and> input_left p s rest t"
proof (induction l arbitrary: s got)
  case Nil
  then show ?case by (intro exI [of _ s]) (simp add: input_left_def)
next
  case (Cons x l)
  let ?u = "s\<lparr>in_r := in_r s + 1\<rparr>"
  have c: "committed s = x # (l @ rest)" using Cons.prems(3) by simp
  note T = committed_take [OF Cons.prems(1,2) c]
  have "in_proc p ?u" "console_ok ?u" "committed ?u = l @ rest" using T(3) by (simp_all add: input_left_def)
  from Cons.IH [OF this, of "got @ [x]"] Cons.prems(4) obtain t where
    t: "consoleread_loop (length l + n) (got @ [x]) (?u\<lparr>held := h\<rparr>) = consoleread_loop n (got @ x # l) (t\<lparr>held := h\<rparr>)"
       "input_left p ?u rest t" by auto
  have "input_left p s rest t" using t(2) by (simp add: input_left_def editing_def)
  moreover have "consoleread_loop (length (x # l) + n) got (s\<lparr>held := h\<rparr>) = consoleread_loop (length l + n) (got @ [x]) (?u\<lparr>held := h\<rparr>)"
    using T(1,2) Cons.prems(4) by (simp add: in_at_def plain_def held_cons)
  ultimately show ?case using t(1) by auto
qed

lemma consoleread_stop:
  assumes "in_proc p s" "console_ok s" "committed s = x # xs" "\<not> plain x"
  shows "\<exists>t. consoleread_loop (Suc n) got (s\<lparr>held := h\<rparr>) = Ret (Some (got @ (if x = 10 then [x] else []))) (t\<lparr>held := h\<rparr>) \<and>
     input_left p s (if x = 4 \<and> got \<noteq> [] then x # xs else xs) t"
proof -
  note T = committed_take [OF assms(1-3)]
  have s: "s\<lparr>in_r := in_r s\<rparr> = s" by simp
  consider "x = 10" | "x = 4" "got = []" | "x = 4" "got \<noteq> []" using assms(4) by (auto simp: plain_def)
  then show ?thesis
  proof cases
    case 3
    then have "consoleread_loop (Suc n) got (s\<lparr>held := h\<rparr>) = Ret (Some got) (s\<lparr>held := h\<rparr>)"
      using T(1,2) by (simp add: in_at_def held_cons)
    then show ?thesis using 3 assms(1-3) by (intro exI [of _ s]) (simp add: input_left_def)
  qed (use T in \<open>auto simp: in_at_def held_cons\<close>)
qed

lemma consoleread_empty:
  assumes "in_proc p s" "console_ok s" "committed s = []"
  shows "if p_killed (slot s p) then consoleread_loop (Suc n) got (s\<lparr>held := [LkCons]\<rparr>) = Ret None (s\<lparr>held := [LkCons]\<rparr>)
     else \<exists>t. consoleread_loop (Suc n) got (s\<lparr>held := [LkCons]\<rparr>) = Block ChInput t \<and> sleeps_on ChInput (slot t p) \<and>
       committed t = [] \<and> editing t = editing s"
proof -
  have e: "in_r s = in_w s" using assms(3) by (simp add: committed_def ring_eq_Nil)
  obtain t where t: "sleep ChInput LkCons (s\<lparr>held := [LkCons]\<rparr>) = Block ChInput t" "sleeps_on ChInput (slot t p)"
    "proc_state.more t = proc_state.more s" using sleep_in_proc [OF assms(1)] by blast
  have "committed t = []" "editing t = editing s" using proc_more_cons [OF t(3)] assms(3) by (simp_all add: committed_def editing_def)
  with t(1,2) e in_procD(2,5) [OF assms(1)] show ?thesis by (simp add: myproc_def)
qed

text \<open>
  C36: The line discipline. However the three counters of the input buffer stand and whatever
  characters an interrupt delivers, consoleintr returns with the lock released; what has been
  entered and the line being edited change as the specification says character by character:
  backspace drops the last character of the line, control-U the whole line, newline, carriage
  return, control-D or a full buffer enter the line, a full buffer and a null character change
  nothing; entered bytes are never changed. The result says whether the process list is wanted.
\<close>

theorem console_line_discipline:
  assumes "in_proc p s" "console_ok s" "list_all (\<lambda>c. 0 \<le> c \<and> c < 256) cs"
  shows "\<exists>t. consoleintr cs s = Ret (ctrl (CHR ''P'') \<in> set cs) t \<and> in_proc p t \<and> console_ok t \<and>
     (committed t, editing t) = lines_after cs (committed s, editing s)"
proof -
  obtain t where t: "console_chars cs False (s\<lparr>held := [LkCons]\<rparr>) = Ret (16 \<in> set cs) (t\<lparr>held := [LkCons]\<rparr>)" "in_proc p t" "console_ok t"
    "(committed t, editing t) = lines_after cs (committed s, editing s)" using console_chars_lines [OF assms, of False] by auto
  have "consoleintr cs s = Ret (16 \<in> set cs) t"
    unfolding consoleintr_def using t(1) in_procD(2) [OF assms(1)] in_procD(2) [OF t(2)] by simp
  with t(2-4) show ?thesis by auto
qed


text \<open>
  C37: Reading from the console. A read of n bytes takes the oldest bytes entered, up to the
  first newline, which it includes, or the first control-D. A control-D after some bytes stays in
  the buffer, so that the next read returns the empty result that means end of file, and is
  consumed when it comes first. When neither appears among fewer than n bytes, the process
  sleeps until more is entered, or gives up when it has been killed. The line being edited stays.
\<close>

theorem console_read_line:
  assumes "in_proc p s" "console_ok s"
  shows "let h = s\<lparr>held := [LkCons]\<rparr>; l = takeWhile plain (committed s); rest = dropWhile plain (committed s) in
     if n \<le> length l then
       \<exists>t. consoleread_loop n [] h = Ret (Some (take n l)) (t\<lparr>held := [LkCons]\<rparr>) \<and> input_left p s (drop n (committed s)) t
     else case rest of
       [] \<Rightarrow> if p_killed (slot s p)
             then \<exists>t. consoleread_loop n [] h = Ret None (t\<lparr>held := [LkCons]\<rparr>) \<and> input_left p s [] t
             else \<exists>t. consoleread_loop n [] h = Block ChInput t \<and> sleeps_on ChInput (slot t p) \<and>
               committed t = [] \<and> editing t = editing s
     | x # xs \<Rightarrow> \<exists>t. consoleread_loop n [] h = Ret (Some (l @ (if x = 10 then [x] else []))) (t\<lparr>held := [LkCons]\<rparr>) \<and>
                     input_left p s (if x = 4 \<and> l \<noteq> [] then rest else xs) t"
proof -
  let ?l = "takeWhile plain (committed s)" let ?r = "dropWhile plain (committed s)" let ?h = "s\<lparr>held := [LkCons]\<rparr>"
  have pl: "list_all plain ?l" by (auto simp: list_all_iff dest: set_takeWhileD)
  show ?thesis
  proof (cases "n \<le> length ?l")
    case True
    have "take n (?l @ ?r) = take n ?l" using True by (simp only: take_append) simp
    then have "committed s = take n ?l @ drop n (committed s)" by (metis append_take_drop_id takeWhile_dropWhile_id)
    moreover have "list_all plain (take n ?l)" using pl by (simp add: list_all_iff) (meson in_set_takeD)
    ultimately have "\<exists>t. consoleread_loop (length (take n ?l) + 0) [] ?h = consoleread_loop 0 ([] @ take n ?l) (t\<lparr>held := [LkCons]\<rparr>) \<and>
        input_left p s (drop n (committed s)) t" by (rule consoleread_plain [OF assms])
    then show ?thesis unfolding Let_def if_P [OF True] using True by (simp add: min_absorb2)
  next
    case False
    then obtain k where k: "n = length ?l + Suc k" by (metis not_le less_imp_Suc_add add_Suc_right)
    obtain t where t: "consoleread_loop n [] ?h = consoleread_loop (Suc k) ?l (t\<lparr>held := [LkCons]\<rparr>)" "input_left p s ?r t"
      using consoleread_plain [OF assms _ pl, of ?r "Suc k" "[]" "[LkCons]"] k by auto
    have t': "in_proc p t" "console_ok t" "committed t = ?r" using t(2) by (simp_all add: input_left_def)
    show ?thesis
    proof (cases ?r)
      case Nil
      then have "committed t = []" using t'(3) by simp
      from consoleread_empty [OF t'(1,2) this, of k ?l] t(2)
      show ?thesis unfolding Let_def if_not_P [OF False] Nil list.case t(1) by (auto simp: input_left_def split: if_splits)
    next
      case (Cons x xs)
      then have "committed t = x # xs" "\<not> plain x" using t'(3) hd_dropWhile [of plain "committed s"] by simp_all
      from consoleread_stop [OF t'(1,2) this, of k ?l "[LkCons]"] obtain u where
        u: "consoleread_loop (Suc k) ?l (t\<lparr>held := [LkCons]\<rparr>) = Ret (Some (?l @ (if x = 10 then [x] else []))) (u\<lparr>held := [LkCons]\<rparr>)"
          "input_left p t (if x = 4 \<and> ?l \<noteq> [] then x # xs else xs) u" by blast
      then have "input_left p s (if x = 4 \<and> ?l \<noteq> [] then x # xs else xs) u" using t(2) by (simp add: input_left_def)
      with u(1) show ?thesis unfolding Let_def if_not_P [OF False] Cons list.case t(1) by blast
    qed
  qed
qed


text \<open>An example: one line was entered, and the counters wrap around in it.\<close>

definition cons_example :: "cons_state" where
  "cons_example = file_example \<lparr>in_buf = 10 # replicate 126 0 @ [104], in_r = 0xFFFFFFFF, in_w = 1, in_e = 1,
     crt = (\<lambda>_. 0), cursor = 0, uart = True, serial = []\<rparr>"

lemma file_more_cons:
  "file_state.more s = \<lparr>in_buf = b, in_r = r, in_w = w, in_e = e, crt = m, cursor = n, uart = u, serial = l\<rparr> \<Longrightarrow>
     in_buf s = b \<and> in_r s = r \<and> in_w s = w \<and> in_e s = e \<and> cursor s = n"
  by (cases s rule: cons_state.cases, hypsubst) simp

lemma cons_example_fields:
  "in_buf cons_example = 10 # replicate 126 0 @ [104]" "in_r cons_example = 0xFFFFFFFF" "in_w cons_example = 1"
  "in_e cons_example = 1" "cursor cons_example = 0"
  using file_more_cons [OF file_example_simps(3)] unfolding cons_example_def by blast+

lemma cons_example_ok:
  "committed cons_example = [104, 10]" "editing cons_example = []" "console_ok cons_example" "in_proc 0 cons_example"
proof -
  show "in_proc 0 cons_example" unfolding cons_example_def by (rule file_example_simps(4))
  have "committed cons_example = map (\<lambda>k. (10 # replicate 126 0 @ [104]) ! ((unat (0xFFFFFFFF :: uint32) + k) mod 128)) [0, 1]"
    unfolding committed_def ring_list_def cons_example_fields by (simp add: INPUT_BUF_def upt_rec)
  then show "committed cons_example = [104, 10]" by (simp add: nth_append)
  show "editing cons_example = []" by (simp add: editing_def cons_example_fields)
  then show "console_ok cons_example" unfolding console_ok_def cons_example_fields by (simp add: INPUT_BUF_def)
qed

theorem console_line_discipline_witness:
  "\<exists>t. consoleintr [105, 8, 97] cons_example = Ret False t \<and> committed t = [104, 10] \<and> editing t = [97]"
proof -
  have "lines_after [105, 8, 97] ([104, 10], []) = ([104, 10], [97])" by (simp add: INPUT_BUF_def)
  then show ?thesis
    using console_line_discipline [OF cons_example_ok(4) cons_example_ok(3), of "[105, 8, 97]"] by (auto simp: cons_example_ok)
qed

theorem console_read_line_witness:
  "\<exists>t. consoleread_loop 5 [] (cons_example\<lparr>held := [LkCons]\<rparr>) = Ret (Some [104, 10]) (t\<lparr>held := [LkCons]\<rparr>) \<and> committed t = []"
  using console_read_line [OF cons_example_ok(4) cons_example_ok(3), of 5]
  by (auto simp: cons_example_ok plain_def input_left_def)

end
