(* ===== verification/Kbd.thy ===== *)
theory Kbd
  imports Console
begin

text \<open>
  The keyboard (\<open>kbd.c\<close>, \<open>kbd.h\<close>): the tables of scan codes and the decoding of a scan code with
  the state of the shift keys, and the interrupt handler. The byte from the controller is an argument, \<open>None\<close> when none is
  waiting.
\<close>

unbundle bit_operations_syntax

definition SHIFT :: uint32 where "SHIFT = 1"
definition CTL :: uint32 where "CTL = 2"
definition ALT :: uint32 where "ALT = 4"
definition CAPSLOCK :: uint32 where "CAPSLOCK = 8"
definition NUMLOCK :: uint32 where "NUMLOCK = 16"
definition SCROLLLOCK :: uint32 where "SCROLLLOCK = 32"
definition E0ESC :: uint32 where "E0ESC = 64"

definition shiftcode :: "nat \<Rightarrow> uint32" where
  "shiftcode d = (if d = 0x1D then CTL else if d = 0x2A then SHIFT else if d = 0x36 then SHIFT
     else if d = 0x38 then ALT else if d = 0x9D then CTL else if d = 0xB8 then ALT else 0)"

definition togglecode :: "nat \<Rightarrow> uint32" where
  "togglecode d = (if d = 0x3A then CAPSLOCK else if d = 0x45 then NUMLOCK else if d = 0x46 then SCROLLLOCK else 0)"

text \<open>The entries the three maps share, with the given codes for enter and divide.\<close>

definition keypad :: "uchar \<Rightarrow> uchar \<Rightarrow> nat \<Rightarrow> uchar" where
  "keypad enter kpdiv d =
     (if d = 0x9C then enter else if d = 0xB5 then kpdiv
      else if d = 0xC8 then 0xE2 else if d = 0xD0 then 0xE3 else if d = 0xC9 then 0xE6 else if d = 0xD1 then 0xE7
      else if d = 0xCB then 0xE4 else if d = 0xCD then 0xE5 else if d = 0x97 then 0xE0 else if d = 0xCF then 0xE1
      else if d = 0xD2 then 0xE8 else if d = 0xD3 then 0xE9 else 0)"

definition from_rows :: "uchar list \<Rightarrow> (nat \<Rightarrow> uchar) \<Rightarrow> nat \<Rightarrow> uchar" where
  "from_rows rows rest d = (if d < length rows then rows ! d else rest d)"

definition chars :: "string \<Rightarrow> uchar list" where
  "chars cs = map of_char cs"

definition normal_rows :: "uchar list" where
  "normal_rows = [0, 0x1B] @ chars ''1234567890-='' @ [8, 9] @ chars ''qwertyuiop[]'' @ [10, 0] @ chars ''asdfghjkl;'' @
     [39, 96, 0, 92] @ chars ''zxcvbnm,./'' @ [0, 42, 0, 32] @ replicate 13 0 @ chars ''789-456+1230.'' @ [0, 0, 0, 0]"

definition shift_rows :: "uchar list" where
  "shift_rows = [0, 0x1B] @ chars ''!@#$%^&*()_+'' @ [8, 9] @ chars ''QWERTYUIOP{}'' @ [10, 0] @ chars ''ASDFGHJKL:'' @
     [34, 126, 0, 124] @ chars ''ZXCVBNM<>?'' @ [0, 42, 0, 32] @ replicate 13 0 @ chars ''789-456+1230.'' @ [0, 0, 0, 0]"

definition ctl_rows :: "uchar list" where
  "ctl_rows = replicate 16 0 @ map (\<lambda>c. c - 64) (chars ''QWERTYUIOP'') @ [0, 0, 13, 0] @
     map (\<lambda>c. c - 64) (chars ''ASDFGHJKL'') @ [0, 0, 0, 0] @ [28] @ map (\<lambda>c. c - 64) (chars ''ZXCVBNM'') @ [0, 0, 47 - 64, 0, 0]"

definition normalmap :: "nat \<Rightarrow> uchar" where
  "normalmap = from_rows normal_rows (keypad 10 47)"

definition shiftmap :: "nat \<Rightarrow> uchar" where
  "shiftmap = from_rows shift_rows (keypad 10 47)"

definition ctlmap :: "nat \<Rightarrow> uchar" where
  "ctlmap = from_rows ctl_rows (keypad 13 (47 - 64))"

definition charcode :: "uint32 \<Rightarrow> nat \<Rightarrow> uchar" where
  "charcode i = (if i = 0 then normalmap else if i = 1 then shiftmap else ctlmap)"

text \<open>The last part of \<open>kbdgetc\<close>: the character of a key that was pressed, and the new shift state.\<close>

definition key_pressed :: "uint32 \<Rightarrow> uint32 \<Rightarrow> int \<times> uint32" where
  "key_pressed shift d =
     (let shift = shift OR shiftcode (unat d);
          shift = shift XOR togglecode (unat d);
          c = uint (charcode (shift AND (CTL OR SHIFT)) (unat d));
          c = (if shift AND CAPSLOCK \<noteq> 0 then
                 (if 97 \<le> c \<and> c \<le> 122 then c - 32 else if 65 \<le> c \<and> c \<le> 90 then c + 32 else c)
               else c)
      in (c, shift))"

definition kbdgetc :: "uint32 \<Rightarrow> uchar option \<Rightarrow> int \<times> uint32" where
  "kbdgetc shift port =
     (case port of
        None \<Rightarrow> (-1, shift)
      | Some b \<Rightarrow>
          let d = ucast b :: uint32
          in if d = 0xE0 then (0, shift OR E0ESC)
             else if d AND 0x80 \<noteq> 0 then
               let d = (if shift AND E0ESC \<noteq> 0 then d else d AND 0x7F)
               in (0, shift AND NOT (shiftcode (unat d) OR E0ESC))
             else if shift AND E0ESC \<noteq> 0 then key_pressed (shift AND NOT E0ESC) (d OR 0x80)
             else key_pressed shift d)"

text \<open>The values \<open>consoleintr\<close> gets from the bytes that are waiting, and the shift state after them.\<close>

fun kbd_chars :: "uint32 \<Rightarrow> uchar list \<Rightarrow> int list \<times> uint32" where
  "kbd_chars shift [] = ([], shift)"
| "kbd_chars shift (b # bs) =
     (let (c, shift) = kbdgetc shift (Some b);
          (cs, shift) = kbd_chars shift bs
      in (c # cs, shift))"

text \<open>The static variable \<open>shift\<close> is a field of the state.\<close>

record kbd_state = cons_state +
  kbd_shift :: uint32

definition kbdintr :: "uchar list \<Rightarrow> 'a kbd_state_scheme \<Rightarrow> (bool, 'a kbd_state_scheme) outcome" where
  "kbdintr bs s =
     (let (cs, shift) = kbd_chars (kbd_shift s) bs
      in consoleintr cs (s\<lparr>kbd_shift := shift\<rparr>))"

lemma map_rows:
  "length normal_rows = 0x58" "length shift_rows = 0x58" "length ctl_rows = 0x38"
  by (simp_all add: normal_rows_def shift_rows_def ctl_rows_def chars_def)

text \<open>Every value of \<open>kbdgetc\<close> for a byte that is waiting is a character code.\<close>

lemma kbdgetc_range: "0 \<le> fst (kbdgetc shift (Some b)) \<and> fst (kbdgetc shift (Some b)) < 256"
proof -
  have "0 \<le> fst (key_pressed shift d) \<and> fst (key_pressed shift d) < 256" for shift d
    using unsigned_less [where ?'a = int, of "charcode (((shift OR shiftcode (unat d)) XOR togglecode (unat d)) AND (CTL OR SHIFT)) (unat d)"]
    by (auto simp: key_pressed_def Let_def split: if_splits)
  then show ?thesis by (auto simp: kbdgetc_def Let_def)
qed


lemma kbd_chars_range: "list_all (\<lambda>c. 0 \<le> c \<and> c < 256) (fst (kbd_chars shift bs))"
proof (induction bs arbitrary: shift)
  case (Cons b bs)
  then show ?case
    using kbdgetc_range [of shift b] Cons [of "snd (kbdgetc shift (Some b))"] by (simp add: case_prod_beta Let_def)
qed simp

end
