(* ===== verification/Trap.thy ===== *)
theory Trap
  imports Kbd
begin

text \<open>
  The trap handler (\<open>trap.c\<close>, \<open>traps.h\<close>). The bytes waiting at the keyboard and at the serial port
  are arguments. The result says whether the process has given up the processor; then
  \<open>trap_resume\<close> is what it does when it is scheduled again.
\<close>

definition T_SYSCALL :: nat where "T_SYSCALL = 64"
definition T_IRQ0 :: nat where "T_IRQ0 = 32"
definition IRQ_TIMER :: nat where "IRQ_TIMER = 0"
definition IRQ_KBD :: nat where "IRQ_KBD = 1"
definition IRQ_COM1 :: nat where "IRQ_COM1 = 4"
definition IRQ_IDE :: nat where "IRQ_IDE = 14"
definition IRQ_SPURIOUS :: nat where "IRQ_SPURIOUS = 31"

definition timer_tick :: "'a proc_state_scheme \<Rightarrow> (unit, 'a proc_state_scheme) outcome" where
  "timer_tick s =
     kbind (acquire LkTicks s) (\<lambda>_ s.
     let s = s\<lparr>ticks := ticks s + 1\<rparr>
     in kbind (update_process_stats s) (\<lambda>_ s.
        kbind (wakeup ChTicks s) (\<lambda>_ s. release LkTicks s)))"

definition from_user :: "trapframe \<Rightarrow> bool" where
  "from_user tf \<longleftrightarrow> tf_cs tf AND 3 = 3"

text \<open>The \<open>switch\<close> over the trap number.\<close>

definition trap_switch :: "uchar list \<Rightarrow> uchar list \<Rightarrow> trapframe \<Rightarrow> 'a kbd_state_scheme \<Rightarrow>
    (unit, 'a kbd_state_scheme) outcome" where
  "trap_switch kbd com tf s =
     (let n = unat (tf_trapno tf)
      in if n = T_IRQ0 + IRQ_TIMER then timer_tick s
         else if n = T_IRQ0 + IRQ_IDE \<or> n = T_IRQ0 + IRQ_IDE + 1 then Ret () s
         else if n = T_IRQ0 + IRQ_KBD then kbind (kbdintr kbd s) (\<lambda>_ s. Ret () s)
         else if n = T_IRQ0 + IRQ_COM1 then kbind (consoleintr (map uint (if uart s then com else [])) s) (\<lambda>_ s. Ret () s)
         else if n = T_IRQ0 + 7 \<or> n = T_IRQ0 + IRQ_SPURIOUS then Ret () s
         else
           case myproc s of
             None \<Rightarrow> Panic ''trap''
           | Some p \<Rightarrow>
               if tf_cs tf AND 3 = 0 then Panic ''trap''
               else Ret () (upd_proc p (\<lambda>r. r\<lparr>p_killed := True\<rparr>) s))"

definition exit_if_killed :: "trapframe \<Rightarrow> 'a file_state_scheme \<Rightarrow> (unit, 'a file_state_scheme) outcome" where
  "exit_if_killed tf s =
     (case myproc s of
        None \<Rightarrow> Ret () s
      | Some p \<Rightarrow> if p_killed (slot s p) \<and> from_user tf then exit s else Ret () s)"

text \<open>Preemption at a timer interrupt, for each scheduler; the result is whether the process yields.\<close>

definition trap_preempt :: "trapframe \<Rightarrow> 'a proc_state_scheme \<Rightarrow> (bool, 'a proc_state_scheme) outcome" where
  "trap_preempt tf s =
     (case myproc s of
        None \<Rightarrow> Ret False s
      | Some p \<Rightarrow>
          if p_state (slot s p) = RUNNING \<and> unat (tf_trapno tf) = T_IRQ0 + IRQ_TIMER then
            case sched_cfg s of
              RR \<Rightarrow> kbind (yield s) (\<lambda>_ s. Ret True s)
            | FCFS \<Rightarrow> Ret False s
            | PBS \<Rightarrow> kbind (yield s) (\<lambda>_ s. Ret True s)
            | MLFQ \<Rightarrow>
                let q = p_curr_queue_id (slot s p)
                in if q < 0 \<or> 5 \<le> q then Fault
                   else if runtime_limit ! nat q + 1 \<le> p_curr_ticks_got (slot s p) then
                     kbind (setup_demotion p s) (\<lambda>_ s. kbind (yield s) (\<lambda>_ s. Ret True s))
                   else Ret False s
          else Ret False s)"

definition trap_syscall :: "uint32 \<Rightarrow> trapframe \<Rightarrow> 'a kbd_state_scheme \<Rightarrow> (unit, 'a kbd_state_scheme) outcome" where
  "trap_syscall data tf s =
     (case myproc s of
        None \<Rightarrow> Fault
      | Some p \<Rightarrow>
          kbind (if p_killed (slot s p) then exit s else Ret () s) (\<lambda>_ s.
          let s = upd_proc p (\<lambda>r. r\<lparr>p_tf := tf\<rparr>) s
          in kbind (syscall data devsw_read devsw_write s) (\<lambda>_ s.
             if p_killed (slot s p) then exit s else Ret () s)))"

definition trap :: "uint32 \<Rightarrow> uchar list \<Rightarrow> uchar list \<Rightarrow> trapframe \<Rightarrow> 'a kbd_state_scheme \<Rightarrow>
    (bool, 'a kbd_state_scheme) outcome" where
  "trap data kbd com tf s =
     (if unat (tf_trapno tf) = T_SYSCALL then kbind (trap_syscall data tf s) (\<lambda>_ s. Ret False s)
      else
        kbind (trap_switch kbd com tf s) (\<lambda>_ s.
        kbind (exit_if_killed tf s) (\<lambda>_ s.
        kbind (trap_preempt tf s) (\<lambda>y s.
        if y then Ret True s else kbind (exit_if_killed tf s) (\<lambda>_ s. Ret False s)))))"

definition trap_resume :: "trapframe \<Rightarrow> 'a file_state_scheme \<Rightarrow> (unit, 'a file_state_scheme) outcome" where
  "trap_resume tf s = kbind (yield_resume s) (\<lambda>_ s. exit_if_killed tf s)"

end
