(* ===== verification/Grep.thy ===== *)
theory Grep
  imports Main
begin

text \<open>
  The pattern matcher of \<open>grep.c\<close> and the loop that reads lines. Strings are lists of characters
  without the terminating zero, so the test for the zero is the test for the empty list. The
  matcher is compared with the language of the pattern.
\<close>

section \<open>The matcher\<close>

text \<open>\<open>matchhere\<close> and \<open>matchstar\<close>, which call each other; the loop of \<open>matchstar\<close> is recursion on the text.\<close>

function matchhere :: "string \<Rightarrow> string \<Rightarrow> bool"
  and matchstar :: "char \<Rightarrow> string \<Rightarrow> string \<Rightarrow> bool" where
  "matchhere re tx =
     (case re of
        [] \<Rightarrow> True
      | c # re1 \<Rightarrow>
          if re1 \<noteq> [] \<and> hd re1 = CHR ''*'' then matchstar c (tl re1) tx
          else if c = CHR ''$'' \<and> re1 = [] then tx = []
          else
            (case tx of
               [] \<Rightarrow> False
             | x # tx1 \<Rightarrow> if c = CHR ''.'' \<or> c = x then matchhere re1 tx1 else False))"
| "matchstar c re tx =
     (if matchhere re tx then True
      else
        (case tx of
           [] \<Rightarrow> False
         | x # tx1 \<Rightarrow> if x = c \<or> c = CHR ''.'' then matchstar c re tx1 else False))"
  by pat_completeness auto
termination
  by (relation "measures [\<lambda>x. case x of Inl (re, tx) \<Rightarrow> 2 * length re | Inr (c, re, tx) \<Rightarrow> 2 * length re + 1,
        \<lambda>x. case x of Inl (re, tx) \<Rightarrow> length tx | Inr (c, re, tx) \<Rightarrow> length tx]") auto

declare matchhere.simps [simp del] matchstar.simps [simp del]

text \<open>The loop of \<open>match\<close> over the places where a match can start, the end of the text included.\<close>

fun match_from :: "string \<Rightarrow> string \<Rightarrow> bool" where
  "match_from re tx =
     (if matchhere re tx then True
      else (case tx of [] \<Rightarrow> False | _ # tx1 \<Rightarrow> match_from re tx1))"

declare match_from.simps [simp del]

definition match :: "string \<Rightarrow> string \<Rightarrow> bool" where
  "match re tx =
     (if re \<noteq> [] \<and> hd re = CHR ''^'' then matchhere (tl re) tx
      else match_from re tx)"

section \<open>Reading lines\<close>

text \<open>
  The inner loop of \<open>grep\<close> on the contents of the buffer: the lines it prints and what is left
  after the last newline.
\<close>

function grep_lines :: "string \<Rightarrow> string \<Rightarrow> string list \<times> string" where
  "grep_lines pattern p =
     (if CHR 0x0A \<in> set p then
        let line = takeWhile (\<lambda>c. c \<noteq> CHR 0x0A) p;
            rest = tl (dropWhile (\<lambda>c. c \<noteq> CHR 0x0A) p);
            (ls, r) = grep_lines pattern rest
        in (if match pattern line then line # ls else ls, r)
      else ([], p))"
  by pat_completeness auto
termination
proof (relation "measure (\<lambda>(pattern, p). length p)")
  fix pattern p :: string and line rest
  assume "CHR 0x0A \<in> set p" "rest = tl (dropWhile (\<lambda>c. c \<noteq> CHR 0x0A) p)"
  moreover from this(1) have "dropWhile (\<lambda>c. c \<noteq> CHR 0x0A) p \<noteq> []" by simp
  ultimately show "((pattern, rest), pattern, p) \<in> measure (\<lambda>(pattern, p). length p)"
    using length_dropWhile_le [of "\<lambda>c. c \<noteq> CHR 0x0A" p] by (cases "dropWhile (\<lambda>c. c \<noteq> CHR 0x0A) p") auto
qed simp

declare grep_lines.simps [simp del]

text \<open>
  The outer loop, given the bytes each \<open>read\<close> returns; \<open>kept\<close> is what the last round left in the
  buffer. When a round finds no newline, \<open>p\<close> is still the start of the buffer and the contents
  are dropped.
\<close>

fun grep :: "string \<Rightarrow> string \<Rightarrow> string list \<Rightarrow> string list" where
  "grep pattern kept [] = []"
| "grep pattern kept (chunk # chunks) =
     (if chunk = [] then []
      else
        let b = kept @ chunk;
            (ls, r) = grep_lines pattern b
        in ls @ grep pattern (if CHR 0x0A \<in> set b then r else []) chunks)"

section \<open>The language of a pattern\<close>

datatype item = One char | Many char

text \<open>The items of a pattern, and whether it is anchored at the end of the text.\<close>

fun items :: "string \<Rightarrow> item list \<times> bool" where
  "items [] = ([], False)"
| "items [c] = (if c = CHR ''$'' then ([], True) else ([One c], False))"
| "items (c # d # re) =
     (if d = CHR ''*'' then (case items re of (is, e) \<Rightarrow> (Many c # is, e))
      else (case items (d # re) of (is, e) \<Rightarrow> (One c # is, e)))"

definition fits :: "char \<Rightarrow> char \<Rightarrow> bool" where
  "fits c x \<longleftrightarrow> c = CHR ''.'' \<or> c = x"

fun lang :: "item list \<Rightarrow> string set" where
  "lang [] = {[]}"
| "lang (One c # is) = {x # w |x w. fits c x \<and> w \<in> lang is}"
| "lang (Many c # is) = {u @ w |u w. (\<forall>x\<in>set u. fits c x) \<and> w \<in> lang is}"

definition accepts :: "string \<Rightarrow> string \<Rightarrow> bool" where
  "accepts re tx \<longleftrightarrow>
     (case items re of (is, e) \<Rightarrow> \<exists>u v. tx = u @ v \<and> u \<in> lang is \<and> (e \<longrightarrow> v = []))"

text \<open>One starred item unfolds to no repetition or one more.\<close>

lemma lang_Many: "lang (Many c # is) = lang is \<union> {x # w |x w. fits c x \<and> w \<in> lang (Many c # is)}"
proof (intro equalityI subsetI)
  fix t assume "t \<in> lang (Many c # is)"
  then obtain u w where t: "t = u @ w" "\<forall>x\<in>set u. fits c x" "w \<in> lang is" by auto
  then show "t \<in> lang is \<union> {x # w |x w. fits c x \<and> w \<in> lang (Many c # is)}" by (cases u) auto
next
  fix t assume t: "t \<in> lang is \<union> {x # w |x w. fits c x \<and> w \<in> lang (Many c # is)}"
  then consider "t \<in> lang is" | x u w where "t = x # u @ w" "fits c x" "\<forall>x\<in>set u. fits c x" "w \<in> lang is" by auto
  then show "t \<in> lang (Many c # is)"
  proof cases
    case 1
    then have "t = [] @ t \<and> (\<forall>x\<in>set []. fits c x) \<and> t \<in> lang is" by simp
    then show ?thesis unfolding lang.simps by blast
  next
    case (2 x u w)
    then have "t = (x # u) @ w \<and> (\<forall>x\<in>set (x # u). fits c x) \<and> w \<in> lang is" by simp
    then show ?thesis unfolding lang.simps by blast
  qed
qed

definition accepts_items :: "item list \<Rightarrow> bool \<Rightarrow> string \<Rightarrow> bool" where
  "accepts_items is e tx \<longleftrightarrow> (\<exists>u v. tx = u @ v \<and> u \<in> lang is \<and> (e \<longrightarrow> v = []))"

lemma accepts_items_simps:
  "accepts_items [] e tx \<longleftrightarrow> (e \<longrightarrow> tx = [])"
  "accepts_items (One c # is) e tx \<longleftrightarrow> (\<exists>x t. tx = x # t \<and> fits c x \<and> accepts_items is e t)"
  "accepts_items (Many c # is) e tx \<longleftrightarrow>
     accepts_items is e tx \<or> (\<exists>x t. tx = x # t \<and> fits c x \<and> accepts_items (Many c # is) e t)"
proof -
  show "accepts_items [] e tx \<longleftrightarrow> (e \<longrightarrow> tx = [])" by (auto simp: accepts_items_def)
  show "accepts_items (One c # is) e tx \<longleftrightarrow> (\<exists>x t. tx = x # t \<and> fits c x \<and> accepts_items is e t)"
  proof
    assume "accepts_items (One c # is) e tx"
    then obtain u v where uv: "tx = u @ v" "u \<in> lang (One c # is)" "e \<longrightarrow> v = []" unfolding accepts_items_def by blast
    from uv(2) obtain x w where "u = x # w" "fits c x" "w \<in> lang is" by auto
    with uv(1,3) have "tx = x # w @ v" "fits c x" "w \<in> lang is" "e \<longrightarrow> v = []" by simp_all
    then show "\<exists>x t. tx = x # t \<and> fits c x \<and> accepts_items is e t" unfolding accepts_items_def by blast
  next
    assume "\<exists>x t. tx = x # t \<and> fits c x \<and> accepts_items is e t"
    then obtain x u v where "tx = (x # u) @ v" "x # u \<in> lang (One c # is)" "e \<longrightarrow> v = []" by (auto simp: accepts_items_def)
    then show "accepts_items (One c # is) e tx" unfolding accepts_items_def by blast
  qed
  show "accepts_items (Many c # is) e tx \<longleftrightarrow>
     accepts_items is e tx \<or> (\<exists>x t. tx = x # t \<and> fits c x \<and> accepts_items (Many c # is) e t)"
  proof
    assume "accepts_items (Many c # is) e tx"
    then obtain u v where uv: "tx = u @ v" "u \<in> lang (Many c # is)" "e \<longrightarrow> v = []" by (auto simp: accepts_items_def)
    from uv(2) consider "u \<in> lang is" | x w where "u = x # w" "fits c x" "w \<in> lang (Many c # is)"
      by (subst (asm) lang_Many) blast
    then show "accepts_items is e tx \<or> (\<exists>x t. tx = x # t \<and> fits c x \<and> accepts_items (Many c # is) e t)"
    proof cases
      case 1
      with uv show ?thesis by (auto simp: accepts_items_def)
    next
      case (2 x w)
      with uv have "accepts_items (Many c # is) e (w @ v)" unfolding accepts_items_def by blast
      with 2 uv(1) show ?thesis by simp
    qed
  next
    assume "accepts_items is e tx \<or> (\<exists>x t. tx = x # t \<and> fits c x \<and> accepts_items (Many c # is) e t)"
    then consider u v where "tx = u @ v" "u \<in> lang is" "e \<longrightarrow> v = []"
      | x u v where "tx = x # (u @ v)" "fits c x" "u \<in> lang (Many c # is)" "e \<longrightarrow> v = []"
      unfolding accepts_items_def by blast
    then show "accepts_items (Many c # is) e tx"
    proof cases
      case (1 u v)
      have "u \<in> lang (Many c # is)" using 1(2) by (subst lang_Many) (rule UnI1)
      with 1 show ?thesis unfolding accepts_items_def by blast
    next
      case (2 x u v)
      have "x # u \<in> lang (Many c # is)" using 2(2,3) by (subst lang_Many) blast
      moreover have "tx = (x # u) @ v" using 2(1) by simp
      ultimately show ?thesis using 2(4) unfolding accepts_items_def by blast
    qed
  qed
qed

lemma matchstar_accepts:
  assumes "\<And>t. matchhere re t \<longleftrightarrow> accepts_items is e t"
  shows "matchstar c re tx \<longleftrightarrow> accepts_items (Many c # is) e tx"
proof (induction tx)
  case Nil
  then show ?case unfolding matchstar.simps [of c re "[]"] accepts_items_simps(3) [of c _ _ "[]"] by (simp add: assms)
next
  case (Cons x tx)
  then show ?case unfolding matchstar.simps [of c re "x # tx"] accepts_items_simps(3) [of c _ _ "x # tx"] by (auto simp: assms fits_def)
qed

lemma matchhere_accepts: "matchhere re tx \<longleftrightarrow> accepts_items (fst (items re)) (snd (items re)) tx"
proof (induction re arbitrary: tx rule: items.induct)
  case 1
  then show ?case by (subst matchhere.simps) (simp add: accepts_items_simps)
next
  case (2 c)
  then show ?case
    by (subst matchhere.simps) (auto simp: accepts_items_simps fits_def matchhere.simps [of "[]"] split: list.splits)
next
  case (3 c d re)
  show ?case
  proof (cases "d = CHR ''*''")
    case True
    have "matchhere (c # d # re) tx = matchstar c re tx" by (subst matchhere.simps) (simp add: True)
    also have "\<dots> = accepts_items (Many c # fst (items re)) (snd (items re)) tx"
      using 3(1) [OF True] by (rule matchstar_accepts)
    finally show ?thesis using True by (simp add: case_prod_beta)
  next
    case False
    have "matchhere (c # d # re) tx = (\<exists>x t. tx = x # t \<and> fits c x \<and> matchhere (d # re) t)"
      using False by (subst matchhere.simps) (auto simp: fits_def split: list.splits)
    then show ?thesis using False 3(2) [OF False] by (simp add: case_prod_beta accepts_items_simps)
  qed
qed

lemma match_from_accepts: "match_from re tx \<longleftrightarrow> (\<exists>p t. tx = p @ t \<and> matchhere re t)"
proof (induction tx)
  case Nil
  then show ?case by (subst match_from.simps) simp
next
  case (Cons x tx)
  then show ?case unfolding match_from.simps [of re "x # tx"] by (auto simp: Cons_eq_append_conv)
qed

text \<open>A line that arrives in two pieces is lost when the first piece has no newline.\<close>

lemma grep_drops_partial_line:
  "match ''a'' ''abc'' \<and> grep ''a'' [] [''abc'' @ [CHR 0x0A]] = [''abc''] \<and>
   grep ''a'' [] [''ab'', ''c'' @ [CHR 0x0A]] = []"
  by (simp add: match_def match_from.simps matchhere.simps grep_lines.simps)

section \<open>Properties\<close>

text \<open>
  C33: match decides the language of the pattern: a pattern that starts with a caret matches a
  tx exactly when a prefix of the text is in the language, and any other pattern when some part
  of the text is; a dollar at the end of the pattern requires the part to reach the end of the
  tx. Patterns are read as sequences of characters, dots and starred characters.
\<close>

theorem match_correct:
  "match re tx \<longleftrightarrow>
     (if re \<noteq> [] \<and> hd re = CHR ''^'' then accepts (tl re) tx
      else \<exists>p t. tx = p @ t \<and> accepts re t)"
proof -
  have acc: "matchhere r t \<longleftrightarrow> accepts r t" for r t
    by (simp add: matchhere_accepts accepts_items_def accepts_def case_prod_beta)
  show ?thesis
    by (simp add: match_def match_from_accepts acc)
qed

end
