(* ===== verification/Shell.thy ===== *)
theory Shell
  imports Main
begin

text \<open>
  The parser of the shell (\<open>sh.c\<close>). The text between \<open>*ps\<close> and \<open>es\<close> is a list of characters; a
  token is the list of its characters, so that \<open>nulterminate\<close>, which cuts the tokens off in
  place, has nothing left to do. The four parsing functions call each other; their first argument
  bounds the depth of the calls.
\<close>

definition MAXARGS :: nat where "MAXARGS = 10"

datatype cmd =
    EXEC "string list"
  | REDIR cmd string nat nat
  | PIPE cmd cmd
  | LIST cmd cmd
  | BACK cmd

text \<open>A result with the rest of the text, a call of \<open>panic\<close>, or the bound on the depth is reached.\<close>

datatype 'a parsed = Parsed 'a string | Syntax string | Deep

fun pbind :: "'a parsed \<Rightarrow> ('a \<Rightarrow> string \<Rightarrow> 'b parsed) \<Rightarrow> 'b parsed" where
  "pbind (Parsed a s) f = f a s"
| "pbind (Syntax msg) f = Syntax msg"
| "pbind Deep f = Deep"

definition whitespace :: string where
  "whitespace = [CHR '' '', CHR 0x09, CHR 0x0D, CHR 0x0A, CHR 0x0B]"

definition symbols :: string where
  "symbols = ''<|>&;()''"

definition skip :: "string \<Rightarrow> string" where
  "skip s = dropWhile (\<lambda>c. c \<in> set whitespace) s"

definition word_char :: "char \<Rightarrow> bool" where
  "word_char c \<longleftrightarrow> c \<notin> set whitespace \<and> c \<notin> set symbols"

text \<open>The kind of the next token, its characters and the rest; \<open>CHR 0x00\<close> at the end of the text.\<close>

definition gettoken :: "string \<Rightarrow> char \<times> string \<times> string" where
  "gettoken s =
     (case skip s of
        [] \<Rightarrow> (CHR 0x00, [], [])
      | c # cs \<Rightarrow>
          if c \<in> set ''|();&<'' then (c, [c], skip cs)
          else if c = CHR ''>'' then
            (if cs \<noteq> [] \<and> hd cs = CHR ''>'' then (CHR ''+'', [c, c], skip (tl cs)) else (c, [c], skip cs))
          else (CHR ''a'', takeWhile word_char (c # cs), skip (dropWhile word_char (c # cs))))"

text \<open>\<open>peek\<close> also moves \<open>*ps\<close> past white space; that is \<open>skip\<close> at the calls.\<close>

definition peek :: "string \<Rightarrow> string \<Rightarrow> bool" where
  "peek s toks \<longleftrightarrow> (case skip s of [] \<Rightarrow> False | c # _ \<Rightarrow> c \<in> set toks)"

definition rest_of :: "string \<Rightarrow> string" where
  "rest_of s = snd (snd (gettoken s))"

definition REDIR_IN :: nat where "REDIR_IN = 0"
definition REDIR_OUT :: nat where "REDIR_OUT = 0x201"

lemma skip_length: "length (skip s) \<le> length s"
  by (simp add: skip_def length_dropWhile_le)

text \<open>Every token takes at least one character.\<close>

lemma gettoken_shorter: "skip s \<noteq> [] \<Longrightarrow> length (rest_of s) < length s"
proof -
  assume "skip s \<noteq> []"
  then obtain c cs where s: "skip s = c # cs" by (cases "skip s") auto
  have c: "c \<notin> set whitespace"
    using hd_dropWhile [of "\<lambda>c. c \<in> set whitespace" s] s unfolding skip_def by (metis list.distinct(1) list.sel(1))
  have len: "length (c # cs) \<le> length s" using skip_length [of s] s by simp
  have "length (rest_of s) \<le> length cs"
  proof (cases "c \<in> set ''|();&<'' \<or> c = CHR ''>''")
    case True
    have "length (skip (tl cs)) \<le> length cs" using skip_length [of "tl cs"] by simp
    with True s skip_length [of cs] show ?thesis by (auto simp: rest_of_def gettoken_def)
  next
    case False
    then have "word_char c" using c by (auto simp: word_char_def symbols_def)
    have "length (skip (dropWhile word_char cs)) \<le> length cs"
      using skip_length [of "dropWhile word_char cs"] length_dropWhile_le [of word_char cs] by simp
    with False s \<open>word_char c\<close> show ?thesis by (auto simp: rest_of_def gettoken_def)
  qed
  with len show ?thesis by simp
qed

lemma peek_shorter: "peek s toks \<Longrightarrow> length (rest_of s) < length s"
  by (rule gettoken_shorter) (auto simp: peek_def split: list.splits)

text \<open>The redirections that follow, in order: file, mode and descriptor.\<close>

function parseredirs :: "string \<Rightarrow> (string \<times> nat \<times> nat) list parsed" where
  "parseredirs s =
     (if peek s ''<>'' then
        let tok = fst (gettoken s);
            t = gettoken (rest_of s)
        in if fst t \<noteq> CHR ''a'' then Syntax ''missing file for redirection''
           else
             pbind (parseredirs (snd (snd t))) (\<lambda>rs s.
             Parsed ((fst (snd t), if tok = CHR ''<'' then (REDIR_IN, 0) else (REDIR_OUT, 1)) # rs) s)
      else Parsed [] (skip s))"
  by pat_completeness auto
termination
proof (relation "measure length")
  fix s :: string and tok t
  assume p: "peek s ''<>''" and t: "t = gettoken (rest_of s)" "\<not> fst t \<noteq> CHR ''a''"
  have "skip (rest_of s) \<noteq> []" using t by (auto simp: gettoken_def)
  from gettoken_shorter [OF this] peek_shorter [OF p] t(1) show "(snd (snd t), s) \<in> measure length"
    by (simp add: rest_of_def)
qed simp

declare parseredirs.simps [simp del]

lemma parseredirs_length: "parseredirs s = Parsed rs s' \<Longrightarrow> length s' \<le> length s"
proof (induction s arbitrary: rs rule: parseredirs.induct)
  case (1 s)
  show ?case
  proof (cases "peek s ''<>''")
    case True
    let ?t = "gettoken (rest_of s)"
    from 1(2) True have a: "fst ?t = CHR ''a''" by (auto simp: parseredirs.simps [of s] Let_def split: if_splits)
    with 1(2) True obtain rs' where rec: "parseredirs (snd (snd ?t)) = Parsed rs' s'"
      by (cases "parseredirs (snd (snd ?t))") (auto simp: parseredirs.simps [of s] Let_def)
    have "skip (rest_of s) \<noteq> []" using a by (auto simp: gettoken_def)
    from gettoken_shorter [OF this] peek_shorter [OF True] 1(1) [OF True refl refl _ rec] a show ?thesis
      by (simp add: rest_of_def)
  next
    case False
    with 1(2) skip_length show ?thesis by (auto simp: parseredirs.simps [of s])
  qed
qed

lemma parseredirs_not_Deep: "parseredirs s \<noteq> Deep"
proof (induction s rule: parseredirs.induct)
  case (1 s)
  from 1 [OF _ refl refl] show ?case
    by (cases "parseredirs (snd (snd (gettoken (rest_of s))))") (auto simp: parseredirs.simps [of s] Let_def)
qed

definition redirect :: "(string \<times> nat \<times> nat) list \<Rightarrow> cmd \<Rightarrow> cmd" where
  "redirect rs c = fold (\<lambda>(f, mode, fd) c. REDIR c f mode fd) rs c"

text \<open>The loop of \<open>parseexec\<close>: the arguments and redirections read so far.\<close>

function parseargs :: "string list \<Rightarrow> (string \<times> nat \<times> nat) list \<Rightarrow> string \<Rightarrow> cmd parsed" where
  "parseargs argv rs s =
     (if peek s ''|)&;'' then Parsed (redirect rs (EXEC argv)) (skip s)
      else
        let t = gettoken s
        in if fst t = CHR 0x00 then Parsed (redirect rs (EXEC argv)) (snd (snd t))
           else if fst t \<noteq> CHR ''a'' then Syntax ''syntax''
           else if MAXARGS \<le> length argv + 1 then Syntax ''too many args''
           else
             (case parseredirs (snd (snd t)) of
                Parsed rs' s' \<Rightarrow> parseargs (argv @ [fst (snd t)]) (rs @ rs') s'
              | Syntax msg \<Rightarrow> Syntax msg
              | Deep \<Rightarrow> Deep))"
  by pat_completeness auto
termination
proof (relation "measure (\<lambda>(argv, rs, s). length s)")
  fix argv :: "string list" and rs rs' :: "(string \<times> nat \<times> nat) list" and s s' t
  assume t: "t = gettoken s" "fst t \<noteq> CHR 0x00" and r: "parseredirs (snd (snd t)) = Parsed rs' s'"
  have "skip s \<noteq> []" using t by (auto simp: gettoken_def)
  from gettoken_shorter [OF this] parseredirs_length [OF r] t(1)
  show "((argv @ [fst (snd t)], rs @ rs', s'), argv, rs, s) \<in> measure (\<lambda>(argv, rs, s). length s)"
    by (simp add: rest_of_def)
qed simp

declare parseargs.simps [simp del]

text \<open>The loop of \<open>parseline\<close> over the ampersands.\<close>

function parseback :: "cmd \<Rightarrow> string \<Rightarrow> cmd \<times> string" where
  "parseback c s = (if peek s ''&'' then parseback (BACK c) (rest_of s) else (c, skip s))"
  by pat_completeness auto
termination
  by (relation "measure (\<lambda>(c, s). length s)") (auto simp: peek_shorter)

declare parseback.simps [simp del]

fun parseline :: "nat \<Rightarrow> string \<Rightarrow> cmd parsed"
  and parsepipe :: "nat \<Rightarrow> string \<Rightarrow> cmd parsed"
  and parseexec :: "nat \<Rightarrow> string \<Rightarrow> cmd parsed"
  and parseblock :: "nat \<Rightarrow> string \<Rightarrow> cmd parsed" where
  "parseline 0 s = Deep"
| "parseline (Suc n) s =
     pbind (parsepipe n s) (\<lambda>c s.
     let (c, s) = parseback c s
     in if peek s '';'' then pbind (parseline n (rest_of s)) (\<lambda>d s. Parsed (LIST c d) s)
        else Parsed c s)"
| "parsepipe 0 s = Deep"
| "parsepipe (Suc n) s =
     pbind (parseexec n s) (\<lambda>c s.
     if peek s ''|'' then pbind (parsepipe n (rest_of s)) (\<lambda>d s. Parsed (PIPE c d) s)
     else Parsed c (skip s))"
| "parseexec 0 s = Deep"
| "parseexec (Suc n) s =
     (if peek s ''('' then parseblock n s
      else pbind (parseredirs s) (\<lambda>rs s. parseargs [] rs s))"
| "parseblock 0 s = Deep"
| "parseblock (Suc n) s =
     (if \<not> peek s ''('' then Syntax ''parseblock''
      else
        pbind (parseline n (rest_of s)) (\<lambda>c s.
        if \<not> peek s '')'' then Syntax ''syntax - missing )''
        else pbind (parseredirs (rest_of s)) (\<lambda>rs s. Parsed (redirect rs c) s)))"

text \<open>Four calls are enough for every character.\<close>

definition parsecmd :: "string \<Rightarrow> cmd parsed" where
  "parsecmd s =
     pbind (parseline (4 * length s + 4) s) (\<lambda>c s.
     if skip s \<noteq> [] then Syntax ''syntax'' else Parsed c [])"


section \<open>The parser ends\<close>

lemma pbind_Parsed: "pbind m f = Parsed a s \<longleftrightarrow> (\<exists>b t. m = Parsed b t \<and> f b t = Parsed a s)"
  by (cases m) auto

lemma pbind_Deep: "pbind m f = Deep \<longleftrightarrow> m = Deep \<or> (\<exists>b t. m = Parsed b t \<and> f b t = Deep)"
  by (cases m) auto

lemma rest_of_length: "length (rest_of s) \<le> length s"
  using gettoken_shorter [of s] by (cases "skip s = []") (auto simp: rest_of_def gettoken_def)

lemma parseargs_result:
  "parseargs argv rs s \<noteq> Deep \<and> (\<forall>c s'. parseargs argv rs s = Parsed c s' \<longrightarrow> length s' \<le> length s)"
proof (induction argv rs s rule: parseargs.induct)
  case (1 argv rs s)
  let ?t = "gettoken s"
  have rest: "length (snd (snd ?t)) \<le> length s" using rest_of_length [of s] by (simp add: rest_of_def)
  show ?case
  proof (cases "peek s ''|)&;'' \<or> fst ?t = CHR 0x00 \<or> fst ?t \<noteq> CHR ''a'' \<or> MAXARGS \<le> length argv + 1")
    case True
    with rest skip_length [of s] show ?thesis by (auto simp: parseargs.simps [of argv rs s] Let_def)
  next
    case False
    show ?thesis
    proof (cases "parseredirs (snd (snd ?t))")
      case (Parsed rs' s')
      with 1 [OF _ refl _ _ _ Parsed] False
      have "parseargs (argv @ [fst (snd ?t)]) (rs @ rs') s' \<noteq> Deep \<and>
          (\<forall>c r. parseargs (argv @ [fst (snd ?t)]) (rs @ rs') s' = Parsed c r \<longrightarrow> length r \<le> length s')" by auto
      with False Parsed parseredirs_length [OF Parsed] rest show ?thesis
        by (auto simp: parseargs.simps [of argv rs s] Let_def)
    next
      case (Syntax msg)
      with False show ?thesis by (auto simp: parseargs.simps [of argv rs s] Let_def)
    next
      case Deep
      with parseredirs_not_Deep show ?thesis by blast
    qed
  qed
qed

lemma parseback_length: "length (snd (parseback c s)) \<le> length s"
proof (induction c s rule: parseback.induct)
  case (1 c s)
  then show ?case using peek_shorter [of s "''&''"] skip_length [of s]
    by (cases "peek s ''&''") (simp_all add: parseback.simps [of c s])
qed

lemma parse_length:
  "parseline n s = Parsed c s' \<Longrightarrow> length s' \<le> length s"
  "parsepipe n s = Parsed c s' \<Longrightarrow> length s' \<le> length s"
  "parseexec n s = Parsed c s' \<Longrightarrow> length s' \<le> length s"
  "parseblock n s = Parsed c s' \<Longrightarrow> length s' \<le> length s"
proof (induction n arbitrary: s c s')
  case 0
  {
    case 1
    then show ?case by simp
  next
    case 2
    then show ?case by simp
  next
    case 3
    then show ?case by simp
  next
    case 4
    then show ?case by simp
  }
next
  case (Suc n)
  {
    case 1
    then obtain c1 s1 where p: "parsepipe n s = Parsed c1 s1" by (auto simp: pbind_Parsed)
    obtain c2 s2 where b: "parseback c1 s1 = (c2, s2)" by fastforce
    have len: "length s2 \<le> length s" using parseback_length [of c1 s1] b Suc(2) [OF p] by simp
    show ?case
    proof (cases "peek s2 '';''")
      case True
      with 1 p b obtain d where "parseline n (rest_of s2) = Parsed d s'" by (auto simp: pbind_Parsed)
      with Suc(1) rest_of_length [of s2] len show ?thesis by fastforce
    next
      case False
      with 1 p b len show ?thesis by simp
    qed
  next
    case 2
    then obtain c1 s1 where p: "parseexec n s = Parsed c1 s1" by (auto simp: pbind_Parsed)
    have len: "length s1 \<le> length s" using Suc(3) [OF p] .
    show ?case
    proof (cases "peek s1 ''|''")
      case True
      with 2 p obtain d where "parsepipe n (rest_of s1) = Parsed d s'" by (auto simp: pbind_Parsed)
      with Suc(2) rest_of_length [of s1] len show ?thesis by fastforce
    next
      case False
      with 2 p len skip_length [of s1] show ?thesis by auto
    qed
  next
    case 3
    show ?case
    proof (cases "peek s ''(''")
      case True
      with 3 Suc(4) show ?thesis by simp
    next
      case False
      with 3 obtain rs s1 where r: "parseredirs s = Parsed rs s1" "parseargs [] rs s1 = Parsed c s'" by (auto simp: pbind_Parsed)
      with parseargs_result [of "[]" rs s1] parseredirs_length [OF r(1)] show ?thesis by fastforce
    qed
  next
    case 4
    then obtain c1 s1 rs where l: "parseline n (rest_of s) = Parsed c1 s1" "parseredirs (rest_of s1) = Parsed rs s'"
      by (auto simp: pbind_Parsed split: if_splits)
    with Suc(1) [OF l(1)] parseredirs_length [OF l(2)] rest_of_length [of s] rest_of_length [of s1] show ?case by simp
  }
qed

lemma parse_not_Deep:
  "4 * length s + 4 \<le> n \<Longrightarrow> parseline n s \<noteq> Deep"
  "4 * length s + 3 \<le> n \<Longrightarrow> parsepipe n s \<noteq> Deep"
  "4 * length s + 2 \<le> n \<Longrightarrow> parseexec n s \<noteq> Deep"
  "4 * length s + 1 \<le> n \<Longrightarrow> parseblock n s \<noteq> Deep"
proof (induction n arbitrary: s)
  case 0
  {
    case 1
    then show ?case by simp
  next
    case 2
    then show ?case by simp
  next
    case 3
    then show ?case by simp
  next
    case 4
    then show ?case by simp
  }
next
  case (Suc n)
  {
    case 1
    have "parseline n (rest_of s2) \<noteq> Deep" if "parsepipe n s = Parsed c1 s1" "parseback c1 s1 = (c2, s2)" "peek s2 '';''" for c1 s1 c2 s2
      using Suc(1) [of "rest_of s2"] peek_shorter [OF that(3)] parseback_length [of c1 s1] that(2) parse_length(2) [OF that(1)] 1 by simp
    moreover have "parsepipe n s \<noteq> Deep" using Suc(2) [of s] 1 by simp
    ultimately show ?case by (auto simp: pbind_Deep split: prod.splits if_splits)
  next
    case 2
    have "parsepipe n (rest_of s1) \<noteq> Deep" if "parseexec n s = Parsed c1 s1" "peek s1 ''|''" for c1 s1
      using Suc(2) [of "rest_of s1"] peek_shorter [OF that(2)] parse_length(3) [OF that(1)] 2 by simp
    moreover have "parseexec n s \<noteq> Deep" using Suc(3) [of s] 2 by simp
    ultimately show ?case by (auto simp: pbind_Deep split: if_splits)
  next
    case 3
    then show ?case using Suc(4) [of s] parseredirs_not_Deep parseargs_result by (auto simp: pbind_Deep)
  next
    case 4
    have "parseline n (rest_of s) \<noteq> Deep" if "peek s ''(''"
      using Suc(1) [of "rest_of s"] peek_shorter [OF that] 4 by simp
    then show ?case using parseredirs_not_Deep by (auto simp: pbind_Deep split: if_splits)
  }
qed

section \<open>Well-formed commands\<close>

definition is_word :: "string \<Rightarrow> bool" where
  "is_word w \<longleftrightarrow> w \<noteq> [] \<and> (\<forall>c\<in>set w. word_char c)"

fun wf_cmd :: "cmd \<Rightarrow> bool" where
  "wf_cmd (EXEC argv) \<longleftrightarrow> length argv < MAXARGS \<and> (\<forall>a\<in>set argv. is_word a)"
| "wf_cmd (REDIR c f mode fd) \<longleftrightarrow> wf_cmd c \<and> is_word f \<and> (mode = REDIR_IN \<and> fd = 0 \<or> mode = REDIR_OUT \<and> fd = 1)"
| "wf_cmd (PIPE c d) \<longleftrightarrow> wf_cmd c \<and> wf_cmd d"
| "wf_cmd (LIST c d) \<longleftrightarrow> wf_cmd c \<and> wf_cmd d"
| "wf_cmd (BACK c) \<longleftrightarrow> wf_cmd c"

definition wf_redirs :: "(string \<times> nat \<times> nat) list \<Rightarrow> bool" where
  "wf_redirs rs \<longleftrightarrow> (\<forall>(f, mode, fd)\<in>set rs. is_word f \<and> (mode = REDIR_IN \<and> fd = 0 \<or> mode = REDIR_OUT \<and> fd = 1))"

lemma wf_redirect: "wf_redirs rs \<Longrightarrow> wf_cmd c \<Longrightarrow> wf_cmd (redirect rs c)"
  by (induction rs arbitrary: c) (auto simp: wf_redirs_def redirect_def)

lemma gettoken_word:
  assumes "fst (gettoken s) = CHR ''a''"
  shows "is_word (fst (snd (gettoken s)))"
proof -
  obtain c cs where s: "skip s = c # cs" using assms by (cases "skip s") (auto simp: gettoken_def)
  have c: "c \<notin> set whitespace"
    using hd_dropWhile [of "\<lambda>c. c \<in> set whitespace" s] s unfolding skip_def by (metis list.distinct(1) list.sel(1))
  have "c \<notin> set ''|();&<''" "c \<noteq> CHR ''>''" using assms s by (auto simp: gettoken_def split: if_splits)
  with c have "word_char c" by (auto simp: word_char_def symbols_def)
  moreover have "fst (snd (gettoken s)) = takeWhile word_char (c # cs)"
    using s \<open>c \<notin> set ''|();&<''\<close> \<open>c \<noteq> CHR ''>''\<close> by (simp add: gettoken_def)
  ultimately show ?thesis by (auto simp: is_word_def dest: set_takeWhileD)
qed

lemma wf_parseredirs: "parseredirs s = Parsed rs s' \<Longrightarrow> wf_redirs rs"
proof (induction s arbitrary: rs rule: parseredirs.induct)
  case (1 s)
  show ?case
  proof (cases "peek s ''<>''")
    case True
    let ?t = "gettoken (rest_of s)"
    from 1(2) True have a: "fst ?t = CHR ''a''" by (auto simp: parseredirs.simps [of s] Let_def split: if_splits)
    with 1(2) True obtain rs' where rec: "parseredirs (snd (snd ?t)) = Parsed rs' s'"
      by (cases "parseredirs (snd (snd ?t))") (auto simp: parseredirs.simps [of s] Let_def)
    from 1(1) [OF True refl refl _ rec] a have "wf_redirs rs'" by simp
    with 1(2) True a rec gettoken_word [OF a] show ?thesis
      by (auto simp: parseredirs.simps [of s] Let_def wf_redirs_def split: if_splits)
  next
    case False
    with 1(2) show ?thesis by (simp add: parseredirs.simps [of s] wf_redirs_def)
  qed
qed

lemma wf_parseargs:
  "parseargs argv rs s = Parsed c s' \<Longrightarrow> wf_cmd (EXEC argv) \<Longrightarrow> wf_redirs rs \<Longrightarrow> wf_cmd c"
proof (induction argv rs s rule: parseargs.induct)
  case (1 argv rs s)
  let ?t = "gettoken s"
  show ?case
  proof (cases "peek s ''|)&;'' \<or> fst ?t = CHR 0x00")
    case True
    with 1(2-) wf_redirect [OF 1(4,3)] show ?thesis by (auto simp: parseargs.simps [of argv rs s] Let_def split: if_splits)
  next
    case False
    with 1(2) have a: "fst ?t = CHR ''a''" "\<not> MAXARGS \<le> length argv + 1"
      by (auto simp: parseargs.simps [of argv rs s] Let_def split: if_splits)
    from 1(2) False a obtain rs' s1 where r: "parseredirs (snd (snd ?t)) = Parsed rs' s1"
        "parseargs (argv @ [fst (snd ?t)]) (rs @ rs') s1 = Parsed c s'"
      by (auto simp: parseargs.simps [of argv rs s] Let_def split: parsed.splits)
    have "wf_cmd (EXEC (argv @ [fst (snd ?t)]))" using 1(3) a gettoken_word [OF a(1)] by auto
    moreover have "wf_redirs (rs @ rs')" using 1(4) wf_parseredirs [OF r(1)] by (auto simp: wf_redirs_def)
    ultimately show ?thesis using 1(1) [OF _ refl _ _ _ r(1) r(2)] False a by auto
  qed
qed

lemma wf_parseback: "wf_cmd c \<Longrightarrow> wf_cmd (fst (parseback c s))"
  by (induction c s rule: parseback.induct) (simp add: parseback.simps)

lemma wf_parse:
  "parseline n s = Parsed c s' \<Longrightarrow> wf_cmd c"
  "parsepipe n s = Parsed c s' \<Longrightarrow> wf_cmd c"
  "parseexec n s = Parsed c s' \<Longrightarrow> wf_cmd c"
  "parseblock n s = Parsed c s' \<Longrightarrow> wf_cmd c"
proof (induction n arbitrary: s c s')
  case 0
  {
    case 1
    then show ?case by simp
  next
    case 2
    then show ?case by simp
  next
    case 3
    then show ?case by simp
  next
    case 4
    then show ?case by simp
  }
next
  case (Suc n)
  {
    case 1
    then obtain c1 s1 where p: "parsepipe n s = Parsed c1 s1" by (auto simp: pbind_Parsed)
    obtain c2 s2 where b: "parseback c1 s1 = (c2, s2)" by fastforce
    have "wf_cmd c2" using wf_parseback [of c1 s1] b Suc(2) [OF p] by simp
    with 1 p b Suc(1) show ?case by (auto simp: pbind_Parsed split: if_splits)
  next
    case 2
    with Suc(2,3) show ?case by (auto simp: pbind_Parsed split: if_splits)
  next
    case 3
    have "wf_cmd (EXEC [])" by (simp add: MAXARGS_def)
    with 3 Suc(4) wf_parseredirs wf_parseargs show ?case by (auto simp: pbind_Parsed split: if_splits)
  next
    case 4
    with Suc(1) wf_parseredirs wf_redirect show ?case by (fastforce simp: pbind_Parsed split: if_splits)
  }
qed

section \<open>Properties\<close>

text \<open>
  C34: The parser of the shell is total and its results are well formed. On every command line it
  either calls panic or gives a command; the depth of its calls is at most four per character. In
  every command it gives, each EXEC has fewer than MAXARGS arguments, each argument and each file
  name is a non-empty word without white space and symbols, and each redirection opens descriptor
  0 for reading or descriptor 1 for writing.
\<close>

theorem shell_parser_sound:
  "parsecmd s \<noteq> Deep \<and> (\<forall>c r. parsecmd s = Parsed c r \<longrightarrow> wf_cmd c \<and> r = [])"
proof -
  have "parseline (4 * length s + 4) s \<noteq> Deep" by (rule parse_not_Deep) simp
  then show ?thesis using wf_parse(1) by (auto simp: parsecmd_def pbind_Deep pbind_Parsed split: if_splits)
qed

theorem shell_parser_sound_witness:
  "parsecmd ''ls'' = Parsed (EXEC [''ls'']) [] \<and> wf_cmd (EXEC [''ls''])"
proof -
  have p: "parsecmd ''ls'' = Parsed (EXEC [''ls'']) []"
    by (simp add: parsecmd_def eval_nat_numeral peek_def skip_def whitespace_def parseredirs.simps parseargs.simps parseback.simps
        gettoken_def word_char_def symbols_def MAXARGS_def redirect_def)
  with shell_parser_sound [of "''ls''"] show ?thesis by simp
qed

end
