(* ===== verification/Spec2Isabelle.thy ===== *)
theory Spec2Isabelle
  imports Scheduler Kstring Trap Grep Shell
begin

text \<open>
  A verification of an xv6 kernel with four schedulers, and of two of its user programs.

  \<^bold>\<open>The program.\<close> The kernel runs processes (\<open>proc.c\<close>) in address spaces (\<open>vm.c\<close>) made of pages
  from a free list (\<open>kalloc.c\<close>), under spin locks (\<open>spinlock.c\<close>) and sleep locks (\<open>sleeplock.c\<close>).
  A process enters it through \<open>trap.c\<close>, by a system call (\<open>syscall.c\<close>, \<open>sysproc.c\<close>, \<open>sysfile.c\<close>) or
  an interrupt of the clock, the keyboard (\<open>kbd.c\<close>) or the serial port (\<open>uart.c\<close>, \<open>console.c\<close>). Files
  (\<open>file.c\<close>) are pipes (\<open>pipe.c\<close>) or inodes and directories (\<open>fs.c\<close>), whose blocks go through a
  redo log (\<open>log.c\<close>) and a cache of buffers (\<open>bio.c\<close>) to a disk in memory (\<open>memide.c\<close>). The scheduler
  is chosen when the kernel is built: round robin, first come first served, priorities, or a
  multilevel feedback queue. The shell and \<open>grep\<close> are user programs.

  \<^bold>\<open>The model.\<close> A kernel function is a HOL function of the state of the machine. Its result is
  an \<open>outcome\<close> (theory \<open>Prelude\<close>): it returns a value and a state, it panics, it blocks on a channel
  (the process sleeps, and a second definition with the suffix \<open>_resume\<close> continues after the wake-up),
  or it faults, which stands for an access the C language gives no meaning and for fuel that ran out.
  \<open>kbind\<close> sequences two calls and \<open>kfor\<close> is a loop over a fixed table. The state is one extensible
  record that grows theory by theory: the locks held by the processor, then the free list and the
  words of memory, the process table and the run queues, the sleep locks, the buffers and the disk,
  the log, the inode cache and the super block, the file table and the pipes, and the console. A
  function that needs only the first fields is polymorphic in the rest, so that its lemmas hold
  wherever it is called. Machine integers are words of their width, or \<open>int\<close> where the code counts
  in \<open>int\<close> without reaching its bounds. Pointers into a fixed table are indices into a list; pages
  and page tables live at addresses in a memory of words.

  \<^bold>\<open>The theories\<close>, in the order of the code, and what their lemmas show.

  \<^item> \<open>Prelude\<close>: outcomes, sequencing, table scans, machine constants of \<open>param.h\<close>.
  \<^item> \<open>Ring\<close>: a locale with the laws of a ring buffer whose counters wrap around; interpreted by the
    pipes and by the console input.
  \<^item> \<open>Spinlock\<close>: \<open>spinlock.c\<close> at two levels. The steps of several processors interleave, and no two
    hold a lock; the one-step \<open>acquire\<close> and \<open>release\<close> of the other theories are refined by the code.
  \<^item> \<open>Kalloc\<close>: \<open>kalloc.c\<close>. Any sequence of calls hands no page out twice and loses none.
  \<^item> \<open>Proc_State\<close>, \<open>Run_Queue\<close>, \<open>Proc\<close>: the table and the state, the queues of the feedback scheduler
    as bounded arrays that refine lists, and allocation, sleep, wake-up, kill, priorities and
    accounting, each with the exact change it makes. The invariant \<open>sched_inv\<close> (distinct pids, and the
    queues hold exactly the runnable processes at their level) is kept by every operation.
  \<^item> \<open>Scheduler\<close>: each scheduler loop cut at the context switch into a part that picks a process and a
    part that runs when it comes back. Each picks the process its policy says, idles only when nothing
    is runnable, and restores the invariant.
  \<^item> \<open>Proc_Life\<close>: \<open>userinit\<close>, \<open>growproc\<close>, \<open>fork\<close>, \<open>exit\<close>, \<open>wait\<close> and \<open>waitx\<close>; the effect of \<open>exit\<close> on every slot.
  \<^item> \<open>Kstring\<close>: \<open>string.c\<close> on a memory of bytes, with overlapping moves and termination of strings.
  \<^item> \<open>Sleeplock\<close>, \<open>Block_Cache\<close>, \<open>Bio\<close>: sleep locks, the contract of a block cache as a locale, and the
    buffer cache with its doubly linked list, which is an interpretation of it: a block that is read
    has its last written contents, and a released buffer is the most recent one.
  \<^item> \<open>Bytes\<close>, \<open>Fs_Layout\<close>: little-endian words, and inodes, directory entries and headers in blocks,
    with round trips.
  \<^item> \<open>Log\<close>: transactions, commit and recovery. A crash at any write of a commit, and a crash during
    recovery, leave all of a transaction or nothing.
  \<^item> \<open>Fs\<close>, \<open>Fs_Dir\<close>: the block allocator and its free map, inodes and their contents, directories and
    path names.
  \<^item> \<open>Pipe\<close>, \<open>File\<close>: pipes as bounded queues, and the file table.
  \<^item> \<open>Paging\<close>: page tables in memory; \<open>mappages\<close> maps exactly its range, and all loops of \<open>vm.c\<close> end.
  \<^item> \<open>Exec\<close>, \<open>Sysproc\<close>, \<open>Sysfile\<close>, \<open>Syscall\<close>: loading a program, the arguments of system calls, which are
    checked against the memory of the process, all system calls, and their dispatch.
  \<^item> \<open>Format\<close>: \<open>printint\<close>, \<open>cprintf\<close>, \<open>printf\<close> and \<open>atoi\<close>; printed numbers read back.
  \<^item> \<open>Console\<close>, \<open>Kbd\<close>, \<open>Trap\<close>: the screen, the line discipline, which refines a pair of lists, scan codes,
    and the trap handler with the preemption rule of each scheduler.
  \<^item> \<open>Grep\<close>, \<open>Shell\<close>: the matcher against the language of its pattern, and the parser of the shell,
    whose trees are well formed.

  \<^bold>\<open>Bounds and fuel.\<close> Loops over fixed tables are folds. Loops that walk a range of pages or the list
  of buffers take fuel and fault without it: \<open>mappages\<close> and \<open>deallocuvm\<close> give their loops a round for
  each page of the range or below the old size, and the termination theorem of \<open>Paging\<close> shows that no loop of \<open>vm.c\<close> runs
  out; the walk over the buffers gets one round for each of them and the list head, which the
  invariant of the cache shows to be enough. The shell parser gets \<open>4 * length + 4\<close> levels of calls
  and never runs out. The spin loop of a lock and \<open>strlen\<close> are partial functions, since neither
  needs to end; in the interleaving of several processors one that spins takes no step.

  \<^bold>\<open>Arguments of the model.\<close> The end of the kernel image and the linker symbol \<open>data\<close>, the program
  \<open>initcode\<close>, the bytes that arrive at the keyboard and the serial port, and the device table, whose
  console entries are defined in \<open>Console\<close>.

  \<^bold>\<open>Not modelled\<close>: \<open>ide.c\<close>, \<open>lapic.c\<close>, \<open>ioapic.c\<close>, \<open>mp.c\<close>, \<open>picirq.c\<close> and \<open>uartinit\<close>, which work on device
  registers; the boot loader, \<open>main.c\<close> and the assembly files; \<open>seginit\<close>, \<open>tvinit\<close> and \<open>idtinit\<close>, which load
  descriptor tables; \<open>umalloc.c\<close>; \<open>mkfs.c\<close>, a tool of the host; the user programs that only make
  system calls and print, the running of commands by the shell among them; tests and benchmarks.
\<close>

end
